(* ===== verification/Go_Prelude.thy ===== *)
theory Go_Prelude
  imports Main "HOL-Library.AList" "HOL-Library.Char_ord" "HOL-Library.List_Lexorder"
    "HOL-Library.Sublist"
begin

text \<open>
  What the components share: the parts of Go and of its standard library that the source uses,
  as executable definitions, with the lemmas the component proofs rest on.

  \<^item> A Go string is its bytes, a \<^typ>\<open>string\<close>; the order of \<open>HOL-Library.List_Lexorder\<close> over
    \<open>HOL-Library.Char_ord\<close> is Go's comparison of strings.
  \<^item> A Go map is an association list with distinct keys, in the order an iteration over it
    happens to yield: a theorem about every such list is a theorem about every iteration order.
  \<^item> A \<open>time.Time\<close> is a count of nanoseconds since the Unix epoch, unbounded as Go's is for every
    date a file system holds; the zero time is the first of January of year 1.
  \<^item> A Go \<open>int\<close> is an \<^typ>\<open>int\<close>, with \<open>int64\<close> (the wrap-around) written out where a sum or a
    difference may leave the range.
  \<^item> A fallible function returns \<open>Inl\<close> of an error of its component or \<open>Inr\<close> of its result; one
    that returns only an \<open>error\<close> returns an \<open>option\<close> of it, \<open>None\<close> for nil.
\<close>

named_theorems gomap_simps

lemma pair_fst: "fst x = a \<Longrightarrow> x = (a, snd x)"
  by auto

section \<open>Integers\<close>

definition int64 :: "int \<Rightarrow> int" where
  "int64 x = (x + 2 ^ 63) mod 2 ^ 64 - 2 ^ 63"

definition in_int64 :: "int \<Rightarrow> bool" where
  "in_int64 x \<longleftrightarrow> - (2 ^ 63) \<le> x \<and> x < 2 ^ 63"

lemma int64_id [simp]: "in_int64 x \<Longrightarrow> int64 x = x"
  by (simp add: int64_def in_int64_def)

lemma int64_range: "in_int64 (int64 x)"
proof -
  have "0 \<le> (x + 2 ^ 63) mod 2 ^ 64" and "(x + 2 ^ 63) mod 2 ^ 64 < (2 ^ 64 :: int)"
    by simp_all
  then show ?thesis
    by (simp add: int64_def in_int64_def)
qed

lemma int64_add_left: "int64 (int64 x + y) = int64 (x + y)"
proof -
  have "int64 x + y + 2 ^ 63 = (x + 2 ^ 63) mod 2 ^ 64 + y"
    by (simp add: int64_def)
  then have "(int64 x + y + 2 ^ 63) mod 2 ^ 64 = (x + 2 ^ 63 + y) mod (2 ^ 64 :: int)"
    by (simp only: mod_add_left_eq)
  moreover have "x + 2 ^ 63 + y = x + y + 2 ^ 63"
    by simp
  ultimately show ?thesis
    by (simp only: int64_def [of "int64 x + y"] int64_def [of "x + y"])
qed

lemma int64_diff_left: "int64 (int64 x - y) = int64 (x - y)"
  using int64_add_left [of x "- y"] by simp

section \<open>Time\<close>

type_synonym time = int
type_synonym duration = int

definition zero_time :: time where
  "zero_time = - 62135596800 * 10 ^ 9"

definition IsZero :: "time \<Rightarrow> bool" where
  "IsZero t \<longleftrightarrow> t = zero_time"

text \<open>\<open>Time.Sub\<close> saturates at the ends of the 64-bit \<open>Duration\<close>.\<close>

definition time_Sub :: "time \<Rightarrow> time \<Rightarrow> duration" where
  "time_Sub t u = max (- (2 ^ 63)) (min (2 ^ 63 - 1) (t - u))"

definition second :: duration where
  "second = 10 ^ 9"

text \<open>\<open>Time.Round\<close> rounds to the nearest multiple of the duration since the zero time, halfway
  values up; the zero time is a whole number of seconds from the epoch.\<close>

definition round_second :: "time \<Rightarrow> time" where
  "round_second t =
     (let r = t mod second in if r + r < second then t - r else t + (second - r))"

lemma time_Sub_less: "0 \<le> d \<Longrightarrow> d < 2 ^ 63 - 1 \<Longrightarrow> time_Sub t u < d \<longleftrightarrow> t - u < d"
  unfolding time_Sub_def by linarith

lemma time_Sub_ge: "0 < d \<Longrightarrow> d \<le> 2 ^ 63 - 1 \<Longrightarrow> d \<le> time_Sub t u \<longleftrightarrow> d \<le> t - u"
  unfolding time_Sub_def by linarith

section \<open>Maps\<close>

type_synonym ('k, 'v) gomap = "('k \<times> 'v) list"

abbreviation mget :: "('k, 'v) gomap \<Rightarrow> 'k \<Rightarrow> 'v option" where
  "mget m k \<equiv> map_of m k"

abbreviation mput :: "'k \<Rightarrow> 'v \<Rightarrow> ('k, 'v) gomap \<Rightarrow> ('k, 'v) gomap" where
  "mput k v m \<equiv> AList.update k v m"

abbreviation mdel :: "'k \<Rightarrow> ('k, 'v) gomap \<Rightarrow> ('k, 'v) gomap" where
  "mdel k m \<equiv> AList.delete k m"

text \<open>\<open>maps.DeleteFunc\<close>: the entries the predicate holds of are deleted.\<close>

definition mdel_if :: "('k \<Rightarrow> 'v \<Rightarrow> bool) \<Rightarrow> ('k, 'v) gomap \<Rightarrow> ('k, 'v) gomap" where
  "mdel_if f m = filter (\<lambda>(k, v). \<not> f k v) m"

definition wfm :: "('k, 'v) gomap \<Rightarrow> bool" where
  "wfm m \<longleftrightarrow> distinct (map fst m)"

lemma wfm_Nil [simp, intro]: "wfm []"
  by (simp add: wfm_def)

lemma wfm_mput [simp, intro]: "wfm m \<Longrightarrow> wfm (mput k v m)"
  by (simp add: wfm_def distinct_update)

lemma wfm_mdel [simp, intro]: "wfm m \<Longrightarrow> wfm (mdel k m)"
  by (simp add: wfm_def distinct_delete)

lemma wfm_filter [simp, intro]: "wfm m \<Longrightarrow> wfm (filter P m)"
  by (simp add: wfm_def distinct_map_filter)

lemma wfm_mdel_if [simp, intro]: "wfm m \<Longrightarrow> wfm (mdel_if f m)"
  by (simp add: mdel_if_def)

lemma mget_mput [simp, gomap_simps]: "mget (mput k v m) k' = (if k' = k then Some v else mget m k')"
  by (simp add: update_conv')

lemma mget_mdel [simp, gomap_simps]: "mget (mdel k m) k' = (if k' = k then None else mget m k')"
  by (simp add: delete_conv')

lemma mget_set: "wfm m \<Longrightarrow> (k, v) \<in> set m \<longleftrightarrow> mget m k = Some v"
  by (simp add: wfm_def)

lemma mget_filter:
  "wfm m \<Longrightarrow> mget (filter (\<lambda>(k, v). P k v) m) k =
     (case mget m k of None \<Rightarrow> None | Some v \<Rightarrow> if P k v then Some v else None)"
proof (induction m)
  case Nil
  then show ?case by simp
next
  case (Cons a m)
  obtain k' v where a: "a = (k', v)" by (cases a)
  from Cons.prems a have k': "mget m k' = None" and m: "wfm m"
    by (auto simp: wfm_def map_of_eq_None_iff image_iff)
  then show ?case
    using Cons.IH [OF m] a by (auto split: option.splits)
qed

lemma mget_mdel_if [gomap_simps]:
  "wfm m \<Longrightarrow> mget (mdel_if f m) k =
     (case mget m k of None \<Rightarrow> None | Some v \<Rightarrow> if f k v then None else Some v)"
  unfolding mdel_if_def by (subst mget_filter) (auto split: option.splits)

lemma mget_in_vals: "mget m k = Some v \<Longrightarrow> v \<in> snd ` set m"
  by (force dest: map_of_SomeD)

lemma mget_None_iff: "mget m k = None \<longleftrightarrow> k \<notin> fst ` set m"
  by (rule map_of_eq_None_iff)

lemma mput_mem: "(k', v') \<in> set (mput k v m) \<Longrightarrow> (k', v') = (k, v) \<or> (k', v') \<in> set m"
  by (induction m) (auto split: if_splits)

lemma mput_fresh: "mget m k = None \<Longrightarrow> mput k v m = m @ [(k, v)]"
  by (induction m) auto

text \<open>Filling a map from a list of pairs, in any order of its distinct keys.\<close>

lemma mget_fold_mput:
  "wfm es \<Longrightarrow> mget (fold (\<lambda>(k, v). mput k v) es m) k =
     (case mget es k of Some v \<Rightarrow> Some v | None \<Rightarrow> mget m k)"
proof (induction es arbitrary: m)
  case Nil
  then show ?case by simp
next
  case (Cons e es)
  obtain k' v where e: "e = (k', v)" by (cases e)
  with Cons.prems have "wfm es" and "mget es k' = None"
    by (auto simp: wfm_def map_of_eq_None_iff image_iff)
  with Cons.IH e show ?case by (auto split: option.splits)
qed

lemma wfm_fold_mput: "wfm m \<Longrightarrow> wfm (fold (\<lambda>(k, v). mput k v) es m)"
  by (induction es arbitrary: m) (auto simp: case_prod_beta)

lemma mget_cong_set: "wfm m \<Longrightarrow> wfm m' \<Longrightarrow> set m = set m' \<Longrightarrow> mget m k = mget m' k"
proof -
  assume "wfm m" and "wfm m'" and "set m = set m'"
  then have "mget m k = Some v \<longleftrightarrow> mget m' k = Some v" for v
    by (metis mget_set)
  then show ?thesis by (metis option.exhaust)
qed

section \<open>Strings\<close>

abbreviation byte :: "char \<Rightarrow> nat" where
  "byte c \<equiv> of_char c"

definition HasPrefix :: "string \<Rightarrow> string \<Rightarrow> bool" where
  "HasPrefix s p \<longleftrightarrow> take (length p) s = p"

definition HasSuffix :: "string \<Rightarrow> string \<Rightarrow> bool" where
  "HasSuffix s p \<longleftrightarrow> length p \<le> length s \<and> drop (length s - length p) s = p"

definition CutPrefix :: "string \<Rightarrow> string \<Rightarrow> string option" where
  "CutPrefix s p = (if HasPrefix s p then Some (drop (length p) s) else None)"

definition TrimPrefix :: "string \<Rightarrow> string \<Rightarrow> string" where
  "TrimPrefix s p = (if HasPrefix s p then drop (length p) s else s)"

definition CutSuffix :: "string \<Rightarrow> string \<Rightarrow> string option" where
  "CutSuffix s p = (if HasSuffix s p then Some (take (length s - length p) s) else None)"

definition TrimSuffix :: "string \<Rightarrow> string \<Rightarrow> string" where
  "TrimSuffix s p = (if HasSuffix s p then take (length s - length p) s else s)"

text \<open>\<open>strings.Cut\<close> around a one-byte separator: \<open>None\<close> is its false.\<close>

definition Cut :: "char \<Rightarrow> string \<Rightarrow> (string \<times> string) option" where
  "Cut c s = (if c \<in> set s
     then Some (takeWhile (\<lambda>x. x \<noteq> c) s, tl (dropWhile (\<lambda>x. x \<noteq> c) s)) else None)"

text \<open>\<open>strings.Split\<close> around a one-byte separator.\<close>

fun Split :: "char \<Rightarrow> string \<Rightarrow> string list" where
  "Split c [] = [[]]"
| "Split c (x # xs) =
     (if x = c then [] # Split c xs
      else (case Split c xs of [] \<Rightarrow> [[x]] | y # ys \<Rightarrow> (x # y) # ys))"

fun Join :: "string \<Rightarrow> string list \<Rightarrow> string" where
  "Join sep [] = []"
| "Join sep [x] = x"
| "Join sep (x # y # ys) = x @ sep @ Join sep (y # ys)"

lemma HasPrefix_append [simp]: "HasPrefix (p @ s) p"
  by (simp add: HasPrefix_def)

lemma HasPrefix_iff: "HasPrefix s p \<longleftrightarrow> (\<exists>r. s = p @ r)"
  by (metis HasPrefix_def append_eq_conv_conj)

lemma HasSuffix_iff: "HasSuffix s p \<longleftrightarrow> (\<exists>r. s = r @ p)"
proof
  assume "HasSuffix s p"
  then show "\<exists>r. s = r @ p"
    unfolding HasSuffix_def by (metis append_take_drop_id)
qed (auto simp: HasSuffix_def)

lemma CutPrefix_append [simp]: "CutPrefix (p @ s) p = Some s"
  by (simp add: CutPrefix_def)

lemma CutPrefix_Some: "CutPrefix s p = Some r \<longleftrightarrow> s = p @ r"
  by (auto simp: CutPrefix_def HasPrefix_iff)

lemma TrimSuffix_append [simp]: "TrimSuffix (s @ p) p = s"
  by (simp add: TrimSuffix_def HasSuffix_iff)

lemma takeWhile_sep [simp]: "c \<notin> set a \<Longrightarrow> takeWhile (\<lambda>x. x \<noteq> c) (a @ c # b) = a"
  by (induction a) auto

lemma dropWhile_sep [simp]: "c \<notin> set a \<Longrightarrow> dropWhile (\<lambda>x. x \<noteq> c) (a @ c # b) = c # b"
  by (induction a) auto

lemma Cut_append [simp]: "c \<notin> set a \<Longrightarrow> Cut c (a @ c # b) = Some (a, b)"
  by (simp add: Cut_def)

lemma Cut_None [simp]: "c \<notin> set s \<Longrightarrow> Cut c s = None"
  by (simp add: Cut_def)

lemma Cut_Some: "Cut c s = Some (a, b) \<Longrightarrow> s = a @ c # b \<and> c \<notin> set a"
proof -
  assume "Cut c s = Some (a, b)"
  then have c: "c \<in> set s" and a: "a = takeWhile (\<lambda>x. x \<noteq> c) s"
    and b: "b = tl (dropWhile (\<lambda>x. x \<noteq> c) s)"
    by (auto simp: Cut_def split: if_splits)
  from c obtain u v where s: "s = u @ c # v" and u: "c \<notin> set u"
    by (meson split_list_first)
  from s u a b show ?thesis by simp
qed

lemma Split_not_Nil [simp]: "Split c s \<noteq> []"
  by (cases s) (auto split: list.splits)

lemma Split_no_sep: "x \<in> set (Split c s) \<Longrightarrow> c \<notin> set x"
  by (induction s arbitrary: x) (auto split: list.splits if_splits)

lemma Split_single [simp]: "c \<notin> set s \<Longrightarrow> Split c s = [s]"
  by (induction s) auto

lemma Split_append [simp]: "c \<notin> set a \<Longrightarrow> Split c (a @ c # b) = a # Split c b"
  by (induction a) auto

lemma Split_Join:
  "ls \<noteq> [] \<Longrightarrow> (\<And>l. l \<in> set ls \<Longrightarrow> c \<notin> set l) \<Longrightarrow> Split c (Join [c] ls) = ls"
  by (induction "[c]" ls rule: Join.induct) auto

lemma Join_Split: "Join [c] (Split c s) = s"
proof (induction s)
  case Nil
  then show ?case by simp
next
  case (Cons x s)
  obtain y ys where "Split c s = y # ys"
    by (cases "Split c s") auto
  with Cons.IH show ?case by (cases ys) auto
qed

section \<open>White space\<close>

text \<open>
  \<open>strings.TrimSpace\<close> trims the runes of Unicode's White Space, which in UTF-8 are the byte
  sequences below; a sequence matches at the start or the end of a string exactly when the rune
  decoded there is that space.
\<close>

definition bytes :: "nat list \<Rightarrow> string" where
  "bytes ns = map char_of ns"

definition spaces :: "string list" where
  "spaces =
     map bytes ([[9], [10], [11], [12], [13], [32], [194, 133], [194, 160], [225, 154, 128]] @
       map (\<lambda>b. [226, 128, b]) [128, 129, 130, 131, 132, 133, 134, 135, 136, 137, 138, 168, 169, 175] @
       [[226, 129, 159], [227, 128, 128]])"

fun strip_prefix :: "string list \<Rightarrow> string \<Rightarrow> string option" where
  "strip_prefix [] s = None"
| "strip_prefix (p # ps) s = (case CutPrefix s p of Some r \<Rightarrow> Some r | None \<Rightarrow> strip_prefix ps s)"

function trim_left :: "string list \<Rightarrow> string \<Rightarrow> string" where
  "trim_left ps s =
     (case strip_prefix ps s of
        Some r \<Rightarrow> if length r < length s then trim_left ps r else s
      | None \<Rightarrow> s)"
  by pat_completeness auto
termination
  by (relation "measure (\<lambda>(ps, s). length s)") auto

declare trim_left.simps [simp del]

definition TrimSpace :: "string \<Rightarrow> string" where
  "TrimSpace s = rev (trim_left (map rev spaces) (rev (trim_left spaces s)))"

text \<open>A byte that starts or ends no space sequence: every printable ASCII byte is one.\<close>

definition plain :: "char \<Rightarrow> bool" where
  "plain c \<longleftrightarrow> 33 \<le> byte c \<and> byte c \<le> 126"

lemma strip_prefix_None:
  "s = [] \<or> (\<forall>p \<in> set ps. hd p \<noteq> hd s) \<Longrightarrow> [] \<notin> set ps \<Longrightarrow> strip_prefix ps s = None"
proof (induction ps)
  case Nil
  then show ?case by simp
next
  case (Cons p ps)
  then obtain a p' where p: "p = a # p'" by (cases p) auto
  with Cons.prems have "\<not> HasPrefix s p" by (cases s) (auto simp: HasPrefix_def)
  with Cons show ?case by (auto simp: CutPrefix_def)
qed

lemma plain_not_space: "plain c \<Longrightarrow> p \<in> set spaces \<union> set (map rev spaces) \<Longrightarrow> hd p \<noteq> c"
  unfolding spaces_def bytes_def plain_def by auto

lemma spaces_not_Nil: "[] \<notin> set spaces" "[] \<notin> set (map rev spaces)"
  by (auto simp: spaces_def bytes_def)

lemma trim_left_plain:
  "s = [] \<or> plain (hd s) \<Longrightarrow> ps = spaces \<or> ps = map rev spaces \<Longrightarrow> trim_left ps s = s"
  using plain_not_space spaces_not_Nil
  by (subst trim_left.simps, subst strip_prefix_None) auto

lemma TrimSpace_plain [simp]:
  "s = [] \<or> plain (hd s) \<and> plain (last s) \<Longrightarrow> TrimSpace s = s"
  unfolding TrimSpace_def by (auto simp: trim_left_plain hd_rev)

lemma TrimSpace_plain_list [simp]: "list_all plain s \<Longrightarrow> TrimSpace s = s"
  by (cases "s = []") (auto simp: list_all_iff)

section \<open>Numbers in decimal\<close>

definition digit :: "nat \<Rightarrow> char" where
  "digit n = char_of (48 + n)"

definition is_digit :: "char \<Rightarrow> bool" where
  "is_digit c \<longleftrightarrow> 48 \<le> byte c \<and> byte c \<le> 57"

definition digit_val :: "char \<Rightarrow> nat" where
  "digit_val c = byte c - 48"

fun nat_digits :: "nat \<Rightarrow> string" where
  "nat_digits n = (if n < 10 then [digit n] else nat_digits (n div 10) @ [digit (n mod 10)])"

declare nat_digits.simps [simp del]

text \<open>\<open>strconv.Itoa\<close> and \<open>fmt\<close>'s \<open>%d\<close>.\<close>

definition Itoa :: "int \<Rightarrow> string" where
  "Itoa i = (if i < 0 then CHR ''-'' # nat_digits (nat (- i)) else nat_digits (nat i))"

definition digits_val :: "nat \<Rightarrow> string \<Rightarrow> nat" where
  "digits_val base s = foldl (\<lambda>n c. base * n + digit_val c) 0 s"

text \<open>\<open>strconv.ParseUint\<close> in a base of at most ten: digits of the base only, and a value of the
  given width.\<close>

definition ParseUint :: "string \<Rightarrow> nat \<Rightarrow> nat \<Rightarrow> nat option" where
  "ParseUint s base bits =
     (if s \<noteq> [] \<and> list_all (\<lambda>c. is_digit c \<and> digit_val c < base) s \<and> digits_val base s < 2 ^ bits
      then Some (digits_val base s) else None)"

text \<open>\<open>strconv.Atoi\<close>: an optional sign, then decimal digits, of a value in the range of \<open>int\<close>.\<close>

definition Atoi :: "string \<Rightarrow> int option" where
  "Atoi s =
     (let neg = (s \<noteq> [] \<and> hd s = CHR ''-'');
          ds = (if s \<noteq> [] \<and> (hd s = CHR ''-'' \<or> hd s = CHR ''+'') then tl s else s);
          v = (if neg then - int (digits_val 10 ds) else int (digits_val 10 ds))
      in if ds \<noteq> [] \<and> list_all is_digit ds \<and> in_int64 v then Some v else None)"

lemma byte_digit [simp]: "n < 10 \<Longrightarrow> byte (digit n) = 48 + n"
  by (simp add: digit_def)

lemma is_digit_digit [simp]: "n < 10 \<Longrightarrow> is_digit (digit n)"
  by (simp add: is_digit_def)

lemma digit_val_digit [simp]: "n < 10 \<Longrightarrow> digit_val (digit n) = n"
  by (simp add: digit_val_def)

lemma nat_digits_not_Nil [simp]: "nat_digits n \<noteq> []"
  by (subst nat_digits.simps) simp

lemma nat_digits_digits: "list_all is_digit (nat_digits n)"
proof (induction n rule: nat_digits.induct)
  case (1 n)
  then show ?case
    by (cases "n < 10") (simp_all add: nat_digits.simps [of n])
qed

lemma digits_val_snoc [simp]: "digits_val b (s @ [c]) = b * digits_val b s + digit_val c"
  by (simp add: digits_val_def)

lemma digits_val_nat_digits [simp]: "digits_val 10 (nat_digits n) = n"
proof (induction n rule: nat_digits.induct)
  case (1 n)
  show ?case
  proof (cases "n < 10")
    case True
    then show ?thesis by (simp add: nat_digits.simps [of n] digits_val_def)
  next
    case False
    with 1 show ?thesis by (simp add: nat_digits.simps [of n])
  qed
qed

lemma is_digit_hd: "list_all is_digit s \<Longrightarrow> s \<noteq> [] \<Longrightarrow> is_digit (hd s)"
  by (cases s) auto

lemma digit_not_sign: "is_digit c \<Longrightarrow> c \<noteq> CHR ''-'' \<and> c \<noteq> CHR ''+'' \<and> c \<noteq> CHR '':''"
  by (auto simp: is_digit_def)

lemma is_digit_plain: "is_digit c \<Longrightarrow> plain c"
  by (simp add: is_digit_def plain_def)

lemma Atoi_Itoa: "in_int64 i \<Longrightarrow> Atoi (Itoa i) = Some i"
proof (cases "i < 0")
  case True
  assume "in_int64 i"
  with True show ?thesis by (simp add: Atoi_def Itoa_def Let_def nat_digits_digits)
next
  case False
  assume i: "in_int64 i"
  have "is_digit (hd (nat_digits (nat i)))"
    by (rule is_digit_hd) (simp_all add: nat_digits_digits)
  with False i show ?thesis
    by (simp add: Atoi_def Itoa_def Let_def nat_digits_digits digit_not_sign)
qed

lemma Atoi_in_int64: "Atoi s = Some v \<Longrightarrow> in_int64 v"
  by (auto simp: Atoi_def Let_def split: if_splits)

lemma ParseUint_nat_digits: "n < 2 ^ bits \<Longrightarrow> ParseUint (nat_digits n) 10 bits = Some n"
  using nat_digits_digits [of n]
  by (auto simp: ParseUint_def list_all_iff is_digit_def digit_val_def)

lemma Itoa_plain: "list_all plain (Itoa i)"
proof -
  have "list_all plain (nat_digits n)" for n
    using nat_digits_digits [of n] is_digit_plain by (auto simp: list_all_iff)
  then show ?thesis by (simp add: Itoa_def plain_def)
qed

lemma Itoa_no_colon: "CHR '':'' \<notin> set (Itoa i)"
proof -
  have "CHR '':'' \<notin> set (nat_digits n)" for n
    using nat_digits_digits [of n] digit_not_sign by (auto simp: list_all_iff)
  then show ?thesis by (simp add: Itoa_def)
qed

section \<open>Trimming\<close>

text \<open>Trimming twice trims once.\<close>

lemma strip_prefix_append: "strip_prefix ps (r @ x) = None \<Longrightarrow> strip_prefix ps r = None"
  by (induction ps) (auto simp: CutPrefix_def HasPrefix_iff split: if_splits option.splits)

lemma strip_prefix_shorter:
  "[] \<notin> set ps \<Longrightarrow> strip_prefix ps s = Some r \<Longrightarrow> \<exists>p. s = p @ r \<and> p \<noteq> []"
  by (induction ps) (auto simp: CutPrefix_Some split: option.splits)

lemma trim_left_id: "strip_prefix ps s = None \<Longrightarrow> trim_left ps s = s"
  by (subst trim_left.simps) simp

lemma trim_left_done: "[] \<notin> set ps \<Longrightarrow> strip_prefix ps (trim_left ps s) = None"
proof (induction ps s rule: trim_left.induct)
  case (1 ps s)
  show ?case
  proof (cases "strip_prefix ps s")
    case None
    then show ?thesis by (simp add: trim_left_id)
  next
    case (Some r)
    with strip_prefix_shorter [OF "1.prems"] have less: "length r < length s" by fastforce
    with Some have "trim_left ps s = trim_left ps r" by (subst trim_left.simps) simp
    with "1.IH" [OF Some less] "1.prems" show ?thesis by simp
  qed
qed

lemma trim_left_suffix: "[] \<notin> set ps \<Longrightarrow> \<exists>p. s = p @ trim_left ps s"
proof (induction ps s rule: trim_left.induct)
  case (1 ps s)
  show ?case
  proof (cases "strip_prefix ps s")
    case None
    then show ?thesis by (simp add: trim_left_id)
  next
    case (Some r)
    with strip_prefix_shorter [OF "1.prems"] obtain p where s: "s = p @ r" and "p \<noteq> []" by blast
    then have less: "length r < length s" by simp
    with "1.IH" [OF Some this] "1.prems" obtain p' where r: "r = p' @ trim_left ps r" by blast
    from Some less have "trim_left ps s = trim_left ps r" by (subst trim_left.simps) simp
    with s r show ?thesis by (metis append.assoc)
  qed
qed

lemma TrimSpace_part: "\<exists>p q. s = p @ TrimSpace s @ q"
proof -
  have "[] \<notin> set spaces" and r: "[] \<notin> set (map rev spaces)" using spaces_not_Nil by auto
  then obtain p where "s = p @ trim_left spaces s" using trim_left_suffix by blast
  moreover obtain q where "rev (trim_left spaces s) = q @ trim_left (map rev spaces) (rev (trim_left spaces s))"
    using trim_left_suffix [OF r] by blast
  then have "trim_left spaces s = TrimSpace s @ rev q"
    unfolding TrimSpace_def by (metis rev_append rev_rev_ident)
  ultimately show ?thesis by metis
qed

lemma TrimSpace_set: "set (TrimSpace s) \<subseteq> set s"
  using TrimSpace_part [of s] by (metis Un_iff set_append subsetI)

lemma TrimSpace_TrimSpace [simp]: "TrimSpace (TrimSpace s) = TrimSpace s"
proof -
  have "[] \<notin> set spaces" and r: "[] \<notin> set (map rev spaces)" using spaces_not_Nil by auto
  let ?t = "trim_left spaces s"
  obtain q where "rev ?t = q @ trim_left (map rev spaces) (rev ?t)"
    using trim_left_suffix [OF r] by blast
  then have t: "?t = TrimSpace s @ rev q"
    unfolding TrimSpace_def by (metis rev_append rev_rev_ident)
  have "strip_prefix spaces ?t = None" by (rule trim_left_done) fact
  then have l: "strip_prefix spaces (TrimSpace s) = None" using t strip_prefix_append by metis
  have "strip_prefix (map rev spaces) (rev (TrimSpace s)) = None"
    using trim_left_done [OF r] by (simp add: TrimSpace_def)
  then show ?thesis
    using l by (simp add: TrimSpace_def [of "TrimSpace s"] trim_left_id)
qed

text \<open>\<open>strings.Trim\<close> with a set of bytes.\<close>

definition Trim :: "string \<Rightarrow> string \<Rightarrow> string" where
  "Trim s cutset = rev (dropWhile (\<lambda>c. c \<in> set cutset) (rev (dropWhile (\<lambda>c. c \<in> set cutset) s)))"

lemma dropWhile_all: "(\<forall>c \<in> set (dropWhile P s). P c) \<longleftrightarrow> (\<forall>c \<in> set s. P c)"
  by (induction s) auto

lemma Trim_empty: "Trim s cutset = [] \<longleftrightarrow> set s \<subseteq> set cutset"
  using dropWhile_all [of "\<lambda>c. c \<in> set cutset" s] by (auto simp: Trim_def)

section \<open>Runes\<close>

text \<open>\<open>utf8.DecodeRuneInString\<close>: the first rune and its width, the replacement rune with width 1 where
  the bytes are not UTF-8, and with width 0 where there are none.\<close>

definition RuneError :: nat where
  "RuneError = 65533"

definition cont :: "nat \<Rightarrow> nat \<Rightarrow> nat \<Rightarrow> bool" where
  "cont b lo hi \<longleftrightarrow> lo \<le> b \<and> b \<le> hi"

fun decode_bytes :: "nat list \<Rightarrow> nat \<times> nat" where
  "decode_bytes [] = (RuneError, 0)"
| "decode_bytes (b0 # bs) =
     (if b0 < 128 then (b0, 1)
      else if cont b0 194 223 \<and> length bs \<ge> 1 \<and> cont (bs ! 0) 128 191
      then (64 * (b0 - 192) + (bs ! 0 - 128), 2)
      else if cont b0 224 239 \<and> length bs \<ge> 2 \<and>
        cont (bs ! 0) (if b0 = 224 then 160 else 128) (if b0 = 237 then 159 else 191) \<and> cont (bs ! 1) 128 191
      then (4096 * (b0 - 224) + 64 * (bs ! 0 - 128) + (bs ! 1 - 128), 3)
      else if cont b0 240 244 \<and> length bs \<ge> 3 \<and>
        cont (bs ! 0) (if b0 = 240 then 144 else 128) (if b0 = 244 then 143 else 191) \<and>
        cont (bs ! 1) 128 191 \<and> cont (bs ! 2) 128 191
      then (262144 * (b0 - 240) + 4096 * (bs ! 0 - 128) + 64 * (bs ! 1 - 128) + (bs ! 2 - 128), 4)
      else (RuneError, 1))"

definition DecodeRune :: "string \<Rightarrow> nat \<times> nat" where
  "DecodeRune s = decode_bytes (map of_char s)"

lemma DecodeRune_width: "s \<noteq> [] \<Longrightarrow> 1 \<le> snd (DecodeRune s) \<and> snd (DecodeRune s) \<le> length s"
  by (cases s) (auto simp: DecodeRune_def)

lemma DecodeRune_shorter: "Suc (length s) - snd (DecodeRune (c # s)) < Suc (length s)"
  using DecodeRune_width [of "c # s"] by simp

lemma DecodeRune_ascii [simp]: "byte c < 128 \<Longrightarrow> DecodeRune (c # s) = (byte c, 1)"
  by (simp add: DecodeRune_def)

text \<open>The runes a \<open>range\<close> over a string yields.\<close>

function runes :: "string \<Rightarrow> nat list" where
  "runes [] = []"
| "runes (c # s) = (case DecodeRune (c # s) of (r, n) \<Rightarrow> r # runes (drop n (c # s)))"
  by pat_completeness auto
termination
  by (relation "measure length") (simp_all, metis DecodeRune_shorter snd_conv)

lemma runes_ascii: "list_all (\<lambda>c. byte c < 128) s \<Longrightarrow> runes s = map of_char s"
  by (induction s) auto

text \<open>\<open>unicode.ToLower\<close>, exact on ASCII and on the two other runes whose lower case is ASCII (the
  dotted capital I and the Kelvin sign). What it does to every other rune is \<open>other\<close>, which the
  callers only ever compare with ASCII.\<close>

definition rune_lower :: "(nat \<Rightarrow> nat) \<Rightarrow> nat \<Rightarrow> nat" where
  "rune_lower other r =
     (if 65 \<le> r \<and> r \<le> 90 then r + 32
      else if r < 128 then r
      else if r = 304 then 105
      else if r = 8490 then 107
      else other r)"

end
