(* ===== verification/State_Records.thy ===== *)
theory State_Records
  imports Go_Prelude "HOL-Library.Multiset"
begin

text \<open>
  The records of the agent's state directory (\<open>core-agent/accounts/record.go\<close>): one entry per
  line, blank lines and comments skipped, the file replaced whole. A file is missing, refuses to
  open, or has contents; \<open>bufio.Scanner\<close> gives up at a line of 64 KiB, after the lines before it
  were handed on.

  The locale \<open>line_record\<close> is the contract of a record's line format: what one entry is rendered
  as is a line of the record, and parses to that entry. Under it, a record that was written reads
  back as its entries, which is what an agent restart relies on. \<open>clientports\<close>
  (theory \<open>Port_Assignments\<close>) and \<open>ephemeral-runs\<close> (theory \<open>Ephemeral_Runs\<close>) are its instances.
\<close>

datatype file_state = NoFile | NoOpen | File string

abbreviation newline :: char where
  "newline \<equiv> CHR 10"

definition max_token :: nat where
  "max_token = 65536"

definition drop_CR :: "string \<Rightarrow> string" where
  "drop_CR l = TrimSuffix l [CHR 13]"

definition scan_lines :: "string \<Rightarrow> string list" where
  "scan_lines body =
     (let ls = Split newline body in if last ls = [] then butlast ls else ls)"

fun read_lines :: "(string \<Rightarrow> 's \<Rightarrow> 's) \<Rightarrow> string list \<Rightarrow> 's \<Rightarrow> bool \<times> 's" where
  "read_lines parse [] s = (True, s)"
| "read_lines parse (l # ls) s =
     (if max_token \<le> length l then (False, s)
      else let line = TrimSpace (drop_CR l)
           in if line = [] \<or> HasPrefix line ''#'' then read_lines parse ls s
              else read_lines parse ls (parse line s))"

text \<open>\<open>ReadRecord\<close> with the callback's effect on its state made explicit: whether the record could
  be read, and the state after the lines that were handed to the callback.\<close>

fun ReadRecord :: "file_state \<Rightarrow> (string \<Rightarrow> 's \<Rightarrow> 's) \<Rightarrow> 's \<Rightarrow> bool \<times> 's" where
  "ReadRecord NoFile parse s = (True, s)"
| "ReadRecord NoOpen parse s = (False, s)"
| "ReadRecord (File body) parse s = read_lines parse (scan_lines body) s"

definition record_body :: "string list \<Rightarrow> string" where
  "record_body lines =
     (let body = Join [newline] lines in if body \<noteq> [] then body @ [newline] else body)"

text \<open>\<open>WriteRecord\<close> replaces the file by a rename: any step that fails leaves the old contents.
  Whether the disk takes the write is the environment's, the first argument.\<close>

definition WriteRecord :: "bool \<Rightarrow> string list \<Rightarrow> file_state \<Rightarrow> bool \<times> file_state" where
  "WriteRecord disk_ok lines file =
     (if disk_ok then (True, File (record_body lines)) else (False, file))"

section \<open>Reading back what was written\<close>

text \<open>A line a record may hold: it survives the scanner and the trimming, and is no comment.\<close>

definition record_line :: "string \<Rightarrow> bool" where
  "record_line l \<longleftrightarrow>
     l \<noteq> [] \<and> plain (hd l) \<and> plain (last l) \<and> newline \<notin> set l \<and> hd l \<noteq> CHR ''#'' \<and>
     length l < max_token"

lemma record_line_plain:
  assumes "list_all plain l" and "l \<noteq> []" and "hd l \<noteq> CHR ''#''" and "length l < max_token"
  shows "record_line l"
proof -
  from assms(1) have "\<forall>c \<in> set l. plain c" by (simp add: list_all_iff)
  moreover have "\<not> plain newline" by (simp add: plain_def)
  ultimately show ?thesis using assms by (auto simp: record_line_def)
qed

lemma drop_CR_plain: "l \<noteq> [] \<Longrightarrow> plain (last l) \<Longrightarrow> drop_CR l = l"
proof -
  assume "l \<noteq> []" and p: "plain (last l)"
  have "\<not> HasSuffix l [CHR 13]"
  proof
    assume "HasSuffix l [CHR 13]"
    then have "last l = CHR 13" by (auto simp: HasSuffix_iff)
    with p show False by (simp add: plain_def)
  qed
  then show ?thesis by (simp add: drop_CR_def TrimSuffix_def)
qed

lemma record_line_trim: "record_line l \<Longrightarrow> TrimSpace (drop_CR l) = l"
  by (simp add: record_line_def drop_CR_plain)

lemma read_lines_record: "list_all record_line ls \<Longrightarrow> read_lines parse ls s = (True, fold parse ls s)"
proof (induction ls arbitrary: s)
  case Nil
  then show ?case by simp
next
  case (Cons l ls)
  then have l: "record_line l" by simp
  then have "\<not> max_token \<le> length l" and "l \<noteq> []" and "\<not> HasPrefix l ''#''"
    by (auto simp: record_line_def HasPrefix_iff)
  with Cons record_line_trim [OF l] show ?case by (simp add: Let_def)
qed

lemma Join_eq_Nil: "[] \<notin> set ls \<Longrightarrow> Join sep ls = [] \<longleftrightarrow> ls = []"
  by (induction sep ls rule: Join.induct) auto

lemma Split_snoc: "Split c (s @ [c]) = Split c s @ [[]]"
  by (induction s) (auto split: list.splits)

lemma scan_record_body:
  assumes "list_all record_line ls"
  shows "scan_lines (record_body ls) = ls"
proof (cases "ls = []")
  case True
  then show ?thesis by (simp add: scan_lines_def record_body_def)
next
  case False
  from assms have "[] \<notin> set ls" and "\<And>l. l \<in> set ls \<Longrightarrow> newline \<notin> set l"
    by (auto simp: record_line_def list_all_iff)
  with False show ?thesis
    by (simp add: scan_lines_def record_body_def Join_eq_Nil Split_snoc Split_Join)
qed

lemma ReadRecord_WriteRecord:
  "list_all record_line ls \<Longrightarrow>
     ReadRecord (snd (WriteRecord True ls file)) parse s = (True, fold parse ls s)"
  by (simp add: WriteRecord_def scan_record_body read_lines_record)

text \<open>An invariant of the state holds after a read, whatever the file, when every line keeps it.\<close>

lemma read_lines_invariant:
  "(\<And>l s. I s \<Longrightarrow> I (parse l s)) \<Longrightarrow> I s \<Longrightarrow> I (snd (read_lines parse ls s))"
  by (induction ls arbitrary: s) (auto simp: Let_def)

lemma ReadRecord_invariant:
  assumes "\<And>l s. I s \<Longrightarrow> I (parse l s)" and "I s"
  shows "I (snd (ReadRecord file parse s))"
  using assms by (cases "file") (auto intro: read_lines_invariant)

locale line_record =
  fixes render :: "'e \<Rightarrow> string"
    and parse_line :: "string \<Rightarrow> 'e option"
    and ok :: "'e \<Rightarrow> bool"
  assumes render_line: "ok e \<Longrightarrow> record_line (render e)"
    and parse_render: "ok e \<Longrightarrow> parse_line (render e) = Some e"
begin

lemma render_inj: "ok e \<Longrightarrow> ok e' \<Longrightarrow> render e = render e' \<Longrightarrow> e = e'"
  by (metis option.inject parse_render)

lemma fold_parse_render:
  "list_all ok es \<Longrightarrow>
     fold (\<lambda>l s. case parse_line l of None \<Rightarrow> s | Some e \<Rightarrow> f e s) (map render es) s = fold f es s"
  by (induction es arbitrary: s) (auto simp: parse_render)

lemma read_back:
  assumes "list_all ok es"
  shows "ReadRecord (snd (WriteRecord True (map render es) file))
      (\<lambda>l s. case parse_line l of None \<Rightarrow> s | Some e \<Rightarrow> f e s) s = (True, fold f es s)"
proof -
  from assms have "list_all record_line (map render es)"
    by (auto simp: list_all_iff intro: render_line)
  then show ?thesis
    by (simp only: ReadRecord_WriteRecord fold_parse_render [OF assms, of f s])
qed

text \<open>The writers sort the lines, so the entries come back in some order.\<close>

lemma sort_render:
  assumes "list_all ok es"
  obtains es' where "mset es' = mset es" and "sort (map render es) = map render es'"
proof -
  let ?entry_of = "\<lambda>l. the (parse_line l)"
  let ?es' = "map ?entry_of (sort (map render es))"
  have "image_mset (\<lambda>e. ?entry_of (render e)) (mset es) = image_mset (\<lambda>e. e) (mset es)"
    using assms by (intro image_mset_cong) (auto simp: list_all_iff parse_render)
  then have es': "mset ?es' = mset es"
    by (simp add: image_mset.compositionality comp_def)
  have "map render ?es' = sort (map render es)"
    unfolding map_map
  proof (rule map_idI)
    fix l
    assume "l \<in> set (sort (map render es))"
    then obtain e where "e \<in> set es" and "l = render e" by auto
    with assms show "(render \<circ> ?entry_of) l = l" by (auto simp: list_all_iff parse_render)
  qed
  with es' that show ?thesis by metis
qed

lemma read_back_sorted:
  assumes "list_all ok es" and "mset es' = mset es" and "sort (map render es) = map render es'"
  shows "ReadRecord (snd (WriteRecord True (sort (map render es)) file))
      (\<lambda>l s. case parse_line l of None \<Rightarrow> s | Some e \<Rightarrow> f e s) s = (True, fold f es' s)"
proof -
  from assms(1,2) have "list_all ok es'"
    by (metis list_all_iff set_mset_mset)
  then show ?thesis
    unfolding assms(3) by (rule read_back)
qed

end

end
