(* ===== verification/Port_Assignments.thy ===== *)
theory Port_Assignments
  imports State_Records
begin

text \<open>
  Which reverse-tunnel port serves which machine of which account.

  \<^item> \<open>core/workspace/mapping.go\<close>: the arithmetic between a uid and its derived port
    (\<open>Validate\<close>, \<open>PortForUID\<close>, \<open>UIDForPort\<close>).
  \<^item> \<open>core-agent/accounts/ports.go\<close>: the assignments (\<open>Ports\<close>), one definition per method. A
    method that takes the lock is one atomic step on the state; \<open>For\<close> and \<open>ForRun\<close> are composed of
    such steps with the lock released in between, and \<open>ports_run\<close> is any interleaving of the steps
    of any number of sessions. What \<open>Preferred\<close> (a question put to Docker) and \<open>Reserved\<close> (the
    account listing) answer is a parameter.

  The lemmas show that no two machines ever share a port, under every interleaving and with a
  stale hint from \<open>Preferred\<close>; that a port handed out is in range, free and not another
  account's derived port; that \<open>Owns\<close> agrees with what was handed out; that a token frees only the
  assignment it was given for; and that a restart reads back every machine's port. The locale
  \<open>run_ports\<close> is what the registry of ephemeral runs relies on (the interface \<open>Ports\<close> of
  \<open>agent/internal/ephemeral/registry.go\<close>), interpreted here.
\<close>

section \<open>The mapping between uids and ports\<close>

definition MaxPort :: int where
  "MaxPort = 65535"

record port_mapping =
  UIDBase :: int
  PortBase :: int

definition DefaultMapping :: port_mapping where
  "DefaultMapping = \<lparr>UIDBase = 10000, PortBase = 30000\<rparr>"

datatype map_error =
  NegativeUIDBase int
| InvalidPortBase int
| UIDBelowBase int int
| PortAboveMax int int
| PortOutsideRange int

definition Validate :: "port_mapping \<Rightarrow> map_error option" where
  "Validate m =
     (if UIDBase m < 0 then Some (NegativeUIDBase (UIDBase m))
      else if PortBase m < 1 \<or> PortBase m > MaxPort then Some (InvalidPortBase (PortBase m))
      else None)"

definition PortForUID :: "port_mapping \<Rightarrow> int \<Rightarrow> map_error + int" where
  "PortForUID m uid =
     (case Validate m of
        Some e \<Rightarrow> Inl e
      | None \<Rightarrow>
          if uid < UIDBase m then Inl (UIDBelowBase uid (UIDBase m))
          else let port = int64 (int64 (PortBase m + uid) - UIDBase m)
               in if port > MaxPort then Inl (PortAboveMax uid port) else Inr port)"

definition UIDForPort :: "port_mapping \<Rightarrow> int \<Rightarrow> map_error + int" where
  "UIDForPort m port =
     (case Validate m of
        Some e \<Rightarrow> Inl e
      | None \<Rightarrow>
          if port < PortBase m \<or> port > MaxPort then Inl (PortOutsideRange port)
          else Inr (int64 (int64 (UIDBase m + port) - PortBase m)))"

section \<open>The assignments\<close>

type_synonym assignment = "string \<times> string"

record entry =
  e_port :: int
  e_ephemeral :: bool
  e_token :: nat

record ports_conf =
  conf_mapping :: port_mapping
  Reserved :: "(int \<Rightarrow> bool) option"
  Preferred :: "(string \<Rightarrow> string \<Rightarrow> string + int) option"

text \<open>The state: the fields under the mutex, the record on disk, and whether the disk takes a
  write.\<close>

record Ports =
  loaded :: bool
  assigned :: "(assignment, entry) gomap"
  next_token :: nat
  clientports :: file_state
  disk_ok :: bool

datatype ports_error =
  MappingRefused map_error
| RecordUnreadable
| CannotTellPort string
| NoFreePort string
| RecordUnwritable

definition new_Ports :: "file_state \<Rightarrow> bool \<Rightarrow> Ports" where
  "new_Ports f ok =
     \<lparr>loaded = False, assigned = [], next_token = 0, clientports = f, disk_ok = ok\<rparr>"

subsection \<open>The record\<close>

definition parse_port_line :: "string \<Rightarrow> (assignment \<times> int) option" where
  "parse_port_line line =
     (case Split CHR '':'' line of
        [account, client, number] \<Rightarrow>
          (case Atoi number of
             Some port \<Rightarrow> if port < 1 \<or> port > MaxPort then None else Some ((account, client), port)
           | None \<Rightarrow> None)
      | _ \<Rightarrow> None)"

definition read_assigned :: "file_state \<Rightarrow> bool \<times> (assignment, entry) gomap" where
  "read_assigned f =
     ReadRecord f
       (\<lambda>line m. case parse_port_line line of
            None \<Rightarrow> m
          | Some e \<Rightarrow> (\<lambda>(key, port). mput key \<lparr>e_port = port, e_ephemeral = False, e_token = 0\<rparr>) e m)
       []"

definition load :: "Ports \<Rightarrow> ports_error option \<times> Ports" where
  "load p =
     (if loaded p then (None, p)
      else (case read_assigned (clientports p) of
              (True, m) \<Rightarrow> (None, p\<lparr>assigned := m, loaded := True\<rparr>)
            | (False, m) \<Rightarrow> (Some RecordUnreadable, p\<lparr>assigned := m\<rparr>)))"

definition render_port_line :: "assignment \<times> int \<Rightarrow> string" where
  "render_port_line = (\<lambda>((account, client), port). account @ '':'' @ client @ '':'' @ Itoa port)"

definition record_lines :: "(assignment, entry) gomap \<Rightarrow> string list" where
  "record_lines m =
     sort (map (\<lambda>(k, e). render_port_line (k, e_port e)) (filter (\<lambda>(k, e). \<not> e_ephemeral e) m))"

definition save :: "Ports \<Rightarrow> ports_error option \<times> Ports" where
  "save p =
     (case WriteRecord (disk_ok p) (record_lines (assigned p)) (clientports p) of
        (True, f) \<Rightarrow> (None, p\<lparr>clientports := f\<rparr>)
      | (False, f) \<Rightarrow> (Some RecordUnwritable, p\<lparr>clientports := f\<rparr>))"

subsection \<open>Choosing a port\<close>

definition memoReserved :: "ports_conf \<Rightarrow> int \<Rightarrow> bool" where
  "memoReserved conf = (case Reserved conf of None \<Rightarrow> (\<lambda>_. False) | Some f \<Rightarrow> f)"

definition port_free :: "port_mapping \<Rightarrow> int \<Rightarrow> (int \<Rightarrow> bool) \<Rightarrow> bool" where
  "port_free m port reserved =
     (if port < PortBase m \<or> port > MaxPort then False
      else (case UIDForPort m port of Inl _ \<Rightarrow> True | Inr uid \<Rightarrow> \<not> reserved uid))"

function allocate_from :: "port_mapping \<Rightarrow> int list \<Rightarrow> (int \<Rightarrow> bool) \<Rightarrow> int \<Rightarrow> int" where
  "allocate_from m taken reserved port =
     (if port < PortBase m then 0
      else if port \<in> set taken then allocate_from m taken reserved (port - 1)
      else (case UIDForPort m port of
              Inl _ \<Rightarrow> port
            | Inr uid \<Rightarrow>
                if reserved uid then allocate_from m taken reserved (port - 1) else port))"
  by pat_completeness auto
termination
  by (relation "measure (\<lambda>(m, taken, reserved, port). nat (port - PortBase m + 1))") auto

declare allocate_from.simps [simp del]

definition allocate :: "port_mapping \<Rightarrow> int list \<Rightarrow> (int \<Rightarrow> bool) \<Rightarrow> int" where
  "allocate m taken reserved = allocate_from m taken reserved MaxPort"

definition assign :: "Ports \<Rightarrow> assignment \<Rightarrow> int \<Rightarrow> bool \<Rightarrow> entry \<times> Ports" where
  "assign p key port ephemeral =
     (let n = (next_token p + 1) mod 2 ^ 64;
          e = \<lparr>e_port = port, e_ephemeral = ephemeral, e_token = n\<rparr>
      in (e, p\<lparr>next_token := n, assigned := mput key e (assigned p)\<rparr>))"

definition taken_ports :: "Ports \<Rightarrow> int list" where
  "taken_ports p = map (\<lambda>(k, e). e_port e) (assigned p)"

definition choose_port :: "port_mapping \<Rightarrow> (int \<Rightarrow> bool) \<Rightarrow> int list \<Rightarrow> int \<Rightarrow> int \<Rightarrow> bool \<Rightarrow> int" where
  "choose_port m reserved taken base want ephemeral =
     (let port = (if want \<noteq> 0 \<and> want \<notin> set taken \<and> port_free m want reserved then want else 0);
          port = (if port = 0 \<and> \<not> ephemeral \<and> base \<notin> set taken then base else port)
      in if port = 0 then allocate m taken reserved else port)"

definition decide_port ::
  "ports_conf \<Rightarrow> Ports \<Rightarrow> assignment \<Rightarrow> int \<Rightarrow> int \<Rightarrow> bool \<Rightarrow> (ports_error + entry) \<times> Ports" where
  "decide_port conf p0 key base want ephemeral =
     (case load p0 of
        (Some e, p) \<Rightarrow> (Inl e, p)
      | (None, p) \<Rightarrow>
          (case mget (assigned p) key of
             Some e \<Rightarrow> (Inr e, p)
           | None \<Rightarrow>
               let port = choose_port (conf_mapping conf) (memoReserved conf) (taken_ports p)
                            base want ephemeral
               in if port = 0 then (Inl (NoFreePort (fst key)), p)
                  else let (e, p1) = assign p key port ephemeral
                       in (Inr e, if ephemeral then p1 else snd (save p1))))"

subsection \<open>The methods\<close>

definition entry_of :: "Ports \<Rightarrow> assignment \<Rightarrow> (ports_error + entry option) \<times> Ports" where
  "entry_of p0 key =
     (case load p0 of
        (Some e, p) \<Rightarrow> (Inl e, p)
      | (None, p) \<Rightarrow> (Inr (mget (assigned p) key), p))"

definition preferred :: "ports_conf \<Rightarrow> string \<Rightarrow> string \<Rightarrow> ports_error + int" where
  "preferred conf account client =
     (case Preferred conf of
        None \<Rightarrow> Inr 0
      | Some ask \<Rightarrow>
          (case ask account client of Inl _ \<Rightarrow> Inl (CannotTellPort account) | Inr want \<Rightarrow> Inr want))"

definition For :: "ports_conf \<Rightarrow> Ports \<Rightarrow> string \<Rightarrow> int \<Rightarrow> string \<Rightarrow> (ports_error + int) \<times> Ports" where
  "For conf p0 account uid client =
     (case PortForUID (conf_mapping conf) uid of
        Inl e \<Rightarrow> (Inl (MappingRefused e), p0)
      | Inr base \<Rightarrow>
          if client = [] then (Inr base, p0)
          else (case entry_of p0 (account, client) of
                  (Inl e, p) \<Rightarrow> (Inl e, p)
                | (Inr (Some e), p) \<Rightarrow> (Inr (e_port e), p)
                | (Inr None, p) \<Rightarrow>
                    (case preferred conf account client of
                       Inl e \<Rightarrow> (Inl e, p)
                     | Inr want \<Rightarrow>
                         (case decide_port conf p (account, client) base want False of
                            (Inl e, p') \<Rightarrow> (Inl e, p')
                          | (Inr e, p') \<Rightarrow> (Inr (e_port e), p')))))"

definition ForRun :: "ports_conf \<Rightarrow> Ports \<Rightarrow> string \<Rightarrow> string \<Rightarrow> (ports_error + int \<times> nat) \<times> Ports" where
  "ForRun conf p0 account client =
     (case entry_of p0 (account, client) of
        (Inl e, p) \<Rightarrow> (Inl e, p)
      | (Inr (Some e), p) \<Rightarrow> (Inr (e_port e, e_token e), p)
      | (Inr None, p) \<Rightarrow>
          (case preferred conf account client of
             Inl e \<Rightarrow> (Inl e, p)
           | Inr want \<Rightarrow>
               (case decide_port conf p (account, client) 0 want True of
                  (Inl e, p') \<Rightarrow> (Inl e, p')
                | (Inr e, p') \<Rightarrow> (Inr (e_port e, e_token e), p'))))"

definition Hold :: "ports_conf \<Rightarrow> Ports \<Rightarrow> string \<Rightarrow> string \<Rightarrow> int \<Rightarrow> nat option \<times> Ports" where
  "Hold conf p0 account client port =
     (case load p0 of
        (Some _, p) \<Rightarrow> (None, p)
      | (None, p) \<Rightarrow>
          (case mget (assigned p) (account, client) of
             Some e \<Rightarrow>
               (if e_ephemeral e \<and> e_port e = port then Some (e_token e) else None, p)
           | None \<Rightarrow>
               if port \<in> set (taken_ports p) then (None, p)
               else if \<not> port_free (conf_mapping conf) port (memoReserved conf) then (None, p)
               else let (e, p') = assign p (account, client) port True
                    in (Some (e_token e), p')))"

definition Free :: "Ports \<Rightarrow> string \<Rightarrow> string \<Rightarrow> nat \<Rightarrow> bool \<times> Ports" where
  "Free p account client token =
     (case mget (assigned p) (account, client) of
        Some e \<Rightarrow>
          if e_ephemeral e \<and> token \<noteq> 0 \<and> e_token e = token
          then (True, p\<lparr>assigned := mdel (account, client) (assigned p)\<rparr>)
          else (False, p)
      | None \<Rightarrow> (False, p))"

definition Forget :: "Ports \<Rightarrow> string \<Rightarrow> ports_error option \<times> Ports" where
  "Forget p0 account =
     (case load p0 of
        (Some e, p) \<Rightarrow> (Some e, p)
      | (None, p) \<Rightarrow>
          let gone = (\<lambda>k e. fst k = account \<and> \<not> e_ephemeral e)
          in if list_ex (\<lambda>(k, e). gone k e) (assigned p)
             then save (p\<lparr>assigned := mdel_if gone (assigned p)\<rparr>)
             else (None, p))"

definition Lookup :: "Ports \<Rightarrow> string \<Rightarrow> string \<Rightarrow> (ports_error + int option) \<times> Ports" where
  "Lookup p0 account client =
     (case entry_of p0 (account, client) of
        (Inl e, p) \<Rightarrow> (Inl e, p)
      | (Inr e, p) \<Rightarrow> (Inr (map_option e_port e), p))"

definition Owns :: "ports_conf \<Rightarrow> Ports \<Rightarrow> string \<Rightarrow> int \<Rightarrow> int \<Rightarrow> bool \<times> Ports" where
  "Owns conf p0 account uid port =
     (case load p0 of
        (Some _, p) \<Rightarrow> (False, p)
      | (None, p) \<Rightarrow>
          (case find (\<lambda>(k, e). e_port e = port) (assigned p) of
             Some (k, e) \<Rightarrow> (fst k = account, p)
           | None \<Rightarrow>
               (case PortForUID (conf_mapping conf) uid of
                  Inl _ \<Rightarrow> (False, p)
                | Inr base \<Rightarrow> (port = base, p))))"

section \<open>The mapping is a bijection\<close>

lemma Validate_None:
  "Validate m = None \<longleftrightarrow> 0 \<le> UIDBase m \<and> 1 \<le> PortBase m \<and> PortBase m \<le> MaxPort"
  by (auto simp: Validate_def)

lemma PortForUID_eq:
  assumes "Validate m = None" and "uid < 2 ^ 32"
  shows "PortForUID m uid =
     (if uid < UIDBase m then Inl (UIDBelowBase uid (UIDBase m))
      else let port = PortBase m + uid - UIDBase m
           in if port > MaxPort then Inl (PortAboveMax uid port) else Inr port)"
proof (cases "uid < UIDBase m")
  case True
  with assms show ?thesis by (simp add: PortForUID_def)
next
  case False
  with assms have "in_int64 (PortBase m + uid - UIDBase m)"
    by (auto simp: in_int64_def Validate_None MaxPort_def)
  with assms False show ?thesis by (simp add: PortForUID_def int64_diff_left)
qed

lemma UIDForPort_eq:
  assumes "Validate m = None" and "UIDBase m < 2 ^ 32"
  shows "UIDForPort m port =
     (if port < PortBase m \<or> port > MaxPort then Inl (PortOutsideRange port)
      else Inr (UIDBase m + port - PortBase m))"
proof (cases "port < PortBase m \<or> port > MaxPort")
  case True
  with assms show ?thesis by (simp add: UIDForPort_def)
next
  case False
  with assms have "in_int64 (UIDBase m + port - PortBase m)"
    by (auto simp: in_int64_def Validate_None MaxPort_def)
  with assms False show ?thesis by (simp add: UIDForPort_def int64_diff_left)
qed

lemma PortForUID_range:
  "PortForUID m uid = Inr port \<Longrightarrow> uid < 2 ^ 32 \<Longrightarrow> PortBase m \<le> port \<and> port \<le> MaxPort"
proof -
  assume *: "PortForUID m uid = Inr port" "uid < 2 ^ 32"
  then have "Validate m = None" by (auto simp: PortForUID_def split: option.splits)
  with * show ?thesis by (auto simp: PortForUID_eq Let_def split: if_splits)
qed

section \<open>Distinct ports\<close>

text \<open>The map an operation works on: the one in memory, or what the first load will read.\<close>

definition effective :: "Ports \<Rightarrow> (assignment, entry) gomap" where
  "effective p = (if loaded p then assigned p else snd (read_assigned (clientports p)))"

definition distinct_ports :: "(assignment, entry) gomap \<Rightarrow> bool" where
  "distinct_ports m \<longleftrightarrow> wfm m \<and> distinct (map (\<lambda>(k, e). e_port e) m) \<and> (\<forall>(k, e) \<in> set m. e_port e \<noteq> 0)"

text \<open>The invariant of the state: no two assignments share a port, and before a load nothing in
  memory is a run's.\<close>

definition ports_inv :: "Ports \<Rightarrow> bool" where
  "ports_inv p \<longleftrightarrow> distinct_ports (effective p) \<and> distinct_ports (assigned p) \<and>
     (\<not> loaded p \<longrightarrow> (\<forall>(k, e) \<in> set (assigned p). \<not> e_ephemeral e))"

lemma distinct_ports_filter: "distinct_ports m \<Longrightarrow> distinct_ports (filter P m)"
  by (auto simp: distinct_ports_def distinct_map_filter)

lemma distinct_ports_mdel: "distinct_ports m \<Longrightarrow> distinct_ports (mdel k m)"
  by (simp add: AList.delete_eq distinct_ports_filter)

lemma distinct_ports_mdel_if: "distinct_ports m \<Longrightarrow> distinct_ports (mdel_if f m)"
  by (simp add: mdel_if_def distinct_ports_filter)

lemma distinct_ports_mput:
  assumes "distinct_ports m" and "mget m k = None"
    and "e_port e \<noteq> 0" and "e_port e \<notin> (\<lambda>(k, e). e_port e) ` set m"
  shows "distinct_ports (mput k e m)"
  using assms by (auto simp: distinct_ports_def mput_fresh wfm_def mget_None_iff)

lemma distinct_ports_inj:
  assumes "distinct_ports m" and "mget m k = Some e" and "mget m k' = Some e'" and "e_port e = e_port e'"
  shows "k = k'"
proof -
  from assms(2,3) have "(k, e) \<in> set m" and "(k', e') \<in> set m"
    by (simp_all add: map_of_SomeD)
  moreover from assms(1) have "inj_on (\<lambda>(k, e). e_port e) (set m)"
    by (simp add: distinct_ports_def distinct_map)
  ultimately have "(k, e) = (k', e')"
    using assms(4) by (metis (mono_tags, lifting) case_prod_conv inj_onD)
  then show ?thesis by simp
qed

text \<open>What the record holds is machines only, whatever the file.\<close>

lemma read_assigned_machines:
  "(k, e) \<in> set (snd (read_assigned f)) \<Longrightarrow> \<not> e_ephemeral e \<and> e_token e = 0 \<and> e_port e \<noteq> 0"
proof -
  let ?I = "\<lambda>m. \<forall>(k, e) \<in> set m. \<not> e_ephemeral e \<and> e_token e = 0 \<and> e_port e \<noteq> 0"
  have "?I (snd (read_assigned f))"
    unfolding read_assigned_def
  proof (rule ReadRecord_invariant)
    fix line :: string and m :: "(assignment, entry) gomap"
    assume "?I m"
    then show "?I (case parse_port_line line of None \<Rightarrow> m
        | Some e \<Rightarrow> (\<lambda>(key, port). mput key \<lparr>e_port = port, e_ephemeral = False, e_token = 0\<rparr>) e m)"
      by (auto simp: parse_port_line_def split: option.splits list.splits if_splits
          dest!: mput_mem)
  qed simp
  then show "(k, e) \<in> set (snd (read_assigned f)) \<Longrightarrow> \<not> e_ephemeral e \<and> e_token e = 0 \<and> e_port e \<noteq> 0"
    by blast
qed

lemma load_cases:
  obtains (fails) p' where "load p = (Some RecordUnreadable, p')" and "\<not> loaded p'"
      and "p' = p\<lparr>assigned := effective p\<rparr>" and "effective p' = effective p"
  | (reads) p' where "load p = (None, p')" and "loaded p'"
      and "p' = p\<lparr>assigned := effective p, loaded := True\<rparr>" and "effective p' = effective p"
proof (cases "loaded p")
  case True
  then have "load p = (None, p)" by (simp add: load_def)
  moreover have "p = p\<lparr>assigned := effective p, loaded := True\<rparr>"
    using True by (cases p) (simp add: effective_def)
  ultimately show ?thesis using True that(2) by blast
next
  case False
  obtain ok m where m: "read_assigned (clientports p) = (ok, m)"
    by (cases "read_assigned (clientports p)")
  with False show ?thesis
    using that by (cases ok) (auto simp: load_def effective_def)
qed

lemma ports_inv_loaded: "loaded p \<Longrightarrow> ports_inv p \<longleftrightarrow> distinct_ports (assigned p)"
  by (auto simp: ports_inv_def effective_def)

lemma load_inv: "ports_inv p \<Longrightarrow> ports_inv (snd (load p))"
proof (cases p rule: load_cases)
  case (fails p')
  assume inv: "ports_inv p"
  from fails have "\<forall>(k, e) \<in> set (effective p). \<not> e_ephemeral e"
    using read_assigned_machines by (force simp: effective_def)
  with fails inv show ?thesis by (simp add: ports_inv_def)
next
  case (reads p')
  assume "ports_inv p"
  with reads show ?thesis by (simp add: ports_inv_loaded ports_inv_def)
qed

lemma save_frame [simp]:
  "assigned (snd (save p)) = assigned p" "loaded (snd (save p)) = loaded p"
  "next_token (snd (save p)) = next_token p"
  by (auto simp: save_def split: prod.splits bool.splits)

lemma allocate_from_spec:
  "allocate_from m taken reserved port = q \<Longrightarrow> port \<le> MaxPort \<Longrightarrow> q \<noteq> 0 \<Longrightarrow>
     q \<notin> set taken \<and> port_free m q reserved"
proof (induction m taken reserved port rule: allocate_from.induct)
  case (1 m taken reserved port)
  then show ?case
    by (subst (asm) (3) allocate_from.simps) (auto simp: port_free_def split: if_splits sum.splits)
qed

lemma allocate_from_exhausted:
  "allocate_from m taken reserved port = 0 \<Longrightarrow> 1 \<le> PortBase m \<Longrightarrow> port \<le> MaxPort \<Longrightarrow>
     PortBase m \<le> q \<Longrightarrow> q \<le> port \<Longrightarrow> q \<in> set taken \<or> \<not> port_free m q reserved"
proof (induction m taken reserved port rule: allocate_from.induct)
  case (1 m taken reserved port)
  from "1.prems"(4,5) have "\<not> port < PortBase m" by simp
  with "1.prems" have *: "q = port \<or> q \<le> port - 1" by linarith
  show ?case
  proof (cases "port \<in> set taken")
    case True
    with "1.prems"(1) \<open>\<not> port < PortBase m\<close>
    have "allocate_from m taken reserved (port - 1) = 0"
      by (subst (asm) allocate_from.simps) simp
    with "1.IH"(1) "1.prems" * True \<open>\<not> port < PortBase m\<close> show ?thesis by auto
  next
    case False
    with "1.prems"(1,2) \<open>\<not> port < PortBase m\<close> obtain uid
      where uid: "UIDForPort m port = Inr uid" "reserved uid"
        and "allocate_from m taken reserved (port - 1) = 0"
      by (subst (asm) (1) allocate_from.simps) (auto split: sum.splits if_splits)
    with "1.IH"(2) "1.prems" * False \<open>\<not> port < PortBase m\<close> show ?thesis
      by (auto simp: port_free_def)
  qed
qed

lemma choose_port_spec:
  assumes "choose_port m reserved taken base want ephemeral = q" and "q \<noteq> 0"
  shows "q \<notin> set taken \<and> (q = base \<and> \<not> ephemeral \<or> port_free m q reserved)"
  using assms allocate_from_spec [of m taken reserved MaxPort q]
  by (auto simp: choose_port_def Let_def allocate_def split: if_splits)

lemma choose_port_exhausted:
  assumes "choose_port m reserved taken base want ephemeral = 0" and "1 \<le> PortBase m"
    and "PortBase m \<le> q" and "q \<le> MaxPort"
  shows "q \<in> set taken \<or> \<not> port_free m q reserved"
  using assms allocate_from_exhausted [of m taken reserved MaxPort q]
  by (auto simp: choose_port_def Let_def allocate_def split: if_splits)

text \<open>What a decision does to the assignments: it refuses, returns what is on record, or adds one
  entry whose port was free.\<close>

lemma decide_port_cases:
  assumes "decide_port conf p0 key base want ephemeral = (r, p')"
  obtains (refused) err where "r = Inl err" and "p' = snd (load p0)"
  | (known) e where "r = Inr e" and "mget (effective p0) key = Some e" and "p' = snd (load p0)"
      and "loaded p'"
  | (fresh) e p1 where "r = Inr e" and "mget (effective p0) key = None"
      and "e_port e = choose_port (conf_mapping conf) (memoReserved conf)
             (map (\<lambda>(k, e). e_port e) (effective p0)) base want ephemeral"
      and "e_port e \<noteq> 0" and "e_ephemeral e = ephemeral"
      and "e_token e = (next_token p0 + 1) mod 2 ^ 64"
      and "p1 = p0\<lparr>loaded := True, next_token := e_token e, assigned := mput key e (effective p0)\<rparr>"
      and "p' = (if ephemeral then p1 else snd (save p1))" and "loaded p'"
      and "effective p' = mput key e (effective p0)"
proof (cases p0 rule: load_cases)
  case (fails p)
  with assms refused show ?thesis by (auto simp: decide_port_def)
next
  case (reads p)
  show ?thesis
  proof (cases "mget (effective p0) key")
    case (Some e)
    with reads assms known show ?thesis by (auto simp: decide_port_def)
  next
    case None
    let ?q = "choose_port (conf_mapping conf) (memoReserved conf)
       (map (\<lambda>(k, e). e_port e) (effective p0)) base want ephemeral"
    let ?e = "\<lparr>e_port = ?q, e_ephemeral = ephemeral, e_token = (next_token p0 + 1) mod 2 ^ 64\<rparr>"
    show ?thesis
    proof (cases "?q = 0")
      case True
      with None reads assms refused show ?thesis
        by (auto simp: decide_port_def taken_ports_def Let_def)
    next
      case False
      with None reads assms have "r = Inr ?e"
        and "p' = (let p1 = p0\<lparr>loaded := True, next_token := e_token ?e,
               assigned := mput key ?e (effective p0)\<rparr> in if ephemeral then p1 else snd (save p1))"
        by (auto simp: decide_port_def taken_ports_def Let_def assign_def)
      with False None fresh [of ?e] show ?thesis
        by (auto simp: Let_def effective_def)
    qed
  qed
qed

section \<open>Every step keeps the ports distinct\<close>

lemma decide_port_inv:
  assumes "ports_inv p0" and "decide_port conf p0 key base want ephemeral = (r, p')"
  shows "ports_inv p'"
  using assms(2)
proof (cases rule: decide_port_cases)
  case (refused err)
  then show ?thesis using load_inv [OF assms(1)] by simp
next
  case (known e)
  then show ?thesis using load_inv [OF assms(1)] by simp
next
  case (fresh e p1)
  then have "e_port e \<notin> (\<lambda>(k, e). e_port e) ` set (effective p0)"
    using choose_port_spec by (metis list.set_map)
  with fresh assms(1) have "distinct_ports (effective p')"
    by (simp add: ports_inv_def distinct_ports_mput)
  with fresh show ?thesis by (simp add: ports_inv_def effective_def)
qed

lemma entry_of_snd: "snd (entry_of p key) = snd (load p)"
  by (simp add: entry_of_def split: prod.splits option.splits)

lemma Owns_snd: "snd (Owns conf p account uid port) = snd (load p)"
  by (simp add: Owns_def split: prod.splits option.splits sum.splits)

text \<open>\<open>Hold\<close> refuses, confirms what the run has, or adds an entry on a free port.\<close>

lemma Hold_cases:
  assumes "Hold conf p0 account client port = (r, p')"
  obtains (refused) "r = None" and "p' = snd (load p0)"
  | (known) e where "r = Some (e_token e)" and "mget (effective p0) (account, client) = Some e"
      and "e_ephemeral e" and "e_port e = port" and "p' = snd (load p0)"
  | (fresh) e where "r = Some (e_token e)" and "mget (effective p0) (account, client) = None"
      and "e_port e = port" and "e_ephemeral e"
      and "port \<notin> (\<lambda>(k, e). e_port e) ` set (effective p0)"
      and "port_free (conf_mapping conf) port (memoReserved conf)"
      and "loaded p'" and "effective p' = mput (account, client) e (effective p0)"
      and "clientports p' = clientports p0" and "disk_ok p' = disk_ok p0"
proof (cases p0 rule: load_cases)
  case (fails p)
  with assms refused show ?thesis by (auto simp: Hold_def)
next
  case (reads p)
  show ?thesis
  proof (cases "mget (effective p0) (account, client)")
    case (Some e)
    with reads assms refused known [of e] show ?thesis
      by (auto simp: Hold_def split: if_splits)
  next
    case None
    let ?e = "\<lparr>e_port = port, e_ephemeral = True, e_token = (next_token p0 + 1) mod 2 ^ 64\<rparr>"
    from None reads assms refused fresh [of ?e] show ?thesis
      by (auto simp: Hold_def taken_ports_def assign_def Let_def effective_def image_iff
          split: if_splits)
  qed
qed

lemma Hold_inv:
  assumes "ports_inv p0" and "Hold conf p0 account client port = (r, p')" and "1 \<le> PortBase (conf_mapping conf)"
  shows "ports_inv p'"
  using assms(2)
proof (cases rule: Hold_cases)
  case refused
  then show ?thesis using load_inv [OF assms(1)] by simp
next
  case (known e)
  then show ?thesis using load_inv [OF assms(1)] by simp
next
  case (fresh e)
  from fresh(6) assms(3) have "port \<noteq> 0"
    by (auto simp: port_free_def split: if_splits)
  with fresh assms(1) have "distinct_ports (effective p')"
    by (auto simp: ports_inv_def intro!: distinct_ports_mput)
  with fresh show ?thesis by (simp add: ports_inv_def effective_def)
qed

lemma Free_cases:
  assumes "Free p account client token = (r, p')"
  obtains (kept) "\<not> r" and "p' = p"
  | (freed) e where "r" and "mget (assigned p) (account, client) = Some e" and "e_ephemeral e"
      and "e_token e = token" and "token \<noteq> 0"
      and "p' = p\<lparr>assigned := mdel (account, client) (assigned p)\<rparr>"
  using assms by (auto simp: Free_def split: option.splits if_splits)

lemma Free_loaded:
  assumes "ports_inv p" and "Free p account client token = (True, p')"
  shows "loaded p"
  using assms(2)
proof (cases rule: Free_cases)
  case (freed e)
  then have "((account, client), e) \<in> set (assigned p)" by (simp add: map_of_SomeD)
  with freed assms(1) show ?thesis by (auto simp: ports_inv_def)
qed simp

lemma Free_inv:
  assumes "ports_inv p" and "Free p account client token = (r, p')"
  shows "ports_inv p'"
  using assms(2)
proof (cases rule: Free_cases)
  case kept
  with assms(1) show ?thesis by simp
next
  case (freed e)
  with assms have "loaded p" by (metis Free_loaded)
  with freed assms(1) show ?thesis by (simp add: ports_inv_loaded distinct_ports_mdel)
qed

lemma Forget_inv:
  assumes "ports_inv p0" and "Forget p0 account = (r, p')"
  shows "ports_inv p'"
proof (cases p0 rule: load_cases)
  case (fails p)
  with assms load_inv [OF assms(1)] show ?thesis by (auto simp: Forget_def)
next
  case (reads p)
  from load_inv [OF assms(1)] reads have p: "distinct_ports (assigned p)" by (simp add: ports_inv_loaded)
  from assms(2) reads have "p' = p \<or>
    p' = snd (save (p\<lparr>assigned := mdel_if (\<lambda>k e. fst k = account \<and> \<not> e_ephemeral e) (assigned p)\<rparr>))"
    by (auto simp: Forget_def Let_def split: if_splits)
  then have "loaded p'" and "distinct_ports (assigned p')"
    using reads p by (auto simp: distinct_ports_mdel_if)
  then show ?thesis by (simp add: ports_inv_loaded)
qed

section \<open>Interleavings\<close>

text \<open>
  The atomic steps of the type: each method that takes the lock, and the disk starting or ceasing
  to take writes. \<open>For\<close> is \<open>EntryOf\<close> then \<open>Decide\<close>, with any steps of other sessions in between and
  a \<open>want\<close> that was asked before them; the configuration of a step is its own, since the account
  listing behind \<open>Reserved\<close> changes.
\<close>

datatype ports_op =
  EntryOf assignment
| Decide assignment int int bool
| HoldPort string string int
| FreePort string string nat
| ForgetAccount string
| OwnsPort string int int
| DiskBecomes bool

fun ports_step :: "ports_conf \<Rightarrow> ports_op \<Rightarrow> Ports \<Rightarrow> Ports" where
  "ports_step conf (EntryOf key) p = snd (entry_of p key)"
| "ports_step conf (Decide key base want ephemeral) p = snd (decide_port conf p key base want ephemeral)"
| "ports_step conf (HoldPort account client port) p = snd (Hold conf p account client port)"
| "ports_step conf (FreePort account client token) p = snd (Free p account client token)"
| "ports_step conf (ForgetAccount account) p = snd (Forget p account)"
| "ports_step conf (OwnsPort account uid port) p = snd (Owns conf p account uid port)"
| "ports_step conf (DiskBecomes ok) p = p\<lparr>disk_ok := ok\<rparr>"

definition valid_conf :: "ports_conf \<Rightarrow> bool" where
  "valid_conf conf \<longleftrightarrow> Validate (conf_mapping conf) = None"

fun ports_run :: "(ports_conf \<times> ports_op) list \<Rightarrow> Ports \<Rightarrow> Ports" where
  "ports_run [] p = p"
| "ports_run ((conf, op) # ops) p = ports_run ops (ports_step conf op p)"

lemma ports_inv_disk_ok [simp]: "ports_inv (p\<lparr>disk_ok := ok\<rparr>) \<longleftrightarrow> ports_inv p"
  by (simp add: ports_inv_def effective_def)

lemma ports_step_inv: "ports_inv p \<Longrightarrow> valid_conf conf \<Longrightarrow> ports_inv (ports_step conf op p)"
  by (cases op)
    (auto simp: entry_of_snd Owns_snd load_inv valid_conf_def Validate_None
      intro: decide_port_inv [OF _ surjective_pairing] Hold_inv [OF _ surjective_pairing]
        Free_inv [OF _ surjective_pairing] Forget_inv [OF _ surjective_pairing])

lemma ports_run_inv:
  "ports_inv p \<Longrightarrow> list_all (\<lambda>(conf, op). valid_conf conf) ops \<Longrightarrow> ports_inv (ports_run ops p)"
  by (induction ops p rule: ports_run.induct) (auto simp: ports_step_inv)

section \<open>Tokens\<close>

text \<open>Entries whose token is at most \<open>n\<close> are the entries of \<open>old\<close>: nothing assigned since carries
  such a token.\<close>

definition old_tokens :: "nat \<Rightarrow> (assignment, entry) gomap \<Rightarrow> Ports \<Rightarrow> bool" where
  "old_tokens n old p \<longleftrightarrow> loaded p \<and> wfm (assigned p) \<and> n \<le> next_token p \<and>
     (\<forall>k e. mget (assigned p) k = Some e \<and> e_token e \<le> n \<longrightarrow> mget old k = Some e)"

lemma loaded_load [simp]: "loaded p \<Longrightarrow> load p = (None, p)"
  by (simp add: load_def)

lemma old_tokens_mput:
  "old_tokens n old p \<Longrightarrow> n < e_token e \<Longrightarrow> e_token e = next_token p' \<Longrightarrow> loaded p' \<Longrightarrow>
     assigned p' = mput k e (assigned p) \<Longrightarrow> old_tokens n old p'"
  by (auto simp: old_tokens_def split: if_splits)

lemma ports_step_old_tokens:
  assumes "old_tokens n old p" and "next_token p + 1 < 2 ^ 64"
  shows "old_tokens n old (ports_step conf op p) \<and> next_token (ports_step conf op p) \<le> next_token p + 1"
proof (cases op)
  case (Decide key base want ephemeral)
  obtain r p' where d: "decide_port conf p key base want ephemeral = (r, p')" by fastforce
  then have "old_tokens n old p' \<and> next_token p' \<le> next_token p + 1"
  proof (cases rule: decide_port_cases)
    case (fresh e p1)
    with assms have "old_tokens n old p'"
      by (intro old_tokens_mput [OF assms(1), of e p' key]) (auto simp: old_tokens_def effective_def)
    with fresh assms show ?thesis by simp
  qed (use assms in \<open>auto simp: old_tokens_def\<close>)
  with d Decide show ?thesis by simp
next
  case (ForgetAccount account)
  then show ?thesis
    using assms by (auto simp: Forget_def old_tokens_def Let_def mget_mdel_if split: option.splits if_splits)
qed (use assms in \<open>auto simp: entry_of_def Hold_def Free_def Owns_def old_tokens_def assign_def Let_def
   split: option.splits sum.splits if_splits prod.splits\<close>)

lemma ports_run_old_tokens:
  "old_tokens n old p \<Longrightarrow> next_token p + length ops < 2 ^ 64 \<Longrightarrow> old_tokens n old (ports_run ops p)"
proof (induction ops p rule: ports_run.induct)
  case (1 p)
  then show ?case by simp
next
  case (2 conf op ops p)
  then have "old_tokens n old (ports_step conf op p)"
    and "next_token (ports_step conf op p) \<le> next_token p + 1"
    using ports_step_old_tokens [of n old p conf op] by auto
  with "2.IH" "2.prems"(2) show ?case by simp
qed

section \<open>What a restart reads back\<close>

text \<open>A name the record's line format carries: printable, without the separator. Account names
  (\<open>AccountName\<close>) and client ids (\<open>ClientID\<close>) are of this kind.\<close>

definition safe_name :: "string \<Rightarrow> bool" where
  "safe_name n \<longleftrightarrow> n \<noteq> [] \<and> list_all (\<lambda>c. plain c \<and> c \<noteq> CHR '':'' \<and> c \<noteq> CHR ''#'') n \<and> length n \<le> 1000"

definition port_line_ok :: "assignment \<times> int \<Rightarrow> bool" where
  "port_line_ok = (\<lambda>((account, client), port).
     safe_name account \<and> safe_name client \<and> 1 \<le> port \<and> port \<le> MaxPort)"

lemma length_nat_digits: "n < 10 ^ d \<Longrightarrow> 0 < d \<Longrightarrow> length (nat_digits n) \<le> d"
proof (induction n arbitrary: d rule: nat_digits.induct)
  case (1 n)
  show ?case
  proof (cases "n < 10")
    case True
    with "1.prems" show ?thesis by (simp add: nat_digits.simps [of n])
  next
    case False
    with "1.prems" obtain d' where d: "d = Suc d'" "0 < d'"
      by (cases d; cases "d - 1") auto
    with "1.prems" have "n div 10 < 10 ^ d'" by (simp add: less_mult_imp_div_less)
    with False d "1.IH" show ?thesis by (simp add: nat_digits.simps [of n])
  qed
qed

lemma Itoa_length: "in_int64 i \<Longrightarrow> length (Itoa i) \<le> 20"
  using length_nat_digits [of "nat (- i)" 19] length_nat_digits [of "nat i" 19]
  by (auto simp: Itoa_def in_int64_def not_less nat_less_iff)

lemma port_line_length: "1 \<le> port \<Longrightarrow> port \<le> MaxPort \<Longrightarrow> length (Itoa port) \<le> 5"
  using length_nat_digits [of "nat port" 5] by (simp add: Itoa_def MaxPort_def)

lemma render_port_line_plain:
  assumes "safe_name account" and "safe_name client"
  shows "list_all plain (render_port_line ((account, client), port))"
  using assms Itoa_plain [of port]
  by (auto simp: render_port_line_def safe_name_def list_all_iff plain_def)

interpretation clientports_lines: line_record render_port_line parse_port_line port_line_ok
proof
  fix e :: "assignment \<times> int"
  assume "port_line_ok e"
  then obtain account client port
    where e: "e = ((account, client), port)" and a: "safe_name account" and c: "safe_name client"
      and p: "1 \<le> port" "port \<le> MaxPort"
    by (cases e) (auto simp: port_line_ok_def)
  from a have hd: "hd (render_port_line e) \<noteq> CHR ''#''"
    by (cases account) (auto simp: e render_port_line_def safe_name_def)
  from a c port_line_length [OF p] have "length (render_port_line e) < max_token"
    by (simp add: e render_port_line_def safe_name_def max_token_def)
  with a c hd show "record_line (render_port_line e)"
    by (intro record_line_plain) (auto simp: e render_port_line_plain, simp add: render_port_line_def)
  from p have "in_int64 port" by (simp add: in_int64_def MaxPort_def)
  moreover from a c have "CHR '':'' \<notin> set account" and "CHR '':'' \<notin> set client"
    by (auto simp: safe_name_def list_all_iff)
  ultimately show "parse_port_line (render_port_line e) = Some e"
    using p by (simp add: e render_port_line_def parse_port_line_def Itoa_no_colon Atoi_Itoa)
qed

definition machine_port :: "(assignment, entry) gomap \<Rightarrow> assignment \<Rightarrow> int option" where
  "machine_port m k =
     (case mget m k of Some e \<Rightarrow> if e_ephemeral e then None else Some (e_port e) | None \<Rightarrow> None)"

definition machines_ok :: "(assignment, entry) gomap \<Rightarrow> bool" where
  "machines_ok m \<longleftrightarrow> (\<forall>k port. machine_port m k = Some port \<longrightarrow> port_line_ok (k, port))"

text \<open>The record is durable: it can be read, and holds exactly the machines' ports.\<close>

definition durable :: "Ports \<Rightarrow> bool" where
  "durable p \<longleftrightarrow> disk_ok p \<and> fst (read_assigned (clientports p)) \<and> machines_ok (effective p) \<and>
     machine_port (snd (read_assigned (clientports p))) = machine_port (effective p)"

lemma mget_map_snd: "mget (map (\<lambda>(k, v). (k, f v)) m) k = map_option f (mget m k)"
  by (induction m) auto

lemma read_record_lines:
  assumes m: "wfm m" and ok: "machines_ok m"
  shows "fst (read_assigned (File (record_body (record_lines m)))) \<and>
    machine_port (snd (read_assigned (File (record_body (record_lines m))))) = machine_port m"
proof -
  define es where "es = map (\<lambda>(k, e). (k, e_port e)) (filter (\<lambda>(k, e). \<not> e_ephemeral e) m)"
  let ?mk = "\<lambda>port. \<lparr>e_port = port, e_ephemeral = False, e_token = 0\<rparr>"
  have wf_es: "wfm es"
    using m by (simp add: es_def wfm_def comp_def case_prod_beta distinct_map_filter)
  have mget_es: "mget es k = machine_port m k" for k
    by (simp add: es_def mget_map_snd mget_filter [OF m] machine_port_def split: option.splits)
  have ok_es: "list_all port_line_ok es"
    using ok mget_es mget_set [OF wf_es] by (auto simp: list_all_iff machines_ok_def)
  then obtain es' where es': "mset es' = mset es"
    and sort: "sort (map render_port_line es) = map render_port_line es'"
    by (rule clientports_lines.sort_render)
  note read = clientports_lines.read_back_sorted [OF ok_es es' sort, of NoFile]
  have lines: "record_lines m = sort (map render_port_line es)"
    by (simp add: record_lines_def es_def comp_def case_prod_unfold)
  have fold: "fold (\<lambda>(key, port). mput key (?mk port)) xs s = fold (\<lambda>(k, v). mput k v) (map (\<lambda>(k, v). (k, ?mk v)) xs) s"
    for xs s by (induction xs arbitrary: s) auto
  have body: "read_assigned (File (record_body (record_lines m))) =
      (True, fold (\<lambda>(k, v). mput k v) (map (\<lambda>(k, v). (k, ?mk v)) es') [])"
    using read [of "\<lambda>(key, port). mput key (?mk port)" "[]"]
    unfolding read_assigned_def lines by (simp add: WriteRecord_def fold)
  have wf_es': "wfm es'"
    using es' wf_es mset_eq_imp_distinct_iff [of "map fst es'" "map fst es"] by (simp add: wfm_def)
  then have "wfm (map (\<lambda>(k, v). (k, ?mk v)) es')"
    by (simp add: wfm_def comp_def case_prod_beta)
  moreover from es' have "set es' = set es" by (metis set_mset_mset)
  then have "mget es' k = mget es k" for k
    by (rule mget_cong_set [OF wf_es' wf_es])
  ultimately have "mget (snd (read_assigned (File (record_body (record_lines m))))) k
      = map_option ?mk (machine_port m k)" for k
    by (simp add: body mget_fold_mput mget_map_snd mget_es split: option.splits)
  then have "machine_port (snd (read_assigned (File (record_body (record_lines m))))) k = machine_port m k"
    for k by (simp add: machine_port_def [of "snd (read_assigned (File (record_body (record_lines m))))"]
        split: option.splits)
  with body show ?thesis by (simp add: fun_eq_iff)
qed

lemma save_durable:
  "loaded p \<Longrightarrow> disk_ok p \<Longrightarrow> wfm (assigned p) \<Longrightarrow> machines_ok (assigned p) \<Longrightarrow> durable (snd (save p))"
  using read_record_lines [of "assigned p"]
  by (auto simp: durable_def save_def WriteRecord_def effective_def)

lemma load_durable: "durable p \<Longrightarrow> durable (snd (load p))"
  by (cases p rule: load_cases) (auto simp: durable_def)

lemma machine_port_mput_run: "e_ephemeral e \<Longrightarrow> mget m k = None \<Longrightarrow> machine_port (mput k e m) = machine_port m"
  by (auto simp: machine_port_def fun_eq_iff)

lemma machine_port_mdel_run: "e_ephemeral e \<Longrightarrow> mget m k = Some e \<Longrightarrow> machine_port (mdel k m) = machine_port m"
  by (auto simp: machine_port_def fun_eq_iff)

fun op_ok :: "ports_op \<Rightarrow> bool" where
  "op_ok (Decide key base want ephemeral) \<longleftrightarrow>
     ephemeral \<or> safe_name (fst key) \<and> safe_name (snd key) \<and> 1 \<le> base \<and> base \<le> MaxPort"
| "op_ok (DiskBecomes ok) \<longleftrightarrow> ok"
| "op_ok _ \<longleftrightarrow> True"

lemma decide_port_durable:
  assumes inv: "ports_inv p" and dur: "durable p" and conf: "valid_conf conf"
    and ok: "op_ok (Decide key base want ephemeral)"
    and step: "decide_port conf p key base want ephemeral = (r, p')"
  shows "durable p'"
  using step
proof (cases rule: decide_port_cases)
  case (fresh e p1)
  show ?thesis
  proof (cases ephemeral)
    case True
    with fresh have "machine_port (mput key e (effective p)) = machine_port (effective p)"
      by (simp add: machine_port_mput_run)
    with True fresh dur show ?thesis by (auto simp: durable_def machines_ok_def effective_def)
  next
    case False
    with fresh choose_port_spec [OF fresh(3) [symmetric] fresh(4)] ok conf
    have "1 \<le> e_port e" and "e_port e \<le> MaxPort"
      by (auto simp: port_free_def valid_conf_def Validate_None split: if_splits)
    with False ok have "port_line_ok (key, e_port e)"
      by (cases key) (simp add: port_line_ok_def)
    with False fresh dur have "machines_ok (mput key e (effective p))"
      by (auto simp: durable_def machines_ok_def machine_port_def split: if_splits)
    with fresh dur inv have "durable (snd (save p1))"
      by (intro save_durable) (simp_all add: durable_def ports_inv_def distinct_ports_def)
    with False fresh show ?thesis by simp
  qed
qed (use load_durable [OF dur] in auto)

lemma Forget_durable:
  assumes "ports_inv p" and "durable p"
  shows "durable (snd (Forget p account))"
proof (cases p rule: load_cases)
  case (fails p')
  with load_durable [OF assms(2)] show ?thesis by (simp add: Forget_def)
next
  case (reads p')
  let ?gone = "\<lambda>k e. fst k = account \<and> \<not> e_ephemeral e"
  from reads assms(1) have wf: "wfm (assigned p')"
    by (simp add: ports_inv_def distinct_ports_def)
  with assms(2) reads have "machines_ok (mdel_if ?gone (assigned p'))"
    by (auto simp: machines_ok_def durable_def machine_port_def mget_mdel_if
        split: option.splits if_splits)
  with reads assms wf have "durable (snd (save (p'\<lparr>assigned := mdel_if ?gone (assigned p')\<rparr>)))"
    by (intro save_durable) (auto simp: durable_def)
  with reads load_durable [OF assms(2)] show ?thesis
    by (auto simp: Forget_def Let_def)
qed

lemma ports_step_durable:
  assumes "ports_inv p" and "durable p" and "valid_conf conf" and "op_ok op"
  shows "durable (ports_step conf op p)"
proof (cases op)
  case (EntryOf key)
  then show ?thesis using assms by (simp add: entry_of_snd load_durable)
next
  case (Decide key base want ephemeral)
  obtain r p' where d: "decide_port conf p key base want ephemeral = (r, p')" by fastforce
  have "durable p'"
    using assms Decide d by (intro decide_port_durable [OF assms(1-3) _ d]) simp
  with d Decide show ?thesis by simp
next
  case (HoldPort account client port)
  obtain r p' where h: "Hold conf p account client port = (r, p')" by fastforce
  then have "durable p'"
  proof (cases rule: Hold_cases)
    case (fresh e)
    then have "machine_port (effective p') = machine_port (effective p)"
      by (simp add: machine_port_mput_run)
    with fresh assms(2) show ?thesis by (auto simp: durable_def machines_ok_def)
  qed (use load_durable [OF assms(2)] in auto)
  with h HoldPort show ?thesis by simp
next
  case (FreePort account client token)
  obtain r p' where f: "Free p account client token = (r, p')" by fastforce
  then have "durable p'"
  proof (cases rule: Free_cases)
    case (freed e)
    with f have "loaded p" using Free_loaded [OF assms(1)] by simp
    with freed assms(2) show ?thesis
      by (auto simp: durable_def machines_ok_def effective_def machine_port_mdel_run)
  qed (use assms in simp)
  with f FreePort show ?thesis by simp
next
  case (ForgetAccount account)
  then show ?thesis using assms by (simp add: Forget_durable)
next
  case (OwnsPort account uid port)
  then show ?thesis using assms by (simp add: Owns_snd load_durable)
next
  case (DiskBecomes ok)
  moreover have "effective (p\<lparr>disk_ok := ok\<rparr>) = effective p"
    by (simp add: effective_def)
  ultimately show ?thesis using assms by (simp add: durable_def)
qed

lemma ports_run_durable:
  "ports_inv p \<Longrightarrow> durable p \<Longrightarrow> list_all (\<lambda>(conf, op). valid_conf conf \<and> op_ok op) ops \<Longrightarrow>
     durable (ports_run ops p)"
  by (induction ops p rule: ports_run.induct) (auto simp: ports_step_inv ports_step_durable)

section \<open>The ports of a run, as the registry of runs sees them\<close>

text \<open>
  What the registry of ephemeral runs relies on: the interface \<open>Ports\<close> it declares. \<open>held\<close> is the
  port and token of a run, \<open>machine\<close> says that a key is one of the account's machines, which a
  run's client id, a digest under its own prefix, is not.
\<close>

locale run_ports =
  fixes for_run :: "'p \<Rightarrow> string \<Rightarrow> string \<Rightarrow> ('e + int \<times> nat) \<times> 'p"
    and hold :: "'p \<Rightarrow> string \<Rightarrow> string \<Rightarrow> int \<Rightarrow> nat option \<times> 'p"
    and free :: "'p \<Rightarrow> string \<Rightarrow> string \<Rightarrow> nat \<Rightarrow> bool \<times> 'p"
    and inv :: "'p \<Rightarrow> bool"
    and held :: "'p \<Rightarrow> assignment \<Rightarrow> (int \<times> nat) option"
    and machine :: "'p \<Rightarrow> assignment \<Rightarrow> bool"
  assumes held_inj: "inv p \<Longrightarrow> held p k = Some (q, t) \<Longrightarrow> held p k' = Some (q, t') \<Longrightarrow> k = k'"
    and held_nonzero: "inv p \<Longrightarrow> held p k = Some (q, t) \<Longrightarrow> q \<noteq> 0"
    and for_run_ok: "inv p \<Longrightarrow> \<not> machine p (a, c) \<Longrightarrow> for_run p a c = (Inr (q, t), p') \<Longrightarrow>
        inv p' \<and> held p' = (held p)((a, c) \<mapsto> (q, t)) \<and> machine p' = machine p"
    and for_run_known: "inv p \<Longrightarrow> held p (a, c) = Some qt \<Longrightarrow> for_run p a c = (Inr qt', p') \<Longrightarrow> qt' = qt"
    and for_run_refused: "inv p \<Longrightarrow> for_run p a c = (Inl e, p') \<Longrightarrow>
        inv p' \<and> held p' = held p \<and> machine p' = machine p"
    and hold_ok: "inv p \<Longrightarrow> hold p a c q = (Some t, p') \<Longrightarrow>
        inv p' \<and> held p' = (held p)((a, c) \<mapsto> (q, t)) \<and> machine p' = machine p"
    and hold_refused: "inv p \<Longrightarrow> hold p a c q = (None, p') \<Longrightarrow>
        inv p' \<and> held p' = held p \<and> machine p' = machine p"
    and free_ok: "inv p \<Longrightarrow> free p a c t = (True, p') \<Longrightarrow>
        inv p' \<and> (\<exists>q. held p (a, c) = Some (q, t)) \<and> held p' = (held p)((a, c) := None) \<and>
        machine p' = machine p"
    and free_refused: "inv p \<Longrightarrow> free p a c t = (False, p') \<Longrightarrow> p' = p \<and>
        \<not> (t \<noteq> 0 \<and> (\<exists>q. held p (a, c) = Some (q, t)))"
begin

lemma held_upd_inj:
  assumes "inv p'" and "held p' = (held p)((a, c) \<mapsto> (q, t))" and "k \<noteq> (a, c)" and "held p k = Some (q', t')"
  shows "q' \<noteq> q"
  using held_inj [OF assms(1), of k q t' "(a, c)" t] assms(2-4) by auto

end

definition run_held :: "Ports \<Rightarrow> assignment \<Rightarrow> (int \<times> nat) option" where
  "run_held p k =
     (case mget (effective p) k of
        Some e \<Rightarrow> if e_ephemeral e then Some (e_port e, e_token e) else None
      | None \<Rightarrow> None)"

definition is_machine :: "Ports \<Rightarrow> assignment \<Rightarrow> bool" where
  "is_machine p k \<longleftrightarrow> (\<exists>e. mget (effective p) k = Some e \<and> \<not> e_ephemeral e)"

lemma effective_load [simp]: "effective (snd (load p)) = effective p"
  by (cases p rule: load_cases) auto

lemma run_held_load [simp]: "run_held (snd (load p)) = run_held p" "is_machine (snd (load p)) = is_machine p"
  by (auto simp: run_held_def is_machine_def fun_eq_iff)

lemma run_held_mput:
  assumes "effective p' = mput k e (effective p)" and "e_ephemeral e" and "mget (effective p) k = None"
  shows "run_held p' = (run_held p)(k \<mapsto> (e_port e, e_token e))" "is_machine p' = is_machine p"
  using assms by (auto simp: run_held_def is_machine_def fun_eq_iff)

text \<open>\<open>ForRun\<close> as its two atomic steps in sequence: it refuses, returns the entry on record, or
  adds a run's entry.\<close>

lemma load_pair:
  "load p = (Some RecordUnreadable, snd (load p)) \<or>
   load p = (None, snd (load p)) \<and> loaded (snd (load p)) \<and> assigned (snd (load p)) = effective p"
  by (cases p rule: load_cases) auto

lemma ForRun_cases:
  assumes "ForRun conf p0 a c = (r, p')"
  obtains (refused) err where "r = Inl err" and "p' = snd (load p0)"
  | (known) e where "r = Inr (e_port e, e_token e)" and "mget (effective p0) (a, c) = Some e"
      and "p' = snd (load p0)" and "loaded p'"
  | (fresh) e want where "r = Inr (e_port e, e_token e)" and "mget (effective p0) (a, c) = None"
      and "e_ephemeral e" and "loaded p'" and "effective p' = mput (a, c) e (effective p0)"
      and "decide_port conf (snd (load p0)) (a, c) 0 want True = (Inr e, p')"
proof -
  obtain p where p: "snd (load p0) = p" by blast
  consider "load p0 = (Some RecordUnreadable, p)"
    | "load p0 = (None, p)" "loaded p" "assigned p = effective p0" "effective p = effective p0"
    using load_pair [of p0] effective_load [of p0] unfolding p by blast
  then show ?thesis
  proof cases
    case 1
    with assms have "r = Inl RecordUnreadable" and "p' = p"
      by (simp_all add: ForRun_def entry_of_def)
    with p show ?thesis by (intro refused) simp_all
  next
    case 2
    show ?thesis
    proof (cases "mget (effective p0) (a, c)")
      case (Some e)
      with 2 assms have "r = Inr (e_port e, e_token e)" and "p' = p"
        by (simp_all add: ForRun_def entry_of_def)
      with Some p 2(2) show ?thesis by (intro known) simp_all
    next
      case None
      show ?thesis
      proof (cases "preferred conf a c")
        case (Inl err)
        with None 2 assms have "r = Inl err" and "p' = p"
          by (simp_all add: ForRun_def entry_of_def)
        with p show ?thesis by (intro refused) simp_all
      next
        case (Inr want)
        obtain r' p1 where d: "decide_port conf p (a, c) 0 want True = (r', p1)" by fastforce
        with None Inr 2 assms have r: "r = map_sum id (\<lambda>e. (e_port e, e_token e)) r'" and p1: "p' = p1"
          by (simp_all add: ForRun_def entry_of_def split: sum.splits)
        from d show ?thesis
        proof (cases rule: decide_port_cases)
          case refused': (refused err)
          from r p1 refused' p 2 show ?thesis by (intro refused [of err]) simp_all
        next
          case (known e)
          with None 2 show ?thesis by simp
        next
          case fresh': (fresh e p2)
          from r p1 fresh' None d p 2 show ?thesis by (intro fresh [of e want]) simp_all
        qed
      qed
    qed
  qed
qed

text \<open>The object the registry is given, \<open>*accounts.Ports\<close>: its configuration and its state.\<close>

type_synonym ports_object = "ports_conf \<times> Ports"

definition obj_ForRun :: "ports_object \<Rightarrow> string \<Rightarrow> string \<Rightarrow> (ports_error + int \<times> nat) \<times> ports_object" where
  "obj_ForRun = (\<lambda>(conf, p) a c. let (r, p') = ForRun conf p a c in (r, (conf, p')))"

definition obj_Hold :: "ports_object \<Rightarrow> string \<Rightarrow> string \<Rightarrow> int \<Rightarrow> nat option \<times> ports_object" where
  "obj_Hold = (\<lambda>(conf, p) a c port. let (r, p') = Hold conf p a c port in (r, (conf, p')))"

definition obj_Free :: "ports_object \<Rightarrow> string \<Rightarrow> string \<Rightarrow> nat \<Rightarrow> bool \<times> ports_object" where
  "obj_Free = (\<lambda>(conf, p) a c token. let (r, p') = Free p a c token in (r, (conf, p')))"

definition obj_inv :: "ports_object \<Rightarrow> bool" where
  "obj_inv = (\<lambda>(conf, p). valid_conf conf \<and> ports_inv p)"

definition obj_held :: "ports_object \<Rightarrow> assignment \<Rightarrow> (int \<times> nat) option" where
  "obj_held = (\<lambda>(conf, p). run_held p)"

definition obj_machine :: "ports_object \<Rightarrow> assignment \<Rightarrow> bool" where
  "obj_machine = (\<lambda>(conf, p). is_machine p)"

lemmas obj_defs = obj_ForRun_def obj_Hold_def obj_Free_def obj_inv_def obj_held_def obj_machine_def

lemma run_held_inj:
  "ports_inv p \<Longrightarrow> run_held p k = Some (q, t) \<Longrightarrow> run_held p k' = Some (q, t') \<Longrightarrow> k = k'"
  by (auto simp: run_held_def ports_inv_def split: option.splits if_splits intro: distinct_ports_inj)

lemma run_held_nonzero: "ports_inv p \<Longrightarrow> run_held p k = Some (q, t) \<Longrightarrow> q \<noteq> 0"
  by (auto simp: run_held_def ports_inv_def distinct_ports_def
      split: option.splits if_splits dest!: map_of_SomeD)

lemma ForRun_held:
  assumes inv: "ports_inv p" and r: "ForRun conf p a c = (r, p')"
  shows "ports_inv p' \<and> is_machine p' = is_machine p \<and>
    (case r of Inl _ \<Rightarrow> run_held p' = run_held p
     | Inr (q, t) \<Rightarrow> \<not> is_machine p (a, c) \<longrightarrow> run_held p' = (run_held p)((a, c) \<mapsto> (q, t)))"
  using r
proof (cases rule: ForRun_cases)
  case (refused err)
  with load_inv [OF inv] show ?thesis by simp
next
  case (known e)
  with load_inv [OF inv] show ?thesis by (auto simp: is_machine_def run_held_def fun_eq_iff)
next
  case (fresh e)
  from decide_port_inv [OF load_inv [OF inv] fresh(6)] run_held_mput [OF fresh(5,3,2)] fresh
  show ?thesis by simp
qed

lemma Hold_held:
  assumes inv: "ports_inv p" and r: "Hold conf p a c q = (r, p')" and conf: "valid_conf conf"
  shows "ports_inv p' \<and> is_machine p' = is_machine p \<and>
    run_held p' = (case r of None \<Rightarrow> run_held p | Some t \<Rightarrow> (run_held p)((a, c) \<mapsto> (q, t)))"
proof -
  from conf have inv': "ports_inv p'"
    using Hold_inv [OF inv r] by (simp add: valid_conf_def Validate_None)
  from r show ?thesis
  proof (cases rule: Hold_cases)
    case (known e)
    with inv' show ?thesis by (auto simp: run_held_def fun_eq_iff)
  next
    case (fresh e)
    with inv' run_held_mput [OF fresh(8,4,2)] show ?thesis by simp
  qed (use inv' in simp)
qed

lemma Free_held:
  assumes inv: "ports_inv p" and r: "Free p a c t = (r, p')"
  shows "ports_inv p' \<and> is_machine p' = is_machine p \<and>
    (if r then (\<exists>q. run_held p (a, c) = Some (q, t)) \<and> run_held p' = (run_held p)((a, c) := None)
     else p' = p \<and> \<not> (t \<noteq> 0 \<and> (\<exists>q. run_held p (a, c) = Some (q, t))))"
  using r
proof (cases rule: Free_cases)
  case kept
  have "\<not> (t \<noteq> 0 \<and> (\<exists>q. run_held p (a, c) = Some (q, t)))"
  proof
    assume held: "t \<noteq> 0 \<and> (\<exists>q. run_held p (a, c) = Some (q, t))"
    then obtain e where e: "mget (effective p) (a, c) = Some e" "e_ephemeral e" "e_token e = t"
      by (auto simp: run_held_def split: option.splits if_splits)
    then have "loaded p"
      using read_assigned_machines by (force simp: effective_def dest: map_of_SomeD)
    with e kept r held show False by (simp add: Free_def effective_def)
  qed
  with kept inv show ?thesis by simp
next
  case (freed e)
  with r have "loaded p" using Free_loaded [OF inv] by simp
  with freed Free_inv [OF inv r] show ?thesis
    by (auto simp: run_held_def is_machine_def effective_def fun_eq_iff)
qed

lemma ForRun_known:
  assumes "run_held p (a, c) = Some qt" and "ForRun conf p a c = (Inr qt', p')"
  shows "qt' = qt"
  using assms(2)
  by (cases rule: ForRun_cases) (use assms(1) in \<open>auto simp: run_held_def split: option.splits if_splits\<close>)

interpretation assigned_ports: run_ports obj_ForRun obj_Hold obj_Free obj_inv obj_held obj_machine
proof
  fix p :: ports_object and p' :: ports_object and a c q t e k k' t' qt qt'
  obtain conf s where p: "p = (conf, s)" by (cases p)
  assume inv: "obj_inv p"
  then have conf: "valid_conf conf" and s: "ports_inv s" by (simp_all add: p obj_inv_def)
  show "obj_held p k = Some (q, t) \<Longrightarrow> obj_held p k' = Some (q, t') \<Longrightarrow> k = k'"
    using s by (simp add: p obj_held_def run_held_inj)
  show "obj_held p k = Some (q, t) \<Longrightarrow> q \<noteq> 0"
    using s by (simp add: p obj_held_def run_held_nonzero)
  show "\<not> obj_machine p (a, c) \<Longrightarrow> obj_ForRun p a c = (Inr (q, t), p') \<Longrightarrow>
      obj_inv p' \<and> obj_held p' = (obj_held p)((a, c) \<mapsto> (q, t)) \<and> obj_machine p' = obj_machine p"
    using ForRun_held [OF s, of conf a c "Inr (q, t)"] conf by (auto simp: p obj_defs split: prod.splits)
  show "obj_held p (a, c) = Some qt \<Longrightarrow> obj_ForRun p a c = (Inr qt', p') \<Longrightarrow> qt' = qt"
    using ForRun_known [of s a c qt conf qt'] by (auto simp: p obj_defs split: prod.splits)
  show "obj_ForRun p a c = (Inl e, p') \<Longrightarrow>
      obj_inv p' \<and> obj_held p' = obj_held p \<and> obj_machine p' = obj_machine p"
    using ForRun_held [OF s, of conf a c "Inl e"] conf by (auto simp: p obj_defs split: prod.splits)
  show "obj_Hold p a c q = (Some t, p') \<Longrightarrow>
      obj_inv p' \<and> obj_held p' = (obj_held p)((a, c) \<mapsto> (q, t)) \<and> obj_machine p' = obj_machine p"
    using Hold_held [OF s, of conf a c q "Some t"] conf by (auto simp: p obj_defs split: prod.splits)
  show "obj_Hold p a c q = (None, p') \<Longrightarrow>
      obj_inv p' \<and> obj_held p' = obj_held p \<and> obj_machine p' = obj_machine p"
    using Hold_held [OF s, of conf a c q None] conf by (auto simp: p obj_defs split: prod.splits)
  show "obj_Free p a c t = (True, p') \<Longrightarrow>
      obj_inv p' \<and> (\<exists>q. obj_held p (a, c) = Some (q, t)) \<and>
      obj_held p' = (obj_held p)((a, c) := None) \<and> obj_machine p' = obj_machine p"
    using Free_held [OF s, of a c t True] conf by (auto simp: p obj_defs split: prod.splits)
  show "obj_Free p a c t = (False, p') \<Longrightarrow>
      p' = p \<and> \<not> (t \<noteq> 0 \<and> (\<exists>q. obj_held p (a, c) = Some (q, t)))"
    using Free_held [OF s, of a c t False] conf by (auto simp: p obj_defs split: prod.splits)
qed

section \<open>Properties\<close>

lemma read_assigned_wf: "wfm (snd (read_assigned f))"
  unfolding read_assigned_def by (rule ReadRecord_invariant) (auto split: option.splits)

lemma new_Ports_inv:
  assumes "distinct (map (\<lambda>(k, e). e_port e) (snd (read_assigned f)))"
  shows "ports_inv (new_Ports f ok)"
proof -
  have "\<forall>(k, e) \<in> set (snd (read_assigned f)). e_port e \<noteq> 0"
    using read_assigned_machines by fastforce
  with assms read_assigned_wf [of f] show ?thesis
    by (simp add: ports_inv_def distinct_ports_def new_Ports_def effective_def)
qed

text \<open>A run's decision for a machine: \<open>For\<close> on a client that has a name.\<close>

lemma For_cases:
  assumes r: "For conf p0 account uid client = (Inr port, p')" and client: "client \<noteq> []"
  obtains (known) e where "mget (effective p0) (account, client) = Some e" and "port = e_port e"
      and "p' = snd (load p0)" and "loaded p'"
  | (fresh) e base want where "mget (effective p0) (account, client) = None" and "port = e_port e"
      and "PortForUID (conf_mapping conf) uid = Inr base"
      and "decide_port conf (snd (load p0)) (account, client) base want False = (Inr e, p')"
      and "effective p' = mput (account, client) e (effective p0)" and "loaded p'"
      and "e_port e = choose_port (conf_mapping conf) (memoReserved conf)
             (map (\<lambda>(k, e). e_port e) (effective p0)) base want False" and "e_port e \<noteq> 0"
proof -
  obtain p where p: "snd (load p0) = p" by blast
  from r obtain base where base: "PortForUID (conf_mapping conf) uid = Inr base"
    by (auto simp: For_def split: sum.splits)
  consider "load p0 = (Some RecordUnreadable, p)"
    | "load p0 = (None, p)" "loaded p" "assigned p = effective p0" "effective p = effective p0"
    using load_pair [of p0] effective_load [of p0] unfolding p by blast
  then show ?thesis
  proof cases
    case 1
    with r client base show ?thesis by (simp add: For_def entry_of_def)
  next
    case 2
    show ?thesis
    proof (cases "mget (effective p0) (account, client)")
      case (Some e)
      with 2 r client base p show ?thesis by (intro known [of e]) (simp_all add: For_def entry_of_def)
    next
      case None
      with 2 r client base obtain want e
        where d: "decide_port conf p (account, client) base want False = (Inr e, p')" and "port = e_port e"
        by (auto simp: For_def entry_of_def split: sum.splits prod.splits)
      from d show ?thesis
      proof (cases rule: decide_port_cases)
        case (refused err)
        then show ?thesis by simp
      next
        case (known e')
        with None 2 show ?thesis by simp
      next
        case fresh': (fresh e' p1)
        with None 2 base d p \<open>port = e_port e\<close> show ?thesis
          by (intro fresh [of e base want]) simp_all
      qed
    qed
  qed
qed

lemma For_recorded:
  assumes inv: "ports_inv p0" and r: "For conf p0 account uid client = (Inr port, p')" and client: "client \<noteq> []"
  shows "ports_inv p' \<and> loaded p' \<and> (\<exists>e. mget (assigned p') (account, client) = Some e \<and> e_port e = port)"
  using r client
proof (cases rule: For_cases)
  case (known e)
  with load_inv [OF inv] effective_load [of p0] show ?thesis by (auto simp: effective_def)
next
  case (fresh e base want)
  with decide_port_inv [OF load_inv [OF inv] fresh(4)] show ?thesis by (auto simp: effective_def)
qed

lemma find_port:
  assumes "distinct_ports m" and "mget m k = Some e"
  shows "find (\<lambda>(k', e'). e_port e' = e_port e) m = Some (k, e)"
proof -
  from assms(2) have "(k, e) \<in> set m" by (simp add: map_of_SomeD)
  then have "\<exists>x. x \<in> set m \<and> (\<lambda>(k', e'). e_port e' = e_port e) x"
    by (intro exI [of _ "(k, e)"]) simp
  then have "find (\<lambda>(k', e'). e_port e' = e_port e) m \<noteq> None"
    unfolding find_None_iff by blast
  then obtain k' e' where f: "find (\<lambda>(k', e'). e_port e' = e_port e) m = Some (k', e')" by auto
  then have "(k', e') \<in> set m" and "e_port e' = e_port e"
    by (auto simp: find_Some_iff) (metis nth_mem)
  with assms have "mget m k' = Some e'" by (simp add: distinct_ports_def mget_set)
  with assms \<open>e_port e' = e_port e\<close> have "k = k'" by (metis distinct_ports_inj)
  with \<open>mget m k' = Some e'\<close> assms(2) f show ?thesis by simp
qed

text \<open>Claim C1. No two machines ever share a port. From an agent started on a record that names no
  port twice, after any interleaving of the lock-held steps of any number of sessions (with stale
  hints, a changing account listing and a disk that fails), two different machines or runs in the
  record have different ports.\<close>

theorem ports_never_shared:
  assumes "distinct (map (\<lambda>(k, e). e_port e) (snd (read_assigned f)))"
    and "list_all (\<lambda>(conf, op). valid_conf conf) ops"
    and "mget (assigned (ports_run ops (new_Ports f ok))) k = Some e"
    and "mget (assigned (ports_run ops (new_Ports f ok))) k' = Some e'"
    and "k \<noteq> k'"
  shows "e_port e \<noteq> e_port e'"
proof
  assume "e_port e = e_port e'"
  from ports_run_inv [OF new_Ports_inv [OF assms(1)] assms(2), of ok]
  have "distinct_ports (assigned (ports_run ops (new_Ports f ok)))"
    by (simp add: ports_inv_def)
  from distinct_ports_inj [OF this assms(3,4) \<open>e_port e = e_port e'\<close>] assms(5) show False by simp
qed


text \<open>A port given to a machine the record does not know is in range, was nobody's, and is
  either the account's own derived port or one that no existing account derives.\<close>

theorem For_fresh_port:
  assumes "valid_conf conf" and "uid < 2 ^ 32" and "client \<noteq> []"
    and "mget (effective p) (account, client) = None"
    and "For conf p account uid client = (Inr port, p')"
  shows "PortBase (conf_mapping conf) \<le> port \<and> port \<le> MaxPort \<and>
    port \<notin> e_port ` snd ` set (effective p) \<and>
    (PortForUID (conf_mapping conf) uid = Inr port \<or>
     (\<forall>u. UIDForPort (conf_mapping conf) port = Inr u \<longrightarrow> \<not> memoReserved conf u))"
  using assms(5,3)
proof (cases rule: For_cases)
  case (known e)
  with assms(4) show ?thesis by simp
next
  case (fresh e base want)
  from choose_port_spec [OF fresh(7) [symmetric] fresh(8)] fresh(2)
  have "port \<notin> e_port ` snd ` set (effective p)"
    and "port = base \<or> port_free (conf_mapping conf) port (memoReserved conf)"
    by (auto simp: image_image case_prod_unfold)
  with fresh(3) PortForUID_range [OF fresh(3) assms(2)] show ?thesis
    by (auto simp: port_free_def split: if_splits)
qed

text \<open>\<open>For\<close> refuses a machine for want of a port only when every port of the range is taken
  or derived by an existing account.\<close>

theorem For_exhausted:
  assumes "valid_conf conf" and "For conf p account uid client = (Inl (NoFreePort a), p')"
    and "PortBase (conf_mapping conf) \<le> port" and "port \<le> MaxPort"
  shows "port \<in> e_port ` snd ` set (effective p) \<or>
    (\<exists>u. UIDForPort (conf_mapping conf) port = Inr u \<and> memoReserved conf u)"
proof -
  obtain q where q: "snd (load p) = q" by blast
  consider "load p = (Some RecordUnreadable, q)"
    | "load p = (None, q)" "loaded q" "assigned q = effective p"
    using load_pair [of p] unfolding q by blast
  then show ?thesis
  proof cases
    case 1
    with assms(2) show ?thesis by (auto simp: For_def entry_of_def split: sum.splits if_splits)
  next
    case 2
    with assms(2) obtain base want
      where "choose_port (conf_mapping conf) (memoReserved conf) (taken_ports q) base want False = 0"
      by (auto simp: For_def entry_of_def decide_port_def Let_def preferred_def
          split: sum.splits if_splits option.splits prod.splits)
    from choose_port_exhausted [OF this _ assms(3,4)] assms(1,3,4) 2 show ?thesis
      by (auto simp: valid_conf_def Validate_None port_free_def taken_ports_def image_image
          case_prod_unfold split: sum.splits)
  qed
qed

text \<open>A token frees only the assignment it was given for. Once a run holds an entry with
  some token, whatever happens after, if that token frees the run's port then the entry freed is
  that one, never one the run was given since.\<close>

theorem Free_only_its_own:
  assumes "loaded p" and "wfm (assigned p)" and "mget (assigned p) (account, client) = Some e"
    and "e_token e \<le> next_token p" and "next_token p + length ops < 2 ^ 64"
    and "Free (ports_run ops p) account client (e_token e) = (True, p')"
  shows "mget (assigned (ports_run ops p)) (account, client) = Some e"
proof -
  have "old_tokens (next_token p) (assigned p) p"
    using assms(1,2) by (simp add: old_tokens_def)
  from ports_run_old_tokens [OF this assms(5)]
  have old: "old_tokens (next_token p) (assigned p) (ports_run ops p)" .
  from assms(6) obtain e' where e': "mget (assigned (ports_run ops p)) (account, client) = Some e'"
    and "e_token e' = e_token e"
    by (auto simp: Free_def split: option.splits if_splits)
  with old assms(4) have "mget (assigned p) (account, client) = Some e'"
    by (auto simp: old_tokens_def)
  with assms(3) e' show ?thesis by simp
qed

text \<open>Claim C18. An agent restart keeps every machine on its port. After any interleaving on a disk that
  takes writes, a new agent reading the record gives a machine the port it had.\<close>

theorem restart_keeps_port:
  assumes "distinct (map (\<lambda>(k, e). e_port e) (snd (read_assigned f)))"
    and "fst (read_assigned f)" and "machines_ok (snd (read_assigned f))"
    and "list_all (\<lambda>(conf, op). valid_conf conf \<and> op_ok op) ops"
    and "p = ports_run ops (new_Ports f True)" and "loaded p"
    and "mget (assigned p) (account, client) = Some e" and "\<not> e_ephemeral e" and "client \<noteq> []"
    and "PortForUID (conf_mapping conf) uid = Inr base"
  shows "fst (For conf (new_Ports (clientports p) ok) account uid client) = Inr (e_port e)"
proof -
  have inv: "ports_inv (new_Ports f True)" using assms(1) by (rule new_Ports_inv)
  have "durable (new_Ports f True)"
    using assms(2,3) by (simp add: durable_def new_Ports_def effective_def)
  from ports_run_durable [OF inv this assms(4)] assms(5,6)
  have d: "fst (read_assigned (clientports p))"
    and m: "machine_port (snd (read_assigned (clientports p))) (account, client) = machine_port (assigned p) (account, client)"
    by (simp_all add: durable_def effective_def)
  obtain m' where read: "read_assigned (clientports p) = (True, m')"
    using d by (cases "read_assigned (clientports p)") simp
  with m assms(7,8) have "map_option e_port (mget m' (account, client)) = Some (e_port e)"
    by (auto simp: machine_port_def split: option.splits if_splits)
  with read assms(9,10) show ?thesis
    by (auto simp: For_def entry_of_def load_def new_Ports_def)
qed

text \<open>The arithmetic of \<open>PortForUID\<close> and \<open>UIDForPort\<close>, with its wrap-around, is a bijection
  between the 32-bit uids that have a port and the ports that have one.\<close>

theorem PortForUID_UIDForPort:
  assumes "Validate m = None" and "UIDBase m < 2 ^ 32" and "uid < 2 ^ 32"
  shows "PortForUID m uid = Inr port \<longleftrightarrow> UIDForPort m port = Inr uid"
  using assms by (auto simp: PortForUID_eq UIDForPort_eq Let_def Validate_None split: if_splits)

section \<open>Witnesses\<close>

text \<open>Evaluation of the definitions on concrete states, by the simplifier. In the example
  configuration the account with uid 45535 exists, whose derived port is the highest one.\<close>

lemmas ports_eval = decide_port_def load_def read_assigned_def new_Ports_def choose_port_def
  allocate_def allocate_from.simps port_free_def UIDForPort_def PortForUID_def Validate_def
  MaxPort_def DefaultMapping_def memoReserved_def assign_def taken_ports_def save_def
  WriteRecord_def entry_of_def preferred_def For_def ForRun_def int64_def Let_def

definition ex_conf :: ports_conf where
  "ex_conf = \<lparr>conf_mapping = DefaultMapping, Reserved = Some (\<lambda>uid. uid = 45535), Preferred = None\<rparr>"

lemma ex_conf_valid: "valid_conf ex_conf"
  by (simp add: valid_conf_def ex_conf_def DefaultMapping_def Validate_def MaxPort_def)

theorem ports_never_shared_witness:
  "let p = ports_run [(ex_conf, Decide (''alice'', ''m1'') 30001 0 False),
         (ex_conf, Decide (''alice'', ''m2'') 30001 30001 False)] (new_Ports NoFile True)
   in \<exists>e e'. mget (assigned p) (''alice'', ''m1'') = Some e \<and> mget (assigned p) (''alice'', ''m2'') = Some e'
        \<and> e_port e \<noteq> e_port e'"
proof -
  let ?ops = "[(ex_conf, Decide (''alice'', ''m1'') 30001 0 False),
         (ex_conf, Decide (''alice'', ''m2'') 30001 30001 False)]"
  let ?p = "ports_run ?ops (new_Ports NoFile True)"
  have "mget (assigned ?p) (''alice'', ''m1'') = Some \<lparr>e_port = 30001, e_ephemeral = False, e_token = 1\<rparr>"
    and "mget (assigned ?p) (''alice'', ''m2'') = Some \<lparr>e_port = 65534, e_ephemeral = False, e_token = 2\<rparr>"
    by (simp_all add: ports_eval ex_conf_def)
  moreover have "distinct (map (\<lambda>(k, e). e_port e) (snd (read_assigned NoFile)))"
    by (simp add: read_assigned_def)
  ultimately show ?thesis
    using ports_never_shared [of NoFile ?ops True "(''alice'', ''m1'')" _ "(''alice'', ''m2'')"] ex_conf_valid
    by simp
qed

lemma new_Ports_NoFile: "ports_inv (new_Ports NoFile ok)" "effective (new_Ports NoFile ok) = []"
  by (rule new_Ports_inv, simp add: read_assigned_def)
    (simp add: read_assigned_def effective_def new_Ports_def)

lemma ex_For: "fst (For ex_conf (new_Ports NoFile True) ''alice'' 10001 ''m1'') = Inr 30001"
  by (simp add: ports_eval ex_conf_def)


theorem For_fresh_port_witness:
  "30000 \<le> (30001 :: int) \<and> (30001 :: int) \<notin> e_port ` snd ` set (effective (new_Ports NoFile True)) \<and>
   fst (For ex_conf (new_Ports NoFile True) ''alice'' 10001 ''m1'') = Inr 30001"
  using For_fresh_port [OF ex_conf_valid _ _ _ pair_fst [OF ex_For]] ex_For new_Ports_NoFile(2) by simp

text \<open>A workspace whose range is the one port 65535, which the account with uid 45535 derives.\<close>

definition ex_full :: ports_conf where
  "ex_full = \<lparr>conf_mapping = \<lparr>UIDBase = 45535, PortBase = 65535\<rparr>, Reserved = Some (\<lambda>uid. uid = 45535),
     Preferred = None\<rparr>"

theorem For_exhausted_witness:
  "let p = snd (For ex_full (new_Ports NoFile True) ''alice'' 45535 ''m1'')
   in fst (For ex_full p ''alice'' 45535 ''m2'') = Inl (NoFreePort ''alice'') \<and>
      (65535 \<in> e_port ` snd ` set (effective p) \<or>
       (\<exists>u. UIDForPort (conf_mapping ex_full) 65535 = Inr u \<and> memoReserved ex_full u))"
proof -
  let ?p = "snd (For ex_full (new_Ports NoFile True) ''alice'' 45535 ''m1'')"
  have full: "fst (For ex_full ?p ''alice'' 45535 ''m2'') = Inl (NoFreePort ''alice'')"
    by (simp add: ports_eval ex_full_def)
  have "valid_conf ex_full"
    by (simp add: valid_conf_def ex_full_def Validate_def MaxPort_def)
  from For_exhausted [OF this pair_fst [OF full], of 65535] full show ?thesis
    by (simp add: ex_full_def MaxPort_def)
qed

theorem Free_only_its_own_witness:
  "let p = snd (ForRun ex_conf (new_Ports NoFile True) ''ci'' ''r1'');
       p' = ports_run [(ex_conf, EntryOf (''ci'', ''r2''))] p
   in fst (Free p' ''ci'' ''r1'' 1) \<and>
      mget (assigned p') (''ci'', ''r1'') = Some \<lparr>e_port = 65534, e_ephemeral = True, e_token = 1\<rparr>"
proof -
  let ?p = "snd (ForRun ex_conf (new_Ports NoFile True) ''ci'' ''r1'')"
  let ?ops = "[(ex_conf, EntryOf (''ci'', ''r2''))]"
  let ?e = "\<lparr>e_port = 65534, e_ephemeral = True, e_token = 1\<rparr>"
  have e: "mget (assigned ?p) (''ci'', ''r1'') = Some ?e" "loaded ?p" "wfm (assigned ?p)" "next_token ?p = 1"
    by (simp_all add: ports_eval ex_conf_def wfm_def)
  have free: "fst (Free (ports_run ?ops ?p) ''ci'' ''r1'' (e_token ?e)) = True"
    by (simp add: ports_eval ex_conf_def Free_def)
  from Free_only_its_own [OF e(2,3,1) _ _ pair_fst [OF free]] e(4) free show ?thesis by simp
qed

theorem restart_keeps_port_witness:
  "let p = ports_run [(ex_conf, Decide (''alice'', ''m1'') 30001 0 False)] (new_Ports NoFile True)
   in fst (For ex_conf (new_Ports (clientports p) False) ''alice'' 10001 ''m1'') = Inr 30001"
proof -
  let ?ops = "[(ex_conf, Decide (''alice'', ''m1'') 30001 0 False)]"
  let ?p = "ports_run ?ops (new_Ports NoFile True)"
  have "mget (assigned ?p) (''alice'', ''m1'') = Some \<lparr>e_port = 30001, e_ephemeral = False, e_token = 1\<rparr>"
    and "loaded ?p"
    by (simp_all add: ports_eval ex_conf_def)
  moreover have "op_ok (Decide (''alice'', ''m1'') 30001 0 False)"
    by (simp add: safe_name_def plain_def MaxPort_def)
  moreover have "PortForUID (conf_mapping ex_conf) 10001 = Inr 30001"
    by (simp add: ports_eval ex_conf_def)
  ultimately show ?thesis
    using restart_keeps_port [of NoFile ?ops ?p "''alice''" "''m1''" _ ex_conf 10001 30001 False] ex_conf_valid
    by (simp add: read_assigned_def machines_ok_def machine_port_def)
qed

theorem PortForUID_UIDForPort_witness:
  "PortForUID DefaultMapping 10001 = Inr 30001 \<longleftrightarrow> UIDForPort DefaultMapping 30001 = Inr 10001"
  by (rule PortForUID_UIDForPort) (simp_all add: ports_eval)

end
