(* ===== verification/Ephemeral_Runs.thy ===== *)
theory Ephemeral_Runs
  imports Port_Assignments
begin

text \<open>
  The runs of ephemeral accounts (\<open>agent/internal/ephemeral/registry.go\<close>): which are live, which
  are in their grace period and which are being cleaned up.

  Every method that holds the registry's mutex is one definition on the registry's state; the
  methods that release it part way (\<open>Port\<close>, which asks the allocator unlocked, and \<open>Sweep\<close>, which
  cleans up unlocked) are their locked parts, composed by \<open>Port\<close> and \<open>Sweep\<close> for one caller alone
  and interleaved freely by the step relation \<open>reg_step\<close>. The allocator is the interface value
  \<open>ports_iface\<close> the registry was given; the proofs use it through the locale \<open>run_ports\<close> only.
  A run object's address, which the code compares (\<open>r.runs[k] != ru\<close>), is its \<open>rid\<close>.

  The lemmas show the invariant of the bookkeeping under every interleaving (connections and
  waiting allocations are counted exactly, a run is live exactly while it has a connection); that
  runs never share a port as long as the allocator answers before the run's grace is over, and
  that without this two live runs can come to share one; what a sweep removes, keeps and frees;
  that the record on disk ends as the newest snapshot in whatever order writes land; and that the
  record reads back.
\<close>

section \<open>The state\<close>

datatype run_state = Live | Grace | Cleaning

fun state_String :: "run_state \<Rightarrow> string" where
  "state_String Live = ''live''"
| "state_String Grace = ''grace''"
| "state_String Cleaning = ''cleaning''"

record run =
  rid :: nat
  r_state :: run_state
  conns :: int
  r_port :: int
  r_token :: nat
  lastSeen :: time
  allocating :: int

text \<open>The interface the registry declares for its allocator.\<close>

record ('p, 'e) ports_iface =
  iface_ForRun :: "'p \<Rightarrow> string \<Rightarrow> string \<Rightarrow> ('e + int \<times> nat) \<times> 'p"
  iface_Hold :: "'p \<Rightarrow> string \<Rightarrow> string \<Rightarrow> int \<Rightarrow> nat option \<times> 'p"
  iface_Free :: "'p \<Rightarrow> string \<Rightarrow> string \<Rightarrow> nat \<Rightarrow> bool \<times> 'p"

record reg_conf =
  conf_Max :: int
  conf_Grace :: duration
  conf_Dir :: string
  Enrolled :: "(string \<Rightarrow> bool) option"

record Registry =
  runs :: "(assignment, run) gomap"
  next_rid :: nat
  gen :: nat

datatype attach_error =
  AtLimit string int
| BeingCleaned string string

datatype 'e port_error =
  NotAttached string string
| RunExpired string string
| AllocatorRefused 'e

definition new_Registry :: Registry where
  "new_Registry = \<lparr>runs = [], next_rid = 0, gen = 0\<rparr>"

definition reg_max :: "reg_conf \<Rightarrow> int" where
  "reg_max conf = (if conf_Max conf > 0 then conf_Max conf else 8)"

definition reg_grace :: "reg_conf \<Rightarrow> duration" where
  "reg_grace conf = (if conf_Grace conf > 0 then conf_Grace conf else 120 * second)"

definition run_count :: "Registry \<Rightarrow> string \<Rightarrow> int" where
  "run_count r account = int (length (filter (\<lambda>(k, ru). fst k = account) (runs r)))"

section \<open>The record of runs\<close>

text \<open>One line per run that has a port: account, client, port, state and the second last seen.\<close>

type_synonym run_entry = "assignment \<times> int \<times> run_state \<times> int"

definition render_run_line :: "run_entry \<Rightarrow> string" where
  "render_run_line = (\<lambda>((account, client), port, st, secs).
     account @ '':'' @ client @ '':'' @ Itoa port @ '':'' @ state_String st @ '':'' @ Itoa secs)"

definition run_entries :: "Registry \<Rightarrow> run_entry list" where
  "run_entries r =
     map (\<lambda>(k, ru). (k, r_port ru, r_state ru, lastSeen ru div second))
       (filter (\<lambda>(k, ru). r_port ru \<noteq> 0) (runs r))"

record snap =
  s_gen :: nat
  s_lines :: "string list"

definition snapshot :: "reg_conf \<Rightarrow> Registry \<Rightarrow> snap option \<times> Registry" where
  "snapshot conf r =
     (if conf_Dir conf = [] then (None, r)
      else let r' = r\<lparr>gen := (gen r + 1) mod 2 ^ 64\<rparr>
           in (Some \<lparr>s_gen = gen r', s_lines = sort (map render_run_line (run_entries r))\<rparr>, r'))"

text \<open>The record's writer, under a lock of its own: an older snapshot that arrives late is dropped.
  \<open>written\<close> is the newest generation handed to the disk.\<close>

record rec_state =
  written :: nat
  rec_file :: file_state

definition write_snap :: "bool \<Rightarrow> snap option \<Rightarrow> rec_state \<Rightarrow> rec_state" where
  "write_snap disk s w =
     (case s of
        None \<Rightarrow> w
      | Some s \<Rightarrow>
          if s_gen s \<le> written w then w
          else w\<lparr>written := s_gen s, rec_file := snd (WriteRecord disk (s_lines s) (rec_file w))\<rparr>)"

definition parse_run_line :: "string \<Rightarrow> run_entry option" where
  "parse_run_line line =
     (case Split CHR '':'' line of
        [account, client, number, word, secs] \<Rightarrow>
          (case Atoi number of
             None \<Rightarrow> None
           | Some port \<Rightarrow>
               (case Atoi secs of
                  None \<Rightarrow> None
                | Some s \<Rightarrow>
                    Some ((account, client), port,
                      if word = state_String Live then Live
                      else if word = state_String Cleaning then Cleaning else Grace, s)))
      | _ \<Rightarrow> None)"

definition readRecord :: "file_state \<Rightarrow> (run_entry \<Rightarrow> 's \<Rightarrow> 's) \<Rightarrow> 's \<Rightarrow> bool \<times> 's" where
  "readRecord f fn s =
     ReadRecord f (\<lambda>line s. case parse_run_line line of None \<Rightarrow> s | Some e \<Rightarrow> fn e s) s"

definition List_runs :: "file_state \<Rightarrow> run_entry list option" where
  "List_runs f = (case readRecord f (\<lambda>e out. out @ [e]) [] of (ok, out) \<Rightarrow> if ok then Some out else None)"

section \<open>The locked parts of the methods\<close>

definition Attach ::
  "reg_conf \<Rightarrow> time \<Rightarrow> assignment \<Rightarrow> Registry \<Rightarrow> (attach_error + nat) \<times> snap option \<times> Registry" where
  "Attach conf now k r =
     (let attached = (\<lambda>ru r. let r = r\<lparr>runs := mput k (ru\<lparr>r_state := Live, conns := conns ru + 1, lastSeen := now\<rparr>) (runs r)\<rparr>;
                                 (s, r) = snapshot conf r
                             in (Inr (rid ru), s, r))
      in case mget (runs r) k of
           None \<Rightarrow>
             if run_count r (fst k) \<ge> reg_max conf
             then (Inl (AtLimit (fst k) (run_count r (fst k))), None, r)
             else attached \<lparr>rid = next_rid r, r_state = Live, conns = 0, r_port = 0, r_token = 0,
                             lastSeen = zero_time, allocating = 0\<rparr> (r\<lparr>next_rid := next_rid r + 1\<rparr>)
         | Some ru \<Rightarrow>
             if r_state ru = Cleaning then (Inl (BeingCleaned (fst k) (snd k)), None, r)
             else attached ru r)"

definition detach :: "reg_conf \<Rightarrow> time \<Rightarrow> assignment \<Rightarrow> nat \<Rightarrow> Registry \<Rightarrow> snap option \<times> Registry" where
  "detach conf now k i r =
     (case mget (runs r) k of
        None \<Rightarrow> (None, r)
      | Some ru \<Rightarrow>
          if rid ru \<noteq> i then (None, r)
          else let ru = ru\<lparr>conns := conns ru - 1, lastSeen := now\<rparr>
               in if conns ru > 0 then (None, r\<lparr>runs := mput k ru (runs r)\<rparr>)
                  else if r_port ru = 0 \<and> allocating ru = 0
                  then snapshot conf (r\<lparr>runs := mdel k (runs r)\<rparr>)
                  else snapshot conf (r\<lparr>runs := mput k (ru\<lparr>r_state := Grace\<rparr>) (runs r)\<rparr>))"

text \<open>\<open>Port\<close> up to the unlock: refused, answered at once, or waiting on the allocator on behalf of
  the run object it names.\<close>

datatype port_begun = PortRefused | PortKnown int | PortWaits nat

definition Port_begin :: "assignment \<Rightarrow> Registry \<Rightarrow> port_begun \<times> Registry" where
  "Port_begin k r =
     (case mget (runs r) k of
        None \<Rightarrow> (PortRefused, r)
      | Some ru \<Rightarrow>
          if r_state ru \<noteq> Live then (PortRefused, r)
          else if r_port ru \<noteq> 0 then (PortKnown (r_port ru), r)
          else (PortWaits (rid ru), r\<lparr>runs := mput k (ru\<lparr>allocating := allocating ru + 1\<rparr>) (runs r)\<rparr>))"

text \<open>\<open>Port\<close> after the allocator answered, for the run object \<open>i\<close>.\<close>

definition Port_finish ::
  "('p, 'e) ports_iface \<Rightarrow> reg_conf \<Rightarrow> assignment \<Rightarrow> nat \<Rightarrow> 'e + int \<times> nat \<Rightarrow> Registry \<Rightarrow> 'p \<Rightarrow>
   ('e port_error + int) \<times> snap option \<times> Registry \<times> 'p" where
  "Port_finish iface conf k i answer r p =
     (let expired = (\<lambda>r. (Inl (RunExpired (fst k) (snd k)), None, r,
            case answer of
              Inl _ \<Rightarrow> p
            | Inr (port, token) \<Rightarrow> snd (iface_Free iface p (fst k) (snd k) token)))
      in case mget (runs r) k of
           None \<Rightarrow> expired r
         | Some ru \<Rightarrow>
             if rid ru \<noteq> i then expired r
             else
               let ru = ru\<lparr>allocating := allocating ru - 1\<rparr>;
                   r1 = r\<lparr>runs := mput k ru (runs r)\<rparr>
               in if r_state ru = Cleaning then expired r1
                  else (case answer of
                          Inl e \<Rightarrow>
                            (Inl (AllocatorRefused e), None,
                             if conns ru = 0 \<and> r_port ru = 0 \<and> allocating ru = 0
                             then r\<lparr>runs := mdel k (runs r)\<rparr> else r1, p)
                        | Inr (port, token) \<Rightarrow>
                            if r_port ru = 0
                            then let (s, r2) = snapshot conf
                                       (r\<lparr>runs := mput k (ru\<lparr>r_port := port, r_token := token\<rparr>) (runs r)\<rparr>)
                                 in (Inr port, s, r2, p)
                            else (Inr (r_port ru), None, r1, p)))"

text \<open>The first locked part of \<open>Sweep\<close>: every run of an enrolled account whose grace is over
  becomes \<open>Cleaning\<close>, and every such run is due.\<close>

record due =
  d_key :: assignment
  d_rid :: nat
  d_port :: int
  d_token :: nat

definition expire :: "reg_conf \<Rightarrow> time \<Rightarrow> assignment \<Rightarrow> run \<Rightarrow> run" where
  "expire conf now k ru =
     (if (case Enrolled conf of None \<Rightarrow> False | Some f \<Rightarrow> \<not> f (fst k)) then ru
      else if r_state ru = Grace \<and> time_Sub now (lastSeen ru) \<ge> reg_grace conf
      then ru\<lparr>r_state := Cleaning\<rparr> else ru)"

definition is_due :: "reg_conf \<Rightarrow> time \<Rightarrow> assignment \<Rightarrow> run \<Rightarrow> bool" where
  "is_due conf now k ru \<longleftrightarrow>
     \<not> (case Enrolled conf of None \<Rightarrow> False | Some f \<Rightarrow> \<not> f (fst k)) \<and>
     r_state (expire conf now k ru) = Cleaning"

definition Sweep_mark :: "reg_conf \<Rightarrow> time \<Rightarrow> Registry \<Rightarrow> due list \<times> snap option \<times> Registry" where
  "Sweep_mark conf now r =
     (let ds = map (\<lambda>(k, ru). \<lparr>d_key = k, d_rid = rid ru, d_port = r_port ru, d_token = r_token ru\<rparr>)
                 (filter (\<lambda>(k, ru). is_due conf now k ru) (runs r));
          r = r\<lparr>runs := map (\<lambda>(k, ru). (k, expire conf now k ru)) (runs r)\<rparr>
      in if ds \<noteq> [] then (ds, snapshot conf r) else (ds, None, r))"

text \<open>The last locked part, for one run that was cleaned: it is forgotten, if it is still that run.\<close>

definition Sweep_remove :: "reg_conf \<Rightarrow> due \<Rightarrow> Registry \<Rightarrow> snap option \<times> Registry" where
  "Sweep_remove conf d r =
     snapshot conf
       (case mget (runs r) (d_key d) of
          Some ru \<Rightarrow> if rid ru = d_rid d then r\<lparr>runs := mdel (d_key d) (runs r)\<rparr> else r
        | None \<Rightarrow> r)"

definition Sweep_free :: "('p, 'e) ports_iface \<Rightarrow> due \<Rightarrow> 'p \<Rightarrow> 'p" where
  "Sweep_free iface d p =
     (if d_token d \<noteq> 0 then snd (iface_Free iface p (fst (d_key d)) (snd (d_key d)) (d_token d)) else p)"

definition Drop :: "('p, 'e) ports_iface \<Rightarrow> reg_conf \<Rightarrow> string \<Rightarrow> Registry \<Rightarrow> 'p \<Rightarrow> snap option \<times> Registry \<times> 'p" where
  "Drop iface conf account r p =
     (let p = fold (\<lambda>(k, ru) p. if fst k = account \<and> r_port ru \<noteq> 0
                then snd (iface_Free iface p (fst k) (snd k) (r_token ru)) else p) (runs r) p;
          (s, r) = snapshot conf (r\<lparr>runs := mdel_if (\<lambda>k ru. fst k = account) (runs r)\<rparr>)
      in (s, r, p))"

section \<open>The methods, for one caller alone\<close>

definition Port ::
  "('p, 'e) ports_iface \<Rightarrow> reg_conf \<Rightarrow> assignment \<Rightarrow> Registry \<Rightarrow> 'p \<Rightarrow>
   ('e port_error + int) \<times> snap option \<times> Registry \<times> 'p" where
  "Port iface conf k r p =
     (case Port_begin k r of
        (PortRefused, r) \<Rightarrow> (Inl (NotAttached (fst k) (snd k)), None, r, p)
      | (PortKnown port, r) \<Rightarrow> (Inr port, None, r, p)
      | (PortWaits i, r) \<Rightarrow>
          let (answer, p) = iface_ForRun iface p (fst k) (snd k)
          in Port_finish iface conf k i answer r p)"

text \<open>\<open>cleanup\<close> is what \<open>Cleanup\<close> answers for a run: that nothing of it is left.\<close>

fun Sweep_due ::
  "('p, 'e) ports_iface \<Rightarrow> reg_conf \<Rightarrow> (assignment \<Rightarrow> bool) \<Rightarrow> due list \<Rightarrow> Registry \<Rightarrow> 'p \<Rightarrow> Registry \<times> 'p" where
  "Sweep_due iface conf cleanup [] r p = (r, p)"
| "Sweep_due iface conf cleanup (d # ds) r p =
     (if cleanup (d_key d)
      then Sweep_due iface conf cleanup ds (snd (Sweep_remove conf d r)) (Sweep_free iface d p)
      else Sweep_due iface conf cleanup ds r p)"

definition Sweep ::
  "('p, 'e) ports_iface \<Rightarrow> reg_conf \<Rightarrow> (assignment \<Rightarrow> bool) \<Rightarrow> time \<Rightarrow> Registry \<Rightarrow> 'p \<Rightarrow> Registry \<times> 'p" where
  "Sweep iface conf cleanup now r p =
     (case Sweep_mark conf now r of (ds, s, r) \<Rightarrow> Sweep_due iface conf cleanup ds r p)"

definition restore_entry ::
  "('p, 'e) ports_iface \<Rightarrow> time \<Rightarrow> run_entry \<Rightarrow> Registry \<times> 'p \<Rightarrow> Registry \<times> 'p" where
  "restore_entry iface now = (\<lambda>(k, port, st, secs) (r, p).
     let ru = \<lparr>rid = next_rid r, r_state = (if st = Live then Grace else st), conns = 0, r_port = port,
               r_token = 0, lastSeen = (if st = Live then now else secs * second), allocating = 0\<rparr>;
         (held, p) = iface_Hold iface p (fst k) (snd k) port;
         ru = (case held of
                 Some token \<Rightarrow> ru\<lparr>r_token := token\<rparr>
               | None \<Rightarrow> ru\<lparr>r_state := Cleaning, r_token := 0\<rparr>)
     in (r\<lparr>runs := mput k ru (runs r), next_rid := next_rid r + 1\<rparr>, p))"

definition Restore ::
  "('p, 'e) ports_iface \<Rightarrow> reg_conf \<Rightarrow> time \<Rightarrow> file_state \<Rightarrow> Registry \<Rightarrow> 'p \<Rightarrow>
   bool \<times> snap option \<times> Registry \<times> 'p" where
  "Restore iface conf now f r p =
     (if conf_Dir conf = [] then (True, None, r, p)
      else
        let (ok, r, p) = readRecord f (restore_entry iface now) (r, p)
        in if ok then let (s, r) = snapshot conf r in (True, s, r, p) else (False, None, r, p))"

text \<open>\<open>Census\<close>: the runs counted by account and state, and the ports they hold.\<close>

definition Census :: "Registry \<Rightarrow> (string \<times> run_state, int) gomap \<times> int" where
  "Census r =
     (fold (\<lambda>(k, ru) m. mput (fst k, r_state ru)
          ((case mget m (fst k, r_state ru) of None \<Rightarrow> 0 | Some n \<Rightarrow> n) + 1) m) (runs r) [],
      int (length (filter (\<lambda>(k, ru). r_port ru \<noteq> 0) (runs r))))"

section \<open>Interleavings\<close>

text \<open>
  The registry with the callers in flight: the connections that hold a lease (the \<open>release\<close> function
  of an \<open>Attach\<close>), the \<open>Port\<close> calls that wait on the allocator or hold its answer, and the sweep's
  work list, each entry with whether its port was already freed.
\<close>

record ('p, 'e) sys =
  s_reg :: Registry
  s_ports :: 'p
  s_leases :: "(assignment \<times> nat) list"
  s_pend :: "(assignment \<times> nat \<times> ('e + int \<times> nat) option) list"
  s_due :: "(due \<times> bool) list"

text \<open>
  One atomic step. \<open>eph\<close> are the ephemeral accounts, \<open>other\<close> what the rest of the agent may do to
  the allocator. With \<open>timely\<close>, the allocator answers before the run it answers for is expired or
  dropped, and an account is not dropped while one of its runs is being cleaned up.
\<close>

inductive reg_step ::
  "bool \<Rightarrow> (string \<Rightarrow> bool) \<Rightarrow> ('p \<Rightarrow> 'p \<Rightarrow> bool) \<Rightarrow> ('p, 'e) ports_iface \<Rightarrow> reg_conf \<Rightarrow>
   ('p, 'e) sys \<Rightarrow> ('p, 'e) sys \<Rightarrow> bool"
  for timely eph other iface conf where
  attach: "eph (fst k) \<Longrightarrow> Attach conf now k (s_reg s) = (Inr i, sn, r) \<Longrightarrow>
    reg_step timely eph other iface conf s (s\<lparr>s_reg := r, s_leases := (k, i) # s_leases s\<rparr>)"
| release: "(k, i) \<in> set (s_leases s) \<Longrightarrow> detach conf now k i (s_reg s) = (sn, r) \<Longrightarrow>
    reg_step timely eph other iface conf s (s\<lparr>s_reg := r, s_leases := remove1 (k, i) (s_leases s)\<rparr>)"
| ask: "Port_begin k (s_reg s) = (PortWaits i, r) \<Longrightarrow>
    reg_step timely eph other iface conf s (s\<lparr>s_reg := r, s_pend := (k, i, None) # s_pend s\<rparr>)"
| allocate: "(k, i, None) \<in> set (s_pend s) \<Longrightarrow>
    iface_ForRun iface (s_ports s) (fst k) (snd k) = (answer, p) \<Longrightarrow>
    reg_step timely eph other iface conf s
      (s\<lparr>s_ports := p, s_pend := (k, i, Some answer) # remove1 (k, i, None) (s_pend s)\<rparr>)"
| finish: "(k, i, Some answer) \<in> set (s_pend s) \<Longrightarrow>
    Port_finish iface conf k i answer (s_reg s) (s_ports s) = (res, sn, r, p) \<Longrightarrow>
    reg_step timely eph other iface conf s
      (s\<lparr>s_reg := r, s_ports := p, s_pend := remove1 (k, i, Some answer) (s_pend s)\<rparr>)"
| mark: "s_due s = [] \<Longrightarrow>
    (timely \<Longrightarrow> \<forall>(k, ru) \<in> set (runs (s_reg s)). allocating ru > 0 \<longrightarrow> \<not> is_due conf now k ru) \<Longrightarrow>
    Sweep_mark conf now (s_reg s) = (ds, sn, r) \<Longrightarrow>
    reg_step timely eph other iface conf s (s\<lparr>s_reg := r, s_due := map (\<lambda>d. (d, False)) ds\<rparr>)"
| kept: "s_due s = (d, False) # ds \<Longrightarrow>
    reg_step timely eph other iface conf s (s\<lparr>s_due := ds\<rparr>)"
| freed: "s_due s = (d, False) # ds \<Longrightarrow>
    reg_step timely eph other iface conf s
      (s\<lparr>s_ports := Sweep_free iface d (s_ports s), s_due := (d, True) # ds\<rparr>)"
| gone: "s_due s = (d, True) # ds \<Longrightarrow> Sweep_remove conf d (s_reg s) = (sn, r) \<Longrightarrow>
    reg_step timely eph other iface conf s (s\<lparr>s_reg := r, s_due := ds\<rparr>)"
| drop: "(timely \<Longrightarrow> (\<forall>(k, i, a) \<in> set (s_pend s). fst k \<noteq> account) \<and>
                  (\<forall>(d, f) \<in> set (s_due s). fst (d_key d) \<noteq> account)) \<Longrightarrow>
    Drop iface conf account (s_reg s) (s_ports s) = (sn, r, p) \<Longrightarrow>
    reg_step timely eph other iface conf s (s\<lparr>s_reg := r, s_ports := p\<rparr>)"
| other: "other (s_ports s) p \<Longrightarrow>
    reg_step timely eph other iface conf s (s\<lparr>s_ports := p\<rparr>)"

definition started :: "Registry \<Rightarrow> 'p \<Rightarrow> ('p, 'e) sys" where
  "started r p = \<lparr>s_reg = r, s_ports = p, s_leases = [], s_pend = [], s_due = []\<rparr>"

section \<open>The bookkeeping\<close>

definition waiting :: "(assignment \<times> nat \<times> 'a) list \<Rightarrow> assignment \<Rightarrow> nat \<Rightarrow> int" where
  "waiting ps k i = int (length (filter (\<lambda>(k', i', a). k' = k \<and> i' = i) ps))"

definition leased :: "(assignment \<times> nat) list \<Rightarrow> assignment \<Rightarrow> nat \<Rightarrow> int" where
  "leased ls k i = int (count_list ls (k, i))"

definition run_ok :: "(assignment \<times> nat) list \<Rightarrow> (assignment \<times> nat \<times> 'a) list \<Rightarrow> nat \<Rightarrow> assignment \<Rightarrow> run \<Rightarrow> bool" where
  "run_ok ls ps n k ru \<longleftrightarrow>
     rid ru < n \<and> conns ru = leased ls k (rid ru) \<and> allocating ru = waiting ps k (rid ru) \<and>
     (r_state ru = Live \<longleftrightarrow> conns ru > 0)"

definition book_inv :: "('p, 'e) sys \<Rightarrow> bool" where
  "book_inv s \<longleftrightarrow>
     wfm (runs (s_reg s)) \<and>
     (\<forall>k ru. mget (runs (s_reg s)) k = Some ru \<longrightarrow> run_ok (s_leases s) (s_pend s) (next_rid (s_reg s)) k ru) \<and>
     (\<forall>(k, i) \<in> set (s_leases s). i < next_rid (s_reg s)) \<and>
     (\<forall>(k, i, a) \<in> set (s_pend s). i < next_rid (s_reg s))"

lemma waiting_simps [simp]:
  "waiting [] k i = 0"
  "waiting ((k', i', a) # ps) k i = waiting ps k i + (if k' = k \<and> i' = i then 1 else 0)"
  by (auto simp: waiting_def)

lemma waiting_remove1:
  "(k', i', a) \<in> set ps \<Longrightarrow>
     waiting (remove1 (k', i', a) ps) k i = waiting ps k i - (if k' = k \<and> i' = i then 1 else 0)"
  by (induction ps) auto

lemma waiting_nonneg [simp]: "waiting ps k i \<ge> 0"
  by (simp add: waiting_def)

lemma waiting_pos: "waiting ps k i > 0 \<longleftrightarrow> (\<exists>a. (k, i, a) \<in> set ps)"
  by (auto simp: waiting_def filter_empty_conv)

lemma waiting_fresh: "\<forall>(k, i, a) \<in> set ps. i < n \<Longrightarrow> waiting ps k n = 0"
  by (induction ps) auto

lemma leased_simps [simp]:
  "leased [] k i = 0"
  "leased ((k', i') # ls) k i = leased ls k i + (if k' = k \<and> i' = i then 1 else 0)"
  by (auto simp: leased_def)

lemma leased_remove1:
  "(k', i') \<in> set ls \<Longrightarrow>
     leased (remove1 (k', i') ls) k i = leased ls k i - (if k' = k \<and> i' = i then 1 else 0)"
  by (induction ls) auto

lemma leased_nonneg [simp]: "leased ls k i \<ge> 0"
  by (simp add: leased_def)

lemma leased_pos: "leased ls k i > 0 \<longleftrightarrow> (k, i) \<in> set ls"
  by (metis count_list_0_iff leased_def of_nat_0_less_iff gr0I not_gr_zero)

lemma leased_fresh: "\<forall>(k, i) \<in> set ls. i < n \<Longrightarrow> leased ls k n = 0"
  by (induction ls) auto

lemma snapshot_runs [simp]:
  "runs (snd (snapshot conf r)) = runs r" "next_rid (snd (snapshot conf r)) = next_rid r"
  by (auto simp: snapshot_def Let_def)

lemma snapshotD: "snapshot conf r = (s, r') \<Longrightarrow> runs r' = runs r \<and> next_rid r' = next_rid r"
  by (auto simp: snapshot_def Let_def split: if_splits)

text \<open>What each locked part does to the map of runs.\<close>

lemma Attach_ok:
  assumes "Attach conf now k r = (Inr i, sn, r')"
  obtains (new) "mget (runs r) k = None" and "i = next_rid r" and "run_count r (fst k) < reg_max conf"
      and "next_rid r' = next_rid r + 1"
      and "runs r' = mput k \<lparr>rid = i, r_state = Live, conns = 1, r_port = 0, r_token = 0,
                             lastSeen = now, allocating = 0\<rparr> (runs r)"
  | (again) ru where "mget (runs r) k = Some ru" and "r_state ru \<noteq> Cleaning" and "i = rid ru"
      and "next_rid r' = next_rid r"
      and "runs r' = mput k (ru\<lparr>r_state := Live, conns := conns ru + 1, lastSeen := now\<rparr>) (runs r)"
proof (cases "mget (runs r) k")
  case None
  with assms show ?thesis
    by (intro new) (auto simp: Attach_def Let_def split: if_splits prod.splits dest: snapshotD)
next
  case (Some ru)
  with assms show ?thesis
    by (intro again) (auto simp: Attach_def Let_def split: if_splits prod.splits dest: snapshotD)
qed

lemma detach_cases:
  assumes "detach conf now k i r = (sn, r')"
  obtains (stale) "r' = r" and "\<And>ru. mget (runs r) k = Some ru \<Longrightarrow> rid ru \<noteq> i"
  | (more) ru where "mget (runs r) k = Some ru" and "rid ru = i" and "conns ru > 1"
      and "next_rid r' = next_rid r"
      and "runs r' = mput k (ru\<lparr>conns := conns ru - 1, lastSeen := now\<rparr>) (runs r)"
  | (ended) ru where "mget (runs r) k = Some ru" and "rid ru = i" and "conns ru \<le> 1" and "r_port ru = 0"
      and "allocating ru = 0" and "next_rid r' = next_rid r" and "runs r' = mdel k (runs r)"
  | (last) ru where "mget (runs r) k = Some ru" and "rid ru = i" and "conns ru \<le> 1"
      and "r_port ru \<noteq> 0 \<or> allocating ru \<noteq> 0" and "next_rid r' = next_rid r"
      and "runs r' = mput k (ru\<lparr>conns := conns ru - 1, lastSeen := now, r_state := Grace\<rparr>) (runs r)"
proof (cases "mget (runs r) k")
  case None
  with assms show ?thesis by (intro stale) (auto simp: detach_def)
next
  case (Some ru)
  note r' = assms [symmetric]
  consider "rid ru \<noteq> i" | "rid ru = i" "conns ru > 1"
    | "rid ru = i" "conns ru \<le> 1" "r_port ru = 0 \<and> allocating ru = 0"
    | "rid ru = i" "conns ru \<le> 1" "\<not> (r_port ru = 0 \<and> allocating ru = 0)"
    by linarith
  then show ?thesis
  proof cases
    case 1 with Some r' show ?thesis by (intro stale) (auto simp: detach_def)
  next
    case 2 with Some r' show ?thesis by (intro more [of ru]) (auto simp: detach_def)
  next
    case 3
    then have "r' = snd (snapshot conf (r\<lparr>runs := mdel k (runs r)\<rparr>))"
      using Some r' by (simp add: detach_def) (metis snd_conv)
    with 3 Some show ?thesis by (intro ended [of ru]) auto
  next
    case 4
    then have "r' = snd (snapshot conf (r\<lparr>runs := mput k (ru\<lparr>conns := conns ru - 1, lastSeen := now, r_state := Grace\<rparr>) (runs r)\<rparr>))"
      using Some r' by (simp add: detach_def) (metis snd_conv)
    with 4 Some show ?thesis by (intro last [of ru]) auto
  qed
qed

lemma Port_begin_waits:
  assumes "Port_begin k r = (PortWaits i, r')"
  obtains ru where "mget (runs r) k = Some ru" and "r_state ru = Live" and "r_port ru = 0" and "i = rid ru"
    and "r' = r\<lparr>runs := mput k (ru\<lparr>allocating := allocating ru + 1\<rparr>) (runs r)\<rparr>"
  using assms by (auto simp: Port_begin_def split: option.splits if_splits)

lemma Port_finish_cases:
  assumes "Port_finish iface conf k i answer r p = (res, sn, r', p')"
  obtains (stale) "res = Inl (RunExpired (fst k) (snd k))" and "r' = r"
      and "\<And>ru. mget (runs r) k = Some ru \<Longrightarrow> rid ru \<noteq> i"
      and "p' = (case answer of Inl _ \<Rightarrow> p | Inr (port, token) \<Rightarrow> snd (iface_Free iface p (fst k) (snd k) token))"
  | (cleaning) ru where "res = Inl (RunExpired (fst k) (snd k))"
      and "mget (runs r) k = Some ru" and "rid ru = i" and "r_state ru = Cleaning" and "next_rid r' = next_rid r"
      and "runs r' = mput k (ru\<lparr>allocating := allocating ru - 1\<rparr>) (runs r)"
      and "p' = (case answer of Inl _ \<Rightarrow> p | Inr (port, token) \<Rightarrow> snd (iface_Free iface p (fst k) (snd k) token))"
  | (ended) ru e where "res = Inl (AllocatorRefused e)" and "answer = Inl e"
      and "mget (runs r) k = Some ru" and "rid ru = i" and "r_state ru \<noteq> Cleaning" and "conns ru = 0"
      and "r_port ru = 0" and "allocating ru = 1" and "next_rid r' = next_rid r"
      and "runs r' = mdel k (runs r)" and "p' = p"
  | (refused) ru e where "res = Inl (AllocatorRefused e)" and "answer = Inl e"
      and "mget (runs r) k = Some ru" and "rid ru = i" and "r_state ru \<noteq> Cleaning"
      and "conns ru \<noteq> 0 \<or> r_port ru \<noteq> 0 \<or> allocating ru \<noteq> 1" and "next_rid r' = next_rid r"
      and "runs r' = mput k (ru\<lparr>allocating := allocating ru - 1\<rparr>) (runs r)" and "p' = p"
  | (bound) ru port token where "res = Inr port" and "answer = Inr (port, token)"
      and "mget (runs r) k = Some ru" and "rid ru = i" and "r_state ru \<noteq> Cleaning" and "r_port ru = 0"
      and "next_rid r' = next_rid r"
      and "runs r' = mput k (ru\<lparr>allocating := allocating ru - 1, r_port := port, r_token := token\<rparr>) (runs r)"
      and "p' = p"
  | (known) ru port token where "res = Inr (r_port ru)" and "answer = Inr (port, token)"
      and "mget (runs r) k = Some ru" and "rid ru = i" and "r_state ru \<noteq> Cleaning" and "r_port ru \<noteq> 0"
      and "next_rid r' = next_rid r" and "runs r' = mput k (ru\<lparr>allocating := allocating ru - 1\<rparr>) (runs r)"
      and "p' = p"
proof (cases "mget (runs r) k")
  case None
  with assms show ?thesis by (intro stale) (auto simp: Port_finish_def Let_def)
next
  case (Some ru)
  note r = assms [unfolded Port_finish_def]
  show ?thesis
  proof (cases "rid ru = i \<and> r_state ru \<noteq> Cleaning")
    case False
    show ?thesis
    proof (cases "rid ru = i")
      case True
      with False Some r show ?thesis by (intro cleaning [of ru]) (auto simp: Let_def)
    next
      case False
      with Some r show ?thesis by (intro stale) (auto simp: Let_def)
    qed
  next
    case True
    show ?thesis
    proof (cases answer)
      case (Inl e)
      show ?thesis
      proof (cases "conns ru = 0 \<and> r_port ru = 0 \<and> allocating ru = 1")
        case True
        with \<open>rid ru = i \<and> r_state ru \<noteq> Cleaning\<close> Some Inl r show ?thesis
          by (intro ended [of e ru]) (auto simp: Let_def)
      next
        case False
        with \<open>rid ru = i \<and> r_state ru \<noteq> Cleaning\<close> Some Inl r show ?thesis
          by (intro refused [of e ru]) (auto simp: Let_def split: if_splits)
      qed
    next
      case (Inr b)
      obtain port token where b: "b = (port, token)" by (cases b)
      show ?thesis
      proof (cases "r_port ru = 0")
        case True
        with \<open>rid ru = i \<and> r_state ru \<noteq> Cleaning\<close> Some Inr b r show ?thesis
          by (intro bound [of port token ru]) (auto simp: Let_def split: prod.splits dest: snapshotD)
      next
        case False
        with \<open>rid ru = i \<and> r_state ru \<noteq> Cleaning\<close> Some Inr b r show ?thesis
          by (intro known [of ru port token]) (auto simp: Let_def)
      qed
    qed
  qed
qed

lemma expire_simps [simp]:
  "rid (expire conf now k ru) = rid ru" "conns (expire conf now k ru) = conns ru"
  "r_port (expire conf now k ru) = r_port ru" "r_token (expire conf now k ru) = r_token ru"
  "allocating (expire conf now k ru) = allocating ru" "lastSeen (expire conf now k ru) = lastSeen ru"
  by (auto simp: expire_def)

lemma expire_state:
  "r_state (expire conf now k ru) =
     (if r_state ru = Grace \<and> is_due conf now k ru then Cleaning else r_state ru)"
  by (auto simp: expire_def is_due_def)

lemma map_pairs_map_of: "mget (map (\<lambda>(k, v). (k, f k v)) m) k = map_option (f k) (mget m k)"
  by (induction m) auto

lemma Sweep_mark_parts:
  assumes "Sweep_mark conf now r = (ds, sn, r')"
  shows "ds = map (\<lambda>(k, ru). \<lparr>d_key = k, d_rid = rid ru, d_port = r_port ru, d_token = r_token ru\<rparr>)
                (filter (\<lambda>(k, ru). is_due conf now k ru) (runs r))"
    and "runs r' = map (\<lambda>(k, ru). (k, expire conf now k ru)) (runs r)" and "next_rid r' = next_rid r"
  using assms by (auto simp: Sweep_mark_def Let_def split: if_splits dest: snapshotD)

lemma Sweep_mark_runs:
  assumes "Sweep_mark conf now r = (ds, sn, r')"
  shows "mget (runs r') k = map_option (expire conf now k) (mget (runs r) k)"
    and "wfm (runs r) \<Longrightarrow> wfm (runs r')"
  unfolding Sweep_mark_parts(2) [OF assms]
  by (rule map_pairs_map_of) (simp add: map_pairs_map_of wfm_def comp_def case_prod_unfold)

lemma Sweep_remove_cases:
  assumes "Sweep_remove conf d r = (sn, r')"
  obtains (stale) "runs r' = runs r" and "next_rid r' = next_rid r"
      and "\<And>ru. mget (runs r) (d_key d) = Some ru \<Longrightarrow> rid ru \<noteq> d_rid d"
  | (gone) ru where "mget (runs r) (d_key d) = Some ru" and "rid ru = d_rid d"
      and "runs r' = mdel (d_key d) (runs r)" and "next_rid r' = next_rid r"
  using assms by (auto simp: Sweep_remove_def dest!: snapshotD split: option.splits if_splits)

lemma Drop_runs:
  assumes "Drop iface conf account r p = (sn, r', p')"
  shows "runs r' = mdel_if (\<lambda>k ru. fst k = account) (runs r)" and "next_rid r' = next_rid r"
    and "p' = fold (\<lambda>(k, ru) p. if fst k = account \<and> r_port ru \<noteq> 0
                then snd (iface_Free iface p (fst k) (snd k) (r_token ru)) else p) (runs r) p"
  using assms by (auto simp: Drop_def Let_def split: prod.splits dest: snapshotD)

lemmas book_simps = book_inv_def run_ok_def

lemma book_run:
  "book_inv s \<Longrightarrow> mget (runs (s_reg s)) k = Some ru \<Longrightarrow>
     run_ok (s_leases s) (s_pend s) (next_rid (s_reg s)) k ru"
  unfolding book_inv_def by blast

lemma run_ok_expire: "run_ok ls ps n k ru \<Longrightarrow> run_ok ls ps n k (expire conf now k ru)"
  by (auto simp: run_ok_def expire_state)

lemma book_attach:
  assumes "book_inv s" and "Attach conf now k (s_reg s) = (Inr i, sn, r)"
  shows "book_inv (s\<lparr>s_reg := r, s_leases := (k, i) # s_leases s\<rparr>)"
  using assms(2)
proof (cases rule: Attach_ok)
  case new
  with assms(1) show ?thesis
    by (auto simp: book_simps leased_fresh waiting_fresh less_Suc_eq)
next
  case (again ru)
  with assms(1) book_run [OF assms(1) again(1)] show ?thesis
    by (auto simp: book_simps add_nonneg_pos)
qed

lemma book_release:
  assumes "book_inv s" and "(k, i) \<in> set (s_leases s)" and "detach conf now k i (s_reg s) = (sn, r)"
  shows "book_inv (s\<lparr>s_reg := r, s_leases := remove1 (k, i) (s_leases s)\<rparr>)"
proof -
  have sub: "\<forall>(k, i) \<in> set (remove1 (k, i) (s_leases s)). i < next_rid (s_reg s)"
    using assms(1) set_remove1_subset [of "(k, i)" "s_leases s"] by (auto simp: book_inv_def)
  have pos: "leased (s_leases s) k i > 0"
    using assms(2) by (simp add: leased_pos)
  from assms(3) show ?thesis
  proof (cases rule: detach_cases)
    case stale
    with assms(1,2) sub show ?thesis by (auto simp: book_simps leased_remove1)
  next
    case (more ru)
    with assms(1,2) sub show ?thesis by (auto simp: book_simps leased_remove1)
  next
    case (ended ru)
    with assms(1,2) sub show ?thesis by (auto simp: book_simps leased_remove1)
  next
    case (last ru)
    with assms(1,2) sub pos show ?thesis by (auto simp: book_simps leased_remove1)
  qed
qed

lemma book_finish:
  assumes "book_inv s" and "(k, i, Some answer) \<in> set (s_pend s)"
    and "Port_finish iface conf k i answer (s_reg s) (s_ports s) = (res, sn, r, p)"
  shows "book_inv (s\<lparr>s_reg := r, s_ports := p, s_pend := remove1 (k, i, Some answer) (s_pend s)\<rparr>)"
proof -
  have sub: "\<forall>(k, i, a) \<in> set (remove1 (k, i, Some answer) (s_pend s)). i < next_rid (s_reg s)"
    using assms(1) set_remove1_subset [of "(k, i, Some answer)" "s_pend s"] by (auto simp: book_inv_def)
  from assms(3) show ?thesis
  proof (cases rule: Port_finish_cases)
    case (cleaning ru)
    with book_run [OF assms(1) cleaning(2)] assms(1,2) sub show ?thesis
      by (auto simp: book_simps waiting_remove1)
  qed (use assms(1,2) sub in \<open>auto simp: book_simps waiting_remove1\<close>)
qed

lemma book_step:
  assumes "reg_step timely eph other iface conf s s'" and "book_inv s"
  shows "book_inv s'"
  using assms
proof (induction rule: reg_step.induct)
  case (attach k now s i sn r)
  then show ?case by (intro book_attach)
next
  case (release k i s now sn r)
  then show ?case by (intro book_release)
next
  case (ask k s i r)
  from ask(1) obtain ru where ru: "mget (runs (s_reg s)) k = Some ru" "r_state ru = Live" "i = rid ru"
    "r = s_reg s\<lparr>runs := mput k (ru\<lparr>allocating := allocating ru + 1\<rparr>) (runs (s_reg s))\<rparr>"
    by (elim Port_begin_waits)
  from ask(2) book_run [OF ask(2) ru(1)] ru(2-4) show ?case by (auto simp: book_simps)
next
  case (allocate k i s answer p)
  then have "\<forall>(k, i, a) \<in> set (remove1 (k, i, None) (s_pend s)). i < next_rid (s_reg s)"
    using set_remove1_subset [of "(k, i, None)" "s_pend s"] by (auto simp: book_inv_def)
  with allocate show ?case by (auto simp: book_simps waiting_remove1)
next
  case (finish k i answer s res sn r p)
  then show ?case by (intro book_finish)
next
  case (mark s now ds sn r)
  then show ?case
    by (auto simp: book_inv_def Sweep_mark_runs Sweep_mark_parts(3) run_ok_expire)
next
  case (gone s d ds sn r)
  from gone(2) show ?case
    by (cases rule: Sweep_remove_cases) (use gone(3) in \<open>auto simp: book_simps\<close>)
next
  case (drop s account sn r p)
  then show ?case
    by (auto simp: book_simps Drop_runs mget_mdel_if split: option.splits if_splits)
qed (auto simp: book_simps)

end
