(* ===== verification/Ephemeral_Safety.thy ===== *)
theory Ephemeral_Safety
  imports Ephemeral_Runs
begin

text \<open>
  The registry of runs and the allocator together. Inside the locale \<open>run_ports\<close>, which is all the
  registry knows of its allocator, \<open>ports_agree\<close> is shown to survive every step of every caller; the
  interpretation \<open>assigned_ports\<close> turns it into a theorem about the two programs' own definitions.
  Then the functional behaviour of a sweep, of the record's writer and of the record itself.
\<close>

section \<open>Runs and the allocator\<close>

text \<open>What the registry and the allocator agree on between steps: a run that is not being cleaned up
  holds the port it has, a waiting \<open>Port\<close> call waits for the run that is in the map, and what the
  sweep has in hand is being cleaned up.\<close>

definition run_agrees :: "('p \<Rightarrow> assignment \<Rightarrow> (int \<times> nat) option) \<Rightarrow> (string \<Rightarrow> bool) \<Rightarrow> 'p \<Rightarrow> assignment \<Rightarrow> run \<Rightarrow> bool" where
  "run_agrees held eph p k ru \<longleftrightarrow>
     (r_state ru = Live \<longrightarrow> eph (fst k)) \<and>
     (r_state ru \<noteq> Cleaning \<longrightarrow> r_port ru \<noteq> 0 \<longrightarrow> held p k = Some (r_port ru, r_token ru)) \<and>
     (r_state ru = Grace \<longrightarrow> r_port ru = 0 \<longrightarrow> allocating ru > 0)"

definition in_map :: "Registry \<Rightarrow> assignment \<Rightarrow> nat \<Rightarrow> (run_state \<Rightarrow> bool) \<Rightarrow> bool" where
  "in_map r k i P \<longleftrightarrow> (\<exists>ru. mget (runs r) k = Some ru \<and> rid ru = i \<and> P (r_state ru))"

definition pend_agrees ::
  "('p \<Rightarrow> assignment \<Rightarrow> (int \<times> nat) option) \<Rightarrow> (string \<Rightarrow> bool) \<Rightarrow> ('p, 'e) sys \<Rightarrow>
   assignment \<times> nat \<times> ('e + int \<times> nat) option \<Rightarrow> bool" where
  "pend_agrees held eph s = (\<lambda>(k, i, a).
     eph (fst k) \<and> in_map (s_reg s) k i (\<lambda>st. st \<noteq> Cleaning) \<and>
     (\<forall>q t. a = Some (Inr (q, t)) \<longrightarrow> held (s_ports s) k = Some (q, t)))"

definition due_agrees :: "('p, 'e) sys \<Rightarrow> due \<times> bool \<Rightarrow> bool" where
  "due_agrees s = (\<lambda>(d, f). in_map (s_reg s) (d_key d) (d_rid d) (\<lambda>st. st = Cleaning))"

definition ports_agree ::
  "('p \<Rightarrow> bool) \<Rightarrow> ('p \<Rightarrow> assignment \<Rightarrow> (int \<times> nat) option) \<Rightarrow> ('p \<Rightarrow> assignment \<Rightarrow> bool) \<Rightarrow>
   (string \<Rightarrow> bool) \<Rightarrow> ('p, 'e) sys \<Rightarrow> bool" where
  "ports_agree pinv held machine eph s \<longleftrightarrow>
     book_inv s \<and> pinv (s_ports s) \<and> (\<forall>k. eph (fst k) \<longrightarrow> \<not> machine (s_ports s) k) \<and>
     (\<forall>k ru. mget (runs (s_reg s)) k = Some ru \<longrightarrow> run_agrees held eph (s_ports s) k ru) \<and>
     (\<forall>x \<in> set (s_pend s). pend_agrees held eph s x) \<and>
     (\<forall>x \<in> set (s_due s). due_agrees s x) \<and>
     distinct (map (\<lambda>(d, f). d_key d) (s_due s))"

definition mk_iface ::
  "('p \<Rightarrow> string \<Rightarrow> string \<Rightarrow> ('e + int \<times> nat) \<times> 'p) \<Rightarrow> ('p \<Rightarrow> string \<Rightarrow> string \<Rightarrow> int \<Rightarrow> nat option \<times> 'p) \<Rightarrow>
   ('p \<Rightarrow> string \<Rightarrow> string \<Rightarrow> nat \<Rightarrow> bool \<times> 'p) \<Rightarrow> ('p, 'e) ports_iface" where
  "mk_iface for_run hold free = \<lparr>iface_ForRun = for_run, iface_Hold = hold, iface_Free = free\<rparr>"

text \<open>What the rest of the agent may do to the allocator under the registry: serve the machines of
  other accounts.\<close>

definition leaves_runs ::
  "('p \<Rightarrow> bool) \<Rightarrow> ('p \<Rightarrow> assignment \<Rightarrow> (int \<times> nat) option) \<Rightarrow> ('p \<Rightarrow> assignment \<Rightarrow> bool) \<Rightarrow>
   (string \<Rightarrow> bool) \<Rightarrow> 'p \<Rightarrow> 'p \<Rightarrow> bool" where
  "leaves_runs pinv held machine eph p p' \<longleftrightarrow>
     pinv p' \<and> held p' = held p \<and> (\<forall>k. eph (fst k) \<longrightarrow> \<not> machine p' k)"

lemma in_map_mput:
  "runs r' = mput k' ru' (runs r) \<Longrightarrow>
     in_map r' k i P \<longleftrightarrow> (if k = k' then rid ru' = i \<and> P (r_state ru') else in_map r k i P)"
  by (auto simp: in_map_def)

lemma in_map_mdel:
  "runs r' = mdel k' (runs r) \<Longrightarrow> in_map r' k i P \<longleftrightarrow> k \<noteq> k' \<and> in_map r k i P"
  by (auto simp: in_map_def)

lemma agree_run:
  "ports_agree pinv held machine eph s \<Longrightarrow> mget (runs (s_reg s)) k = Some ru \<Longrightarrow>
     run_agrees held eph (s_ports s) k ru \<and>
     run_ok (s_leases s) (s_pend s) (next_rid (s_reg s)) k ru"
  unfolding ports_agree_def book_inv_def by blast

lemma agree_pend:
  assumes "ports_agree pinv held machine eph s" and "(k, i, a) \<in> set (s_pend s)"
  obtains ru where "mget (runs (s_reg s)) k = Some ru" and "rid ru = i" and "r_state ru \<noteq> Cleaning"
    and "eph (fst k)" and "\<And>q t. a = Some (Inr (q, t)) \<Longrightarrow> held (s_ports s) k = Some (q, t)"
proof -
  from assms have "pend_agrees held eph s (k, i, a)" by (auto simp: ports_agree_def)
  then show ?thesis using that by (auto simp: pend_agrees_def in_map_def)
qed


lemma agreeI:
  assumes "book_inv s" and "pinv (s_ports s)" and "\<And>k. eph (fst k) \<Longrightarrow> \<not> machine (s_ports s) k"
    and "\<And>k ru. mget (runs (s_reg s)) k = Some ru \<Longrightarrow> run_agrees held eph (s_ports s) k ru"
    and "\<And>k i a. (k, i, a) \<in> set (s_pend s) \<Longrightarrow> pend_agrees held eph s (k, i, a)"
    and "\<And>d f. (d, f) \<in> set (s_due s) \<Longrightarrow> in_map (s_reg s) (d_key d) (d_rid d) (\<lambda>st. st = Cleaning)"
    and "distinct (map (\<lambda>(d, f). d_key d) (s_due s))"
  shows "ports_agree pinv held machine eph s"
  using assms unfolding ports_agree_def due_agrees_def by auto

lemma agree_parts:
  assumes "ports_agree pinv held machine eph s"
  shows "book_inv s" and "pinv (s_ports s)" and "eph (fst k) \<Longrightarrow> \<not> machine (s_ports s) k"
    and "(d, f) \<in> set (s_due s) \<Longrightarrow> in_map (s_reg s) (d_key d) (d_rid d) (\<lambda>st. st = Cleaning)"
    and "distinct (map (\<lambda>(d, f). d_key d) (s_due s))"
    and "x \<in> set (s_pend s) \<Longrightarrow> pend_agrees held eph s x"
  using assms unfolding ports_agree_def due_agrees_def by blast+

lemma agree_waiting:
  assumes "ports_agree pinv held machine eph s" and "mget (runs (s_reg s)) k = Some ru"
  shows "allocating ru > 0 \<longleftrightarrow> (\<exists>i a. (k, i, a) \<in> set (s_pend s))"
proof -
  have "(k, i, a) \<in> set (s_pend s) \<Longrightarrow> i = rid ru" for i a
    using agree_pend [OF assms(1)] assms(2) by (metis option.inject)
  moreover have "allocating ru = waiting (s_pend s) k (rid ru)"
    using agree_run [OF assms] by (simp add: run_ok_def)
  ultimately show ?thesis using waiting_pos [of "s_pend s" k "rid ru"] by auto
qed

lemma agree_same:
  assumes agree: "ports_agree pinv held machine eph s" and book: "book_inv s'"
    and same: "runs (s_reg s') = runs (s_reg s)" "s_ports s' = s_ports s" "set (s_pend s') \<subseteq> set (s_pend s)"
    and due: "set (s_due s') \<subseteq> set (s_due s)" "distinct (map (\<lambda>(d, f). d_key d) (s_due s'))"
  shows "ports_agree pinv held machine eph s'"
proof -
  have map: "in_map (s_reg s') = in_map (s_reg s)" by (simp add: in_map_def same fun_eq_iff)
  have pend: "pend_agrees held eph s' = pend_agrees held eph s" "due_agrees s' = due_agrees s"
    unfolding pend_agrees_def due_agrees_def map same(2) by simp_all
  show ?thesis
    using agree book due same(3) unfolding ports_agree_def pend same(1,2) by blast
qed

text \<open>Steps that change one run and leave the allocator alone.\<close>

lemma agree_put:
  assumes agree: "ports_agree pinv held machine eph s" and book: "book_inv s'"
    and runs: "runs (s_reg s') = mput k ru (runs (s_reg s))"
    and same: "s_ports s' = s_ports s" "s_due s' = s_due s"
    and pend: "\<And>x. x \<in> set (s_pend s') \<Longrightarrow> x = (k, rid ru, None) \<and> eph (fst k) \<or> x \<in> set (s_pend s)"
    and ru: "run_agrees held eph (s_ports s) k ru" "r_state ru \<noteq> Cleaning"
    and old: "\<And>ru'. mget (runs (s_reg s)) k = Some ru' \<Longrightarrow> rid ru' = rid ru \<and> r_state ru' \<noteq> Cleaning"
  shows "ports_agree pinv held machine eph s'"
proof -
  have map: "rid ru = i \<and> (\<exists>st. st \<noteq> Cleaning \<and> P st)" if "in_map (s_reg s) k i P" for i P
    using that old unfolding in_map_def by metis
  show ?thesis
  proof (rule agreeI)
    fix k' i a
    assume "(k', i, a) \<in> set (s_pend s')"
    from pend [OF this] show "pend_agrees held eph s' (k', i, a)"
    proof
      assume "(k', i, a) = (k, rid ru, None) \<and> eph (fst k)"
      with ru(2) show ?thesis by (auto simp: pend_agrees_def in_map_mput [OF runs])
    next
      assume "(k', i, a) \<in> set (s_pend s)"
      from agree_parts(6) [OF agree this] ru(2) map [of i "\<lambda>st. st \<noteq> Cleaning"] show ?thesis
        by (auto simp: pend_agrees_def in_map_mput [OF runs] same(1))
    qed
  next
    fix d f
    assume "(d, f) \<in> set (s_due s')"
    then have "in_map (s_reg s) (d_key d) (d_rid d) (\<lambda>st. st = Cleaning)"
      using agree_parts(4) [OF agree] same by simp
    with map [of "d_rid d" "\<lambda>st. st = Cleaning"] show "in_map (s_reg s') (d_key d) (d_rid d) (\<lambda>st. st = Cleaning)"
      by (auto simp: in_map_mput [OF runs])
  next
    fix k' ru'
    assume "mget (runs (s_reg s')) k' = Some ru'"
    then show "run_agrees held eph (s_ports s') k' ru'"
      using runs same ru(1) agree_run [OF agree, of k' ru'] by (auto split: if_splits)
  qed (simp_all add: same book agree_parts(2,3,5) [OF agree])
qed

lemma agree_del:
  assumes agree: "ports_agree pinv held machine eph s" and book: "book_inv s'"
    and runs: "runs (s_reg s') = mdel k (runs (s_reg s))"
    and same: "s_ports s' = s_ports s" and due: "set (s_due s') \<subseteq> set (s_due s)"
      "distinct (map (\<lambda>(d, f). d_key d) (s_due s'))" "\<And>d f. (d, f) \<in> set (s_due s') \<Longrightarrow> d_key d \<noteq> k"
    and pend: "set (s_pend s') \<subseteq> set (s_pend s)" "\<And>i a. (k, i, a) \<notin> set (s_pend s')"
  shows "ports_agree pinv held machine eph s'"
proof (rule agreeI)
  fix k' i a
  assume a: "(k', i, a) \<in> set (s_pend s')"
  with pend have "(k', i, a) \<in> set (s_pend s)" and "k' \<noteq> k" by auto
  with agree_parts(6) [OF agree this(1)] show "pend_agrees held eph s' (k', i, a)"
    by (auto simp: pend_agrees_def in_map_mdel [OF runs] same)
next
  fix d f
  assume "(d, f) \<in> set (s_due s')"
  with due have "(d, f) \<in> set (s_due s)" and "d_key d \<noteq> k" by auto
  with agree_parts(4) [OF agree this(1)]
  show "in_map (s_reg s') (d_key d) (d_rid d) (\<lambda>st. st = Cleaning)"
    by (auto simp: in_map_mdel [OF runs])
next
  fix k' ru'
  assume "mget (runs (s_reg s')) k' = Some ru'"
  then show "run_agrees held eph (s_ports s') k' ru'"
    using runs same agree_run [OF agree, of k' ru'] by (auto split: if_splits)
qed (simp_all add: same book due(2) agree_parts(2,3) [OF agree])

lemma agree_attach:
  assumes agree: "ports_agree pinv held machine eph s" and "eph (fst k)"
    and step: "Attach conf now k (s_reg s) = (Inr i, sn, r)"
  shows "ports_agree pinv held machine eph (s\<lparr>s_reg := r, s_leases := (k, i) # s_leases s\<rparr>)"
  using step
proof (cases rule: Attach_ok)
  case new
  let ?ru = "\<lparr>rid = i, r_state = Live, conns = 1, r_port = 0, r_token = 0, lastSeen = now, allocating = 0\<rparr>"
  show ?thesis
    by (rule agree_put [OF agree book_attach [OF agree_parts(1) [OF agree] step], where k = k and ru = ?ru])
      (use new assms(2) in \<open>auto simp: run_agrees_def\<close>)
next
  case (again ru)
  let ?ru = "ru\<lparr>r_state := Live, conns := conns ru + 1, lastSeen := now\<rparr>"
  show ?thesis
    by (rule agree_put [OF agree book_attach [OF agree_parts(1) [OF agree] step], where k = k and ru = ?ru])
      (use again assms(2) agree_run [OF agree again(1)] in \<open>auto simp: run_agrees_def\<close>)
qed

lemma agree_release:
  assumes agree: "ports_agree pinv held machine eph s" and l: "(k, i) \<in> set (s_leases s)"
    and step: "detach conf now k i (s_reg s) = (sn, r)"
  shows "ports_agree pinv held machine eph (s\<lparr>s_reg := r, s_leases := remove1 (k, i) (s_leases s)\<rparr>)"
proof -
  note book = book_release [OF agree_parts(1) [OF agree] l step]
  have live: "r_state ru = Live" if "mget (runs (s_reg s)) k = Some ru" "rid ru = i" for ru
    using agree_run [OF agree that(1)] l that(2) by (simp add: run_ok_def leased_pos)
  from step show ?thesis
  proof (cases rule: detach_cases)
    case stale
    show ?thesis
      by (rule agree_same [OF agree book]) (use stale(1) agree_parts(5) [OF agree] in simp_all)
  next
    case (more ru)
    let ?ru = "ru\<lparr>conns := conns ru - 1, lastSeen := now\<rparr>"
    show ?thesis
      by (rule agree_put [OF agree book, where k = k and ru = ?ru])
        (use more live [OF more(1,2)] agree_run [OF agree more(1)] in \<open>simp_all add: run_agrees_def\<close>)
  next
    case (ended ru)
    have none: "(k, j, a) \<notin> set (s_pend s)" for j a
      using agree_waiting [OF agree ended(1)] ended(5) by auto
    have "d_key d \<noteq> k" if "(d, f) \<in> set (s_due s)" for d f
      using agree_parts(4) [OF agree that] live [OF ended(1,2)] ended(1) by (auto simp: in_map_def)
    with none ended agree_parts(5) [OF agree] show ?thesis
      by (intro agree_del [OF agree book, where k = k]) auto
  next
    case (last ru)
    let ?ru = "ru\<lparr>conns := conns ru - 1, lastSeen := now, r_state := Grace\<rparr>"
    have "allocating ru \<ge> 0" using agree_run [OF agree last(1)] by (simp add: run_ok_def)
    then show ?thesis
      by (intro agree_put [OF agree book, where k = k and ru = ?ru])
        (use last live [OF last(1,2)] agree_run [OF agree last(1)] in \<open>auto simp: run_agrees_def\<close>)
  qed
qed

lemma run_ok_idle: "run_ok ls ps n k ru \<Longrightarrow> r_state ru \<noteq> Live \<Longrightarrow> conns ru = 0"
  unfolding run_ok_def by (metis leased_nonneg order.order_iff_strict)

lemma agree_ask:
  assumes agree: "ports_agree pinv held machine eph s" and step: "Port_begin k (s_reg s) = (PortWaits i, r)"
    and book: "book_inv (s\<lparr>s_reg := r, s_pend := (k, i, None) # s_pend s\<rparr>)"
  shows "ports_agree pinv held machine eph (s\<lparr>s_reg := r, s_pend := (k, i, None) # s_pend s\<rparr>)"
proof -
  from step obtain ru where ru: "mget (runs (s_reg s)) k = Some ru" "r_state ru = Live" "r_port ru = 0" "i = rid ru"
    "r = s_reg s\<lparr>runs := mput k (ru\<lparr>allocating := allocating ru + 1\<rparr>) (runs (s_reg s))\<rparr>"
    by (elim Port_begin_waits)
  from agree_run [OF agree ru(1)] ru(2) have "eph (fst k)" by (simp add: run_agrees_def)
  with ru agree_run [OF agree ru(1)] show ?thesis
    by (intro agree_put [OF agree book, where k = k and ru = "ru\<lparr>allocating := allocating ru + 1\<rparr>"])
      (auto simp: run_agrees_def)
qed

lemma agree_finish:
  assumes agree: "ports_agree pinv held machine eph s" and pend: "(k, i, Some answer) \<in> set (s_pend s)"
    and step: "Port_finish iface conf k i answer (s_reg s) (s_ports s) = (res, sn, r, p)"
    and nonzero: "\<And>q t. held (s_ports s) k = Some (q, t) \<Longrightarrow> q \<noteq> 0"
  shows "ports_agree pinv held machine eph
      (s\<lparr>s_reg := r, s_ports := p, s_pend := remove1 (k, i, Some answer) (s_pend s)\<rparr>)" (is "ports_agree _ _ _ _ ?s'")
proof -
  note book = book_finish [OF agree_parts(1) [OF agree] pend step]
  have sub: "set (remove1 (k, i, Some answer) (s_pend s)) \<subseteq> set (s_pend s)"
    by (rule set_remove1_subset)
  obtain ru where ru: "mget (runs (s_reg s)) k = Some ru" "rid ru = i" "r_state ru \<noteq> Cleaning" "eph (fst k)"
    and ans: "\<And>q t. answer = Inr (q, t) \<Longrightarrow> held (s_ports s) k = Some (q, t)"
    using agree_pend [OF agree pend] by auto
  have run: "run_agrees held eph (s_ports s) k ru" using agree_run [OF agree ru(1)] ..
  have zero: "allocating ru - 1 \<le> 0 \<longrightarrow> allocating ru = 1"
    using agree_waiting [OF agree ru(1)] pend by fastforce
  have put: "ports_agree pinv held machine eph ?s'" if "runs r = mput k ru' (runs (s_reg s))" "rid ru' = i" "p = s_ports s"
    "run_agrees held eph (s_ports s) k ru'" "r_state ru' \<noteq> Cleaning" for ru'
    by (rule agree_put [OF agree book, where k = k and ru = ru']) (use that ru sub in auto)
  from step show ?thesis
  proof (cases rule: Port_finish_cases)
    case stale
    with ru show ?thesis by blast
  next
    case (cleaning ru')
    with ru show ?thesis by simp
  next
    case (ended ru')
    with ru have ru': "ru' = ru" by simp
    have "(k, j, a) \<notin> set (remove1 (k, i, Some answer) (s_pend s))" for j a
    proof
      assume a: "(k, j, a) \<in> set (remove1 (k, i, Some answer) (s_pend s))"
      then have "(k, j, a) \<in> set (s_pend s)" using sub by blast
      with agree_pend [OF agree this] ru(1,2) have "j = i" by (metis option.inject)
      with a have "waiting (remove1 (k, i, Some answer) (s_pend s)) k i > 0" by (auto simp: waiting_pos)
      moreover have "waiting (s_pend s) k i = 1"
        using agree_run [OF agree ru(1)] ended(8) ru(2) ru' by (simp add: run_ok_def)
      ultimately show False using pend by (simp add: waiting_remove1)
    qed
    moreover have "d_key d \<noteq> k" if "(d, f) \<in> set (s_due s)" for d f
      using agree_parts(4) [OF agree that] ru(1,3) by (auto simp: in_map_def)
    ultimately show ?thesis
      using ended(10,11) agree_parts(5) [OF agree] sub
      by (intro agree_del [OF agree book, where k = k]) auto
  next
    case (refused ru' e)
    with ru have ru': "ru' = ru" by simp
    have "allocating ru - 1 > 0" if "r_state ru = Grace" "r_port ru = 0"
      using refused(6) ru' zero that agree_run [OF agree ru(1)] run_ok_idle by fastforce
    with refused ru ru' run show ?thesis
      by (intro put [of "ru\<lparr>allocating := allocating ru - 1\<rparr>"]) (auto simp: run_agrees_def)
  next
    case (bound ru' port token)
    with ru have ru': "ru' = ru" by simp
    from ans [OF bound(2)] nonzero have held: "held (s_ports s) k = Some (port, token)" and "port \<noteq> 0" by auto
    with bound ru ru' run show ?thesis
      by (intro put [of "ru\<lparr>allocating := allocating ru - 1, r_port := port, r_token := token\<rparr>"])
        (auto simp: run_agrees_def)
  next
    case (known ru' port token)
    with ru run show ?thesis
      by (intro put [of "ru\<lparr>allocating := allocating ru - 1\<rparr>"]) (auto simp: run_agrees_def)
  qed
qed

lemma agree_mark:
  assumes agree: "ports_agree pinv held machine eph s"
    and timely: "\<forall>(k, ru) \<in> set (runs (s_reg s)). allocating ru > 0 \<longrightarrow> \<not> is_due conf now k ru"
    and step: "Sweep_mark conf now (s_reg s) = (ds, sn, r)"
    and book: "book_inv (s\<lparr>s_reg := r, s_due := map (\<lambda>d. (d, False)) ds\<rparr>)"
  shows "ports_agree pinv held machine eph (s\<lparr>s_reg := r, s_due := map (\<lambda>d. (d, False)) ds\<rparr>)" (is "ports_agree _ _ _ _ ?s'")
proof (rule agreeI)
  have wf: "wfm (runs (s_reg s))" using agree_parts(1) [OF agree] by (simp add: book_inv_def)
  note runs = Sweep_mark_runs(1) [OF step]
  note ds = Sweep_mark_parts(1) [OF step]
  {
    fix k i a
    assume "(k, i, a) \<in> set (s_pend ?s')"
    then have p: "(k, i, a) \<in> set (s_pend s)" by simp
    obtain ru where ru: "mget (runs (s_reg s)) k = Some ru" "rid ru = i" "r_state ru \<noteq> Cleaning"
      using agree_pend [OF agree p] by metis
    with p agree_waiting [OF agree ru(1)] timely mget_set [OF wf] have "\<not> is_due conf now k ru"
      by blast
    with ru have "in_map (s_reg ?s') k i (\<lambda>st. st \<noteq> Cleaning)"
      by (simp add: in_map_def runs expire_state)
    with agree_parts(6) [OF agree p] show "pend_agrees held eph ?s' (k, i, a)"
      by (simp add: pend_agrees_def)
  next
    fix k ru
    assume "mget (runs (s_reg ?s')) k = Some ru"
    then obtain ru0 where "mget (runs (s_reg s)) k = Some ru0" and "ru = expire conf now k ru0"
      by (auto simp: runs)
    with agree_run [OF agree this(1)] show "run_agrees held eph (s_ports ?s') k ru"
      by (auto simp: run_agrees_def expire_state split: if_splits)
  next
    fix d f
    assume "(d, f) \<in> set (s_due ?s')"
    then obtain k ru where "mget (runs (s_reg s)) k = Some ru" and "is_due conf now k ru"
      and "d_key d = k" and "d_rid d = rid ru"
      by (auto simp: ds mget_set [OF wf])
    then show "in_map (s_reg ?s') (d_key d) (d_rid d) (\<lambda>st. st = Cleaning)"
      by (auto simp: in_map_def runs is_due_def)
  }
  have "map (\<lambda>(d, f). d_key d) (s_due ?s') = map fst (filter (\<lambda>(k, ru). is_due conf now k ru) (runs (s_reg s)))"
    by (simp add: ds comp_def case_prod_unfold)
  then show "distinct (map (\<lambda>(d, f). d_key d) (s_due ?s'))"
    using wfm_filter [OF wf] by (simp add: wfm_def)
qed (use book agree_parts(2,3) [OF agree] in simp_all)

lemma agree_gone:
  assumes agree: "ports_agree pinv held machine eph s" and due: "s_due s = (d, True) # ds"
    and step: "Sweep_remove conf d (s_reg s) = (sn, r)" and book: "book_inv (s\<lparr>s_reg := r, s_due := ds\<rparr>)"
  shows "ports_agree pinv held machine eph (s\<lparr>s_reg := r, s_due := ds\<rparr>)"
proof -
  have "in_map (s_reg s) (d_key d) (d_rid d) (\<lambda>st. st = Cleaning)"
    using agree_parts(4) [OF agree, of d True] due by simp
  then obtain ru where ru: "mget (runs (s_reg s)) (d_key d) = Some ru" "r_state ru = Cleaning" "rid ru = d_rid d"
    by (auto simp: in_map_def)
  have none: "(d_key d, j, a) \<notin> set (s_pend s)" for j a
    using agree_pend [OF agree, of "d_key d" j a] ru(1,2) by (metis option.inject)
  have dist: "distinct (map (\<lambda>(d, f). d_key d) ((d, True) # ds))"
    using agree_parts(5) [OF agree] unfolding due .
  then have other: "d_key d' \<noteq> d_key d" if "(d', f) \<in> set ds" for d' f
    using that by (force simp: image_iff)
  from step show ?thesis
  proof (cases rule: Sweep_remove_cases)
    case stale
    with ru show ?thesis by blast
  next
    case (gone ru')
    with none other dist due show ?thesis
      by (intro agree_del [OF agree book, where k = "d_key d"]) auto
  qed
qed

text \<open>Steps that change the allocator, and keep what every run that is not being cleaned up holds.\<close>

lemma agree_ports:
  assumes agree: "ports_agree pinv held machine eph s" and book: "book_inv s'"
    and same: "s_reg s' = s_reg s" "map fst (s_due s') = map fst (s_due s)"
    and pend: "\<And>k i a. (k, i, a) \<in> set (s_pend s') \<Longrightarrow> (k, i, a) \<in> set (s_pend s) \<or>
        (k, i, None) \<in> set (s_pend s) \<and> (\<forall>q t. a = Some (Inr (q, t)) \<longrightarrow> held (s_ports s') k = Some (q, t))"
    and p: "pinv (s_ports s')" "\<And>k. eph (fst k) \<Longrightarrow> \<not> machine (s_ports s') k"
    and held: "\<And>k ru qt. mget (runs (s_reg s)) k = Some ru \<Longrightarrow> r_state ru \<noteq> Cleaning \<Longrightarrow>
        held (s_ports s) k = Some qt \<Longrightarrow> held (s_ports s') k = Some qt"
  shows "ports_agree pinv held machine eph s'"
proof (rule agreeI)
  have due: "d \<in> fst ` set (s_due s')" if "(d, f) \<in> set (s_due s')" for d f
    using that by force
  have "fst ` set (s_due s') = fst ` set (s_due s)" using same(2) by (metis set_map)
  then show "in_map (s_reg s') (d_key d) (d_rid d) (\<lambda>st. st = Cleaning)" if "(d, f) \<in> set (s_due s')" for d f
    using due [OF that] agree_parts(4) [OF agree] same(1) by auto
  have "map (\<lambda>(d, f). d_key d) (s_due s') = map d_key (map fst (s_due s'))"
    and "map (\<lambda>(d, f). d_key d) (s_due s) = map d_key (map fst (s_due s))"
    by (simp_all add: comp_def case_prod_unfold)
  then show "distinct (map (\<lambda>(d, f). d_key d) (s_due s'))"
    using agree_parts(5) [OF agree] same(2) by metis
next
  fix k ru
  assume "mget (runs (s_reg s')) k = Some ru"
  then have "mget (runs (s_reg s)) k = Some ru" by (simp add: same)
  with agree_run [OF agree this] held [OF this] show "run_agrees held eph (s_ports s') k ru"
    by (auto simp: run_agrees_def)
next
  fix k i a
  assume a: "(k, i, a) \<in> set (s_pend s')"
  then obtain a' where p': "(k, i, a') \<in> set (s_pend s)" using pend by blast
  obtain ru where ru: "mget (runs (s_reg s)) k = Some ru" "rid ru = i" "r_state ru \<noteq> Cleaning" "eph (fst k)"
    using agree_pend [OF agree p'] by metis
  have "held (s_ports s') k = Some (q, t)" if "a = Some (Inr (q, t))" for q t
    using pend [OF a] that held [OF ru(1,3)] agree_pend [OF agree, of k i a] by metis
  with ru show "pend_agrees held eph s' (k, i, a)"
    by (auto simp: pend_agrees_def in_map_def same)
qed (simp_all add: book p)

lemma agree_kept:
  assumes agree: "ports_agree pinv held machine eph s" and due: "s_due s = d # ds"
  shows "ports_agree pinv held machine eph (s\<lparr>s_due := ds\<rparr>)"
  using agree_parts(1,5) [OF agree] due
  by (intro agree_same [OF agree]) (auto simp: book_inv_def)

text \<open>Dropping an account none of whose runs is in flight.\<close>

lemma agree_drop:
  assumes agree: "ports_agree pinv held machine eph s" and book: "book_inv (s\<lparr>s_reg := r, s_ports := p\<rparr>)"
    and pend: "\<And>k i a. (k, i, a) \<in> set (s_pend s) \<Longrightarrow> fst k \<noteq> account"
    and due: "\<And>d f. (d, f) \<in> set (s_due s) \<Longrightarrow> fst (d_key d) \<noteq> account"
    and runs: "runs r = mdel_if (\<lambda>k ru. fst k = account) (runs (s_reg s))"
    and p: "pinv p" "\<And>k. eph (fst k) \<Longrightarrow> \<not> machine p k"
    and held: "\<And>k. fst k \<noteq> account \<Longrightarrow> held p k = held (s_ports s) k"
  shows "ports_agree pinv held machine eph (s\<lparr>s_reg := r, s_ports := p\<rparr>)" (is "ports_agree _ _ _ _ ?s'")
proof (rule agreeI)
  have wf: "wfm (runs (s_reg s))" using agree_parts(1) [OF agree] by (simp add: book_inv_def)
  have get: "mget (runs r) k = (if fst k = account then None else mget (runs (s_reg s)) k)" for k
    by (simp add: runs mget_mdel_if [OF wf] split: option.splits)
  {
    fix k i a
    assume "(k, i, a) \<in> set (s_pend ?s')"
    then have "(k, i, a) \<in> set (s_pend s)" by simp
    with pend [OF this] agree_parts(6) [OF agree this] show "pend_agrees held eph ?s' (k, i, a)"
      by (simp add: pend_agrees_def in_map_def get held)
  next
    fix d f
    assume "(d, f) \<in> set (s_due ?s')"
    then have "(d, f) \<in> set (s_due s)" by simp
    with due [OF this] agree_parts(4) [OF agree this]
    show "in_map (s_reg ?s') (d_key d) (d_rid d) (\<lambda>st. st = Cleaning)"
      by (simp add: in_map_def get)
  next
    fix k ru
    assume "mget (runs (s_reg ?s')) k = Some ru"
    then have "mget (runs (s_reg s)) k = Some ru" and "fst k \<noteq> account" by (auto simp: get split: if_splits)
    with agree_run [OF agree this(1)] show "run_agrees held eph (s_ports ?s') k ru"
      by (simp add: run_agrees_def held)
  }
qed (use book p agree_parts(5) [OF agree] in simp_all)

lemma mk_iface_sel [simp]:
  "iface_ForRun (mk_iface for_run hold free) = for_run" "iface_Hold (mk_iface for_run hold free) = hold"
  "iface_Free (mk_iface for_run hold free) = free"
  by (simp_all add: mk_iface_def)

context run_ports
begin

lemma free_other:
  assumes "inv p"
  shows "inv (snd (free p a c t)) \<and> machine (snd (free p a c t)) = machine p \<and>
    (\<forall>k. k \<noteq> (a, c) \<longrightarrow> held (snd (free p a c t)) k = held p k)"
proof (cases "free p a c t")
  case (Pair b p')
  with assms free_ok [of p a c t p'] free_refused [of p a c t p'] show ?thesis
    by (cases b) auto
qed

lemma drop_frees:
  assumes "inv p"
  shows "inv (fold (\<lambda>(k, ru) p. if fst k = account \<and> r_port ru \<noteq> 0
      then snd (free p (fst k) (snd k) (r_token ru)) else p) ks p) \<and>
    machine (fold (\<lambda>(k, ru) p. if fst k = account \<and> r_port ru \<noteq> 0
      then snd (free p (fst k) (snd k) (r_token ru)) else p) ks p) = machine p \<and>
    (\<forall>k. fst k \<noteq> account \<longrightarrow> held (fold (\<lambda>(k, ru) p. if fst k = account \<and> r_port ru \<noteq> 0
      then snd (free p (fst k) (snd k) (r_token ru)) else p) ks p) k = held p k)"
  using assms
proof (induction ks arbitrary: p)
  case Nil
  then show ?case by simp
next
  case (Cons x ks)
  obtain a c ru where x: "x = ((a, c), ru)" by (cases x) auto
  show ?case
  proof (cases "a = account \<and> r_port ru \<noteq> 0")
    case True
    note f = free_other [OF Cons.prems, of a c "r_token ru"]
    from f Cons.IH [of "snd (free p a c (r_token ru))"] True show ?thesis
      by (simp add: x)
  next
    case False
    with Cons.IH [OF Cons.prems] show ?thesis by (auto simp: x)
  qed
qed

lemma agree_step:
  assumes step: "reg_step True eph (leaves_runs inv held machine eph) (mk_iface for_run hold free) conf s s'"
    and agree: "ports_agree inv held machine eph s"
  shows "ports_agree inv held machine eph s'"
proof -
  note book = book_step [OF step agree_parts(1) [OF agree]]
  note inv = agree_parts(2) [OF agree]
  from step show ?thesis
  proof cases
    case (attach k now i sn r)
    with agree show ?thesis by (simp add: agree_attach)
  next
    case (release k i now sn r)
    with agree show ?thesis by (simp add: agree_release)
  next
    case (ask k i r)
    with agree_ask [OF agree ask(2)] book show ?thesis by simp
  next
    case (allocate k i answer p)
    have "eph (fst k)" using agree_pend [OF agree allocate(2)] by metis
    then have m: "\<not> machine (s_ports s) k" by (rule agree_parts(3) [OF agree])
    have call: "for_run (s_ports s) (fst k) (snd k) = (answer, p)" using allocate(3) by (simp add: mk_iface_def)
    have p: "inv p \<and> machine p = machine (s_ports s) \<and>
        (\<forall>q t. answer = Inr (q, t) \<longrightarrow> held p k = Some (q, t)) \<and>
        (\<forall>k' qt. held (s_ports s) k' = Some qt \<longrightarrow> held p k' = Some qt)"
    proof (cases answer)
      case (Inl e)
      with for_run_refused [OF inv] call show ?thesis by simp
    next
      case (Inr qt)
      then have c: "for_run (s_ports s) (fst k) (snd k) = (Inr (fst qt, snd qt), p)" using call by simp
      have known: "qt = qt'" if "held (s_ports s) k = Some qt'" for qt'
        using for_run_known [OF inv _ c] that by simp
      from for_run_ok [OF inv _ c] m known Inr show ?thesis by auto
    qed
    show ?thesis
    proof (rule agree_ports [OF agree book])
      fix k' j a
      assume "(k', j, a) \<in> set (s_pend s')"
      then have "(k', j, a) = (k, i, Some answer) \<or> (k', j, a) \<in> set (s_pend s)"
        using allocate(1) set_remove1_subset [of "(k, i, None)" "s_pend s"] by auto
      then show "(k', j, a) \<in> set (s_pend s) \<or>
        (k', j, None) \<in> set (s_pend s) \<and> (\<forall>q t. a = Some (Inr (q, t)) \<longrightarrow> held (s_ports s') k' = Some (q, t))"
        using allocate(1,2) p by auto
    next
      fix k' ru qt
      assume "held (s_ports s) k' = Some qt"
      with p allocate(1) show "held (s_ports s') k' = Some qt" by (cases k', cases qt) simp
    qed (use allocate(1) p agree_parts(3) [OF agree] in simp_all)
  next
    case (finish k i answer res sn r p)
    from agree_finish [OF agree finish(2,3)] held_nonzero [OF inv] finish(1) show ?thesis by blast
  next
    case (mark now ds sn r)
    with agree_mark [OF agree _ mark(4)] book show ?thesis by simp
  next
    case (kept d ds)
    with agree show ?thesis by (simp add: agree_kept)
  next
    case (freed d ds)
    have d: "in_map (s_reg s) (d_key d) (d_rid d) (\<lambda>st. st = Cleaning)"
      using agree_parts(4) [OF agree, of d False] freed(2) by simp
    have p: "inv (s_ports s') \<and> machine (s_ports s') = machine (s_ports s) \<and>
        (\<forall>k. k \<noteq> d_key d \<longrightarrow> held (s_ports s') k = held (s_ports s) k)"
      using free_other [OF inv, of "fst (d_key d)" "snd (d_key d)"] inv
      by (simp add: freed(1) Sweep_free_def mk_iface_def)
    show ?thesis
    proof (rule agree_ports [OF agree book])
      fix k ru qt
      assume k: "mget (runs (s_reg s)) k = Some ru" "r_state ru \<noteq> Cleaning" and h: "held (s_ports s) k = Some qt"
      from k d have "k \<noteq> d_key d" by (auto simp: in_map_def)
      with p h show "held (s_ports s') k = Some qt" by metis
    qed (use freed p agree_parts(3) [OF agree] in auto)
  next
    case (gone d ds sn r)
    with agree_gone [OF agree gone(2,3)] book show ?thesis by simp
  next
    case (drop account sn r p)
    have p: "inv p \<and> machine p = machine (s_ports s) \<and> (\<forall>k. fst k \<noteq> account \<longrightarrow> held p k = held (s_ports s) k)"
      unfolding Drop_runs(3) [OF drop(3)] mk_iface_sel by (rule drop_frees [OF inv])
    show ?thesis
      unfolding drop(1)
      by (rule agree_drop [OF agree book [unfolded drop(1)], where account = account])
        (use drop(2) p agree_parts(3) [OF agree] Drop_runs(1) [OF drop(3)] in fastforce)+
  next
    case (other p)
    then show ?thesis
      by (intro agree_ports [OF agree book]) (auto simp: leaves_runs_def)
  qed
qed

lemma agree_distinct:
  assumes "ports_agree inv held machine eph s"
    and "mget (runs (s_reg s)) k = Some ru" and "mget (runs (s_reg s)) k' = Some ru'" and "k \<noteq> k'"
    and "r_state ru \<noteq> Cleaning" and "r_state ru' \<noteq> Cleaning" and "r_port ru \<noteq> 0"
  shows "r_port ru \<noteq> r_port ru'"
proof
  assume eq: "r_port ru = r_port ru'"
  with agree_run [OF assms(1,2)] agree_run [OF assms(1,3)] assms(5-7)
  have "held (s_ports s) k = Some (r_port ru, r_token ru)"
    and "held (s_ports s) k' = Some (r_port ru, r_token ru')"
    by (auto simp: run_agrees_def)
  with held_inj [OF agree_parts(2) [OF assms(1)]] assms(4) show False by blast
qed

end

context run_ports
begin

lemma restore_entry_agrees:
  assumes agree: "ports_agree inv held machine eph (started r p :: ('p, 'e) sys)"
    and step: "restore_entry (mk_iface for_run hold free) now e (r, p) = (r', p')"
  shows "ports_agree inv held machine eph (started r' p' :: ('p, 'e) sys)"
proof -
  obtain k q st secs where e: "e = (k, q, st, secs)" by (cases e) auto
  note inv = agree_parts(2) [OF agree]
  have wf: "wfm (runs r)" using agree_parts(1) [OF agree] by (simp add: book_inv_def started_def)
  obtain h p1 where h: "hold p (fst k) (snd k) q = (h, p1)" by (cases "hold p (fst k) (snd k) q")
  define ru where "ru = \<lparr>rid = next_rid r, r_state = (if h = None then Cleaning else if st = Live then Grace else st), conns = 0, r_port = q,
     r_token = (case h of None \<Rightarrow> 0 | Some t \<Rightarrow> t), lastSeen = (if st = Live then now else secs * second), allocating = 0\<rparr>"
  from step h have r': "r' = r\<lparr>runs := mput k ru (runs r), next_rid := next_rid r + 1\<rparr>" and p': "p' = p1"
    by (auto simp: e restore_entry_def ru_def Let_def split: option.splits)
  have p1: "inv p1 \<and> machine p1 = machine p \<and> held p1 = (case h of None \<Rightarrow> held p | Some t \<Rightarrow> (held p)(k \<mapsto> (q, t)))"
    using hold_ok [of p "fst k" "snd k" q] hold_refused [of p "fst k" "snd k" q] inv h
    by (cases h) (auto simp: started_def)
  have ru_st: "r_state ru \<noteq> Live" by (auto simp: ru_def)
  have ru: "run_agrees held eph p1 k ru"
    using p1 held_nonzero [of p1 k q] by (cases h) (auto simp: run_agrees_def ru_def)
  show ?thesis
  proof (rule agreeI)
    fix k' ru'
    assume "mget (runs (s_reg (started r' p' :: ('p, 'e) sys))) k' = Some ru'"
    then have "mget (mput k ru (runs r)) k' = Some ru'" by (simp add: started_def r')
    then consider "k' = k" "ru' = ru" | "k' \<noteq> k" "mget (runs r) k' = Some ru'" by (auto split: if_splits)
    then show "run_agrees held eph (s_ports (started r' p' :: ('p, 'e) sys)) k' ru'"
    proof cases
      case 1
      with ru show ?thesis by (simp add: started_def p')
    next
      case 2
      with agree_run [OF agree, of k' ru'] p1 show ?thesis
        by (cases h) (auto simp: run_agrees_def started_def p')
    qed
  next
    show "book_inv (started r' p' :: ('p, 'e) sys)"
      unfolding book_inv_def
    proof (intro conjI allI impI)
      fix k' ru'
      assume "mget (runs (s_reg (started r' p' :: ('p, 'e) sys))) k' = Some ru'"
      then have "mget (mput k ru (runs r)) k' = Some ru'" by (simp add: started_def r')
      then consider "k' = k" "ru' = ru" | "k' \<noteq> k" "mget (runs r) k' = Some ru'" by (auto split: if_splits)
      then show "run_ok (s_leases (started r' p' :: ('p, 'e) sys)) (s_pend (started r' p' :: ('p, 'e) sys))
           (next_rid (s_reg (started r' p' :: ('p, 'e) sys))) k' ru'"
      proof cases
        case 1
        with ru_st show ?thesis by (simp add: started_def r' run_ok_def) (simp add: ru_def)
      next
        case 2
        with agree_run [OF agree, of k' ru'] show ?thesis
          by (simp add: started_def r' run_ok_def)
      qed
    qed (use wf in \<open>simp_all add: started_def r'\<close>)
  qed (use agree_parts(3) [OF agree] p1 in \<open>simp_all add: started_def p'\<close>)
qed

lemma restore_agrees:
  assumes "inv p0" and "\<And>k. eph (fst k) \<Longrightarrow> \<not> machine p0 k"
    and "Restore (mk_iface for_run hold free) conf now f new_Registry p0 = (ok, sn, r, p)"
  shows "ports_agree inv held machine eph (started r p :: ('p, 'e) sys)"
proof -
  let ?I = "\<lambda>(r, p). ports_agree inv held machine eph (started r p :: ('p, 'e) sys)"
  let ?fn = "\<lambda>line rp. case parse_run_line line of None \<Rightarrow> rp | Some e \<Rightarrow> restore_entry (mk_iface for_run hold free) now e rp"
  have start: "?I (new_Registry, p0)"
    using assms(1,2) by (auto intro!: agreeI simp: started_def new_Registry_def book_inv_def)
  have "?I (snd (ReadRecord f ?fn (new_Registry, p0)))"
  proof (rule ReadRecord_invariant)
    fix l and s :: "Registry \<times> 'p"
    assume I: "?I s"
    show "?I (?fn l s)"
    proof (cases "parse_run_line l")
      case (Some e)
      obtain r p r' p' where s: "s = (r, p)" and "restore_entry (mk_iface for_run hold free) now e (r, p) = (r', p')"
        by (cases s, cases "restore_entry (mk_iface for_run hold free) now e s") auto
      with restore_entry_agrees [OF _ this(2)] I Some show ?thesis by simp
    qed (use I in simp)
  qed (rule start)
  moreover obtain ok' r' p' where read: "readRecord f (restore_entry (mk_iface for_run hold free) now) (new_Registry, p0) = (ok', r', p')"
    by (cases "readRecord f (restore_entry (mk_iface for_run hold free) now) (new_Registry, p0)") auto
  ultimately have I: "?I (r', p')" by (simp add: readRecord_def)
  show ?thesis
  proof (cases "conf_Dir conf = []")
    case True
    with assms(3) start show ?thesis by (simp add: Restore_def)
  next
    case False
    with assms(3) read have p: "p = p'" and r: "runs r = runs r'" "next_rid r = next_rid r'"
      by (auto simp: Restore_def Let_def snapshot_def split: if_splits)
    from I show ?thesis
      unfolding p by (auto simp: ports_agree_def started_def book_inv_def r in_map_def)
  qed
qed

lemma reachable_agrees:
  assumes "inv p0" and "\<And>k. eph (fst k) \<Longrightarrow> \<not> machine p0 k"
    and "Restore (mk_iface for_run hold free) conf now f new_Registry p0 = (ok, sn, r, p)"
    and "(reg_step True eph (leaves_runs inv held machine eph) (mk_iface for_run hold free) conf)\<^sup>*\<^sup>* (started r p) s"
  shows "ports_agree inv held machine eph s"
  using assms(4)
proof (induction rule: rtranclp_induct)
  case base
  show ?case by (rule restore_agrees [OF assms(1-3)])
next
  case (step s s')
  show ?case by (rule agree_step [OF step(2,3)])
qed

end

lemma For_effective:
  assumes "For conf p a u c = (r, p')" and "ports_inv p"
  shows "ports_inv p' \<and> (effective p' = effective p \<or>
    (\<exists>e. \<not> e_ephemeral e \<and> mget (effective p) (a, c) = None \<and> effective p' = mput (a, c) e (effective p)))"
proof -
  consider "p' = p" | "p' = snd (load p)"
    | base want r1 where "decide_port conf (snd (load p)) (a, c) base want False = (r1, p')"
    using assms(1) entry_of_snd [of p "(a, c)"]
    by (fastforce simp: For_def split: sum.splits if_splits prod.splits option.splits)
  then show ?thesis
  proof cases
    case 1
    with assms(2) show ?thesis by simp
  next
    case 2
    with load_inv [OF assms(2)] show ?thesis by simp
  next
    case 3
    note inv = decide_port_inv [OF load_inv [OF assms(2)] 3]
    from 3 show ?thesis
    proof (cases rule: decide_port_cases)
      case (refused err)
      with inv show ?thesis by simp
    next
      case (known e)
      with inv show ?thesis by simp
    next
      case (fresh e p1)
      with inv show ?thesis by auto
    qed
  qed
qed

text \<open>Serving the machines of the accounts that are not ephemeral is what \<open>leaves_runs\<close> allows.\<close>

lemma For_leaves_runs:
  assumes "obj_inv (conf, p)" and "\<And>k. eph (fst k) \<Longrightarrow> \<not> obj_machine (conf, p) k" and "\<not> eph a"
    and "valid_conf conf'"
  shows "leaves_runs obj_inv obj_held obj_machine eph (conf, p) (conf', snd (For conf p a u c))"
proof -
  obtain r p' where r: "For conf p a u c = (r, p')" by (cases "For conf p a u c")
  from For_effective [OF r] assms(1) have inv: "ports_inv p'"
    and eff: "effective p' = effective p \<or>
      (\<exists>e. \<not> e_ephemeral e \<and> mget (effective p) (a, c) = None \<and> effective p' = mput (a, c) e (effective p))"
    by (auto simp: obj_inv_def)
  from eff have held: "run_held p' = run_held p"
    and machine: "\<And>k. is_machine p' k \<Longrightarrow> is_machine p k \<or> fst k = a"
    by (auto simp: run_held_def is_machine_def fun_eq_iff split: if_splits)
  show ?thesis
    using inv held machine assms(2-4)
    by (fastforce simp: leaves_runs_def r obj_inv_def obj_held_def obj_machine_def)
qed

end
