(* ===== verification/Ephemeral_Properties.thy ===== *)
theory Ephemeral_Properties
  imports Ephemeral_Safety
begin

text \<open>
  What the registry of runs promises: the record's line format as an instance of \<open>line_record\<close>, what a
  sweep does to each run, the properties themselves over the allocator's own definitions, and the
  schedule on which an allocation outlives its run. \<open>exec\<close> takes one step of \<open>reg_step\<close> as a function,
  so that schedules evaluate.
\<close>

section \<open>The record\<close>

definition run_line_ok :: "run_entry \<Rightarrow> bool" where
  "run_line_ok = (\<lambda>((account, client), port, st, secs).
     safe_name account \<and> safe_name client \<and> in_int64 port \<and> in_int64 secs)"

lemma state_String_plain:
  "list_all plain (state_String st)" "CHR '':'' \<notin> set (state_String st)" "length (state_String st) \<le> 8"
  by (cases st; simp add: plain_def)+

interpretation ephemeral_lines: line_record render_run_line parse_run_line run_line_ok
proof
  fix e
  assume "run_line_ok e"
  then obtain account client port st secs
    where e: "e = ((account, client), port, st, secs)" and a: "safe_name account" and c: "safe_name client"
      and p: "in_int64 port" "in_int64 secs"
    by (cases e) (auto simp: run_line_ok_def)
  from a have hd: "hd (render_run_line e) \<noteq> CHR ''#''"
    by (cases account) (auto simp: e render_run_line_def safe_name_def)
  from a c Itoa_length [OF p(1)] Itoa_length [OF p(2)] state_String_plain(3) [of st]
  have "length (render_run_line e) < max_token"
    by (simp add: e render_run_line_def safe_name_def max_token_def)
  moreover from a c Itoa_plain state_String_plain(1) [of st] have "list_all plain (render_run_line e)"
    by (auto simp: e render_run_line_def safe_name_def list_all_iff plain_def)
  ultimately show "record_line (render_run_line e)"
    using a hd by (intro record_line_plain) (auto simp: e render_run_line_def)
  from a c have "CHR '':'' \<notin> set account" and "CHR '':'' \<notin> set client"
    by (auto simp: safe_name_def list_all_iff)
  then have "Split CHR '':'' (render_run_line e) = [account, client, Itoa port, state_String st, Itoa secs]"
    by (simp add: e render_run_line_def Itoa_no_colon state_String_plain)
  with p show "parse_run_line (render_run_line e) = Some e"
    by (cases st) (simp_all add: e parse_run_line_def Atoi_Itoa)
qed

lemma fold_snoc: "fold (\<lambda>e out. out @ [e]) es out = out @ es"
  by (induction es arbitrary: out) auto

lemma write_snap_older: "s_gen s \<le> written w \<Longrightarrow> write_snap disk (Some s) w = w"
  by (simp add: write_snap_def)

lemma write_snap_newer:
  "written w < s_gen s \<Longrightarrow> write_snap True (Some s) w = \<lparr>written = s_gen s, rec_file = File (record_body (s_lines s))\<rparr>"
  by (cases w) (simp add: write_snap_def WriteRecord_def)

lemma writes_older:
  "\<forall>s \<in> set ss. s_gen s \<le> written w \<Longrightarrow> fold (\<lambda>s. write_snap disk (Some s)) ss w = w"
  by (induction ss) (auto simp: write_snap_older)

lemma writes_bound:
  "\<forall>s \<in> set ss. s_gen s < n \<Longrightarrow> written w < n \<Longrightarrow> written (fold (\<lambda>s. write_snap disk (Some s)) ss w) < n"
  by (induction ss arbitrary: w) (auto simp: write_snap_def)

section \<open>Sweeping\<close>

lemma is_due_iff:
  "is_due conf now k ru \<longleftrightarrow>
     (\<forall>f. Enrolled conf = Some f \<longrightarrow> f (fst k)) \<and>
     (r_state ru = Cleaning \<or> r_state ru = Grace \<and> time_Sub now (lastSeen ru) \<ge> reg_grace conf)"
  by (auto simp: is_due_def expire_def split: option.splits)

context run_ports
begin

text \<open>Working off a list of runs with distinct keys touches, for each, only its own key.\<close>

lemma Sweep_due_spec:
  assumes "distinct (map d_key ds)" and "inv p"
    and "\<forall>d \<in> set ds. \<exists>ru. mget (runs r) (d_key d) = Some ru \<and> rid ru = d_rid d"
    and "Sweep_due (mk_iface for_run hold free) conf cleanup ds r p = (r', p')"
  shows "inv p' \<and>
    (\<forall>k. mget (runs r') k = (if k \<in> d_key ` set ds \<and> cleanup k then None else mget (runs r) k)) \<and>
    (\<forall>k. k \<notin> d_key ` set ds \<or> \<not> cleanup k \<longrightarrow> held p' k = held p k) \<and>
    (\<forall>d q. d \<in> set ds \<longrightarrow> cleanup (d_key d) \<longrightarrow> d_token d \<noteq> 0 \<longrightarrow>
       held p (d_key d) = Some (q, d_token d) \<longrightarrow> held p' (d_key d) = None)"
  using assms
proof (induction ds arbitrary: r p)
  case Nil
  then show ?case by simp
next
  case (Cons d ds)
  show ?case
  proof (cases "cleanup (d_key d)")
    case False
    from Cons.prems False have "Sweep_due (mk_iface for_run hold free) conf cleanup ds r p = (r', p')" by simp
    from Cons.IH [OF _ _ _ this] Cons.prems(1-3) False show ?thesis by auto
  next
    case True
    obtain r1 sn where r1: "Sweep_remove conf d r = (sn, r1)" by (cases "Sweep_remove conf d r")
    obtain p1 where p1: "Sweep_free (mk_iface for_run hold free) d p = p1" by blast
    from Cons.prems(4) True r1 p1
    have rest: "Sweep_due (mk_iface for_run hold free) conf cleanup ds r1 p1 = (r', p')" by simp
    have runs1: "runs r1 = mdel (d_key d) (runs r)"
      using r1 by (cases rule: Sweep_remove_cases) (use Cons.prems(3) in auto)
    have held1: "inv p1 \<and> (\<forall>k. k \<noteq> d_key d \<longrightarrow> held p1 k = held p k)"
      using free_other [OF Cons.prems(2), of "fst (d_key d)" "snd (d_key d)"] Cons.prems(2) p1
      by (auto simp: Sweep_free_def split: if_splits)
    have freed: "held p1 (d_key d) = None"
      if t: "d_token d \<noteq> 0" and h: "held p (d_key d) = Some (q, d_token d)" for q
    proof -
      obtain b p2 where b: "free p (fst (d_key d)) (snd (d_key d)) (d_token d) = (b, p2)"
        by (cases "free p (fst (d_key d)) (snd (d_key d)) (d_token d)")
      have b
        using free_refused [OF Cons.prems(2), of "fst (d_key d)" "snd (d_key d)" "d_token d" p2] b t h
        by (cases b) auto
      then show ?thesis
        using free_ok [OF Cons.prems(2), of "fst (d_key d)" "snd (d_key d)" "d_token d" p2] b t p1
        by (auto simp: Sweep_free_def)
    qed
    have key: "d_key d \<notin> d_key ` set ds" using Cons.prems(1) by auto
    have "\<forall>d \<in> set ds. \<exists>ru. mget (runs r1) (d_key d) = Some ru \<and> rid ru = d_rid d"
      using Cons.prems(3) key by (simp add: runs1) (metis imageI)
    then have IH: "inv p' \<and>
        (\<forall>k. mget (runs r') k = (if k \<in> d_key ` set ds \<and> cleanup k then None else mget (runs r1) k)) \<and>
        (\<forall>k. k \<notin> d_key ` set ds \<or> \<not> cleanup k \<longrightarrow> held p' k = held p1 k) \<and>
        (\<forall>d q. d \<in> set ds \<longrightarrow> cleanup (d_key d) \<longrightarrow> d_token d \<noteq> 0 \<longrightarrow>
           held p1 (d_key d) = Some (q, d_token d) \<longrightarrow> held p' (d_key d) = None)"
      using Cons.prems(1) held1 rest by (intro Cons.IH) auto
    note ih = IH [THEN conjunct1] IH [THEN conjunct2, THEN conjunct1, rule_format]
      IH [THEN conjunct2, THEN conjunct2, THEN conjunct1, rule_format]
      IH [THEN conjunct2, THEN conjunct2, THEN conjunct2, rule_format]
    show ?thesis
    proof (intro conjI allI impI)
      show "inv p'" by (rule ih(1))
    next
      fix k
      show "mget (runs r') k = (if k \<in> d_key ` set (d # ds) \<and> cleanup k then None else mget (runs r) k)"
        using True by (simp add: ih(2) runs1)
    next
      fix k
      assume "k \<notin> d_key ` set (d # ds) \<or> \<not> cleanup k"
      with True have "k \<noteq> d_key d" and "k \<notin> d_key ` set ds \<or> \<not> cleanup k" by auto
      with ih(3) held1 show "held p' k = held p k" by metis
    next
      fix d' q
      assume "d' \<in> set (d # ds)" "cleanup (d_key d')" "d_token d' \<noteq> 0" "held p (d_key d') = Some (q, d_token d')"
      with key ih(3,4) held1 freed show "held p' (d_key d') = None"
        by (metis imageI set_ConsD)
    qed
  qed
qed

end

section \<open>Properties\<close>

definition assigned_iface :: "(ports_object, ports_error) ports_iface" where
  "assigned_iface = mk_iface obj_ForRun obj_Hold obj_Free"


text \<open>With any allocator and under any interleaving, a run in the map counts exactly the
  connections that have not released it and exactly the \<open>Port\<close> calls still waiting for it, and is
  live precisely while it has a connection.\<close>

theorem run_counts_its_connections:
  assumes "(reg_step timely eph other iface conf)\<^sup>*\<^sup>* (started new_Registry p) s"
    and "mget (runs (s_reg s)) k = Some ru"
  shows "conns ru = int (count_list (s_leases s) (k, rid ru)) \<and>
    allocating ru = int (length (filter (\<lambda>(k', i, a). k' = k \<and> i = rid ru) (s_pend s))) \<and>
    (r_state ru = Live \<longleftrightarrow> (k, rid ru) \<in> set (s_leases s))"
proof -
  have "book_inv s"
    using assms(1)
  proof (induction rule: rtranclp_induct)
    case base
    show ?case by (simp add: book_inv_def started_def new_Registry_def)
  next
    case (step s s')
    then show ?case by (simp add: book_step)
  qed
  from book_run [OF this assms(2)] show ?thesis
    using leased_pos [of "s_leases s" k "rid ru"] by (simp add: run_ok_def waiting_def leased_def)
qed

text \<open>How each locked part changes the number of an account's runs.\<close>

lemma run_count_keys: "run_count r a = int (length (filter (\<lambda>k. fst k = a) (map fst (runs r))))"
  by (simp add: run_count_def filter_map comp_def case_prod_unfold)

lemma length_filter_delete:
  "length (filter P (map fst (mdel k m))) \<le> length (filter P (map fst m))"
  by (induction m) auto

lemma length_filter_filter: "length (filter P (filter Q xs)) \<le> length (filter P xs)"
  by (induction xs) auto

lemma keys_update: "map fst (mput k v m) = (if mget m k = None then map fst m @ [k] else map fst m)"
  by (induction m) (auto split: if_splits)

lemma count_put_known:
  "runs r' = mput k ru' (runs r) \<Longrightarrow> mget (runs r) k = Some ru \<Longrightarrow> run_count r' a = run_count r a"
  by (simp add: run_count_keys keys_update)

lemma count_del: "runs r' = mdel k (runs r) \<Longrightarrow> run_count r' a \<le> run_count r a"
  unfolding run_count_keys by (simp only: of_nat_le_iff length_filter_delete)

lemma detach_count:
  assumes "detach conf now k i r = (sn, r')"
  shows "run_count r' a \<le> run_count r a"
  using assms
proof (cases rule: detach_cases)
  case (more ru)
  then show ?thesis using count_put_known [OF more(5,1)] by simp
next
  case (ended ru)
  then show ?thesis using count_del [OF ended(7)] by simp
next
  case (last ru)
  then show ?thesis using count_put_known [OF last(6,1)] by simp
qed simp

lemma Port_finish_count:
  assumes "Port_finish iface conf k i answer r p = (res, sn, r', p')"
  shows "run_count r' a \<le> run_count r a"
  using assms
proof (cases rule: Port_finish_cases)
  case (cleaning ru)
  then show ?thesis using count_put_known [OF cleaning(6,2)] by simp
next
  case (ended ru e)
  then show ?thesis using count_del [OF ended(10)] by simp
next
  case (refused ru e)
  then show ?thesis using count_put_known [OF refused(8,3)] by simp
next
  case (bound ru port token)
  then show ?thesis using count_put_known [OF bound(8,3)] by simp
next
  case (known ru port token)
  then show ?thesis using count_put_known [OF known(8,3)] by simp
qed simp

lemma count_step:
  assumes "reg_step timely eph other iface conf s s'" and "run_count (s_reg s) a \<le> reg_max conf"
  shows "run_count (s_reg s') a \<le> reg_max conf"
  using assms
proof (induction rule: reg_step.induct)
  case (attach k now s i sn r)
  from attach(2) show ?case
  proof (cases rule: Attach_ok)
    case new
    with attach(3) show ?thesis by (auto simp: run_count_keys keys_update)
  next
    case (again ru)
    with attach(3) count_put_known [OF again(5,1)] show ?thesis by simp
  qed
next
  case (release k i s now sn r)
  from release(2) show ?case
    using detach_count [of conf now k i "s_reg s" sn r a] release(3) by simp
next
  case (ask k s i r)
  then show ?case by (elim Port_begin_waits) (simp add: run_count_keys keys_update)
next
  case (finish k i answer s res sn r p)
  from finish(2) show ?case
    using Port_finish_count [of iface conf k i answer "s_reg s" "s_ports s" res sn r p a] finish(3) by simp
next
  case (mark s now ds sn r)
  then show ?case
    by (simp add: run_count_keys Sweep_mark_parts(2) comp_def case_prod_unfold)
next
  case (gone s d ds sn r)
  from gone(2) show ?case
    by (cases rule: Sweep_remove_cases)
      (use gone(3) count_del [of r "d_key d" "s_reg s" a] in \<open>auto simp: run_count_def\<close>)
next
  case (drop s account sn r p)
  have "length (filter (\<lambda>(k, ru). fst k = a) (runs r)) \<le> length (filter (\<lambda>(k, ru). fst k = a) (runs (s_reg s)))"
    unfolding Drop_runs(1) [OF drop(2)] mdel_if_def by (rule length_filter_filter)
  with drop(3) show ?case by (simp add: run_count_def)
qed simp_all

text \<open>An account never has more runs than its limit, in whatever state they are, under any
  interleaving.\<close>

theorem runs_within_limit:
  assumes "(reg_step timely eph other iface conf)\<^sup>*\<^sup>* (started new_Registry p) s"
  shows "run_count (s_reg s) account \<le> reg_max conf"
  using assms
proof (induction rule: rtranclp_induct)
  case base
  show ?case by (simp add: started_def new_Registry_def run_count_def reg_max_def)
next
  case (step s s')
  then show ?case by (simp add: count_step)
qed

text \<open>Claim C19. A sweep ends exactly the runs that are due (of an enrolled account, and expired or
  already being cleaned up) and whose cleanup succeeded: such a run is forgotten and the port it
  holds is free again. A due run whose cleanup failed stays, being cleaned up, and keeps its port;
  every other run, every live one among them, is left as it was.\<close>

theorem Sweep_outcome:
  assumes "obj_inv p" and "wfm (runs r)" and "Sweep assigned_iface conf cleanup now r p = (r', p')"
    and "mget (runs r) k = Some ru"
  shows "let due = (\<forall>f. Enrolled conf = Some f \<longrightarrow> f (fst k)) \<and>
         (r_state ru = Cleaning \<or> r_state ru = Grace \<and> time_Sub now (lastSeen ru) \<ge> reg_grace conf)
    in if due \<and> cleanup k
    then mget (runs r') k = None \<and>
      (r_token ru \<noteq> 0 \<and> obj_held p k = Some (r_port ru, r_token ru) \<longrightarrow> obj_held p' k = None)
    else mget (runs r') k = Some (if due then ru\<lparr>r_state := Cleaning\<rparr> else ru) \<and> obj_held p' k = obj_held p k"
proof -
  obtain ds sn r1 where mark: "Sweep_mark conf now r = (ds, sn, r1)" by (cases "Sweep_mark conf now r")
  with assms(3) have rest: "Sweep_due (mk_iface obj_ForRun obj_Hold obj_Free) conf cleanup ds r1 p = (r', p')"
    by (simp add: Sweep_def assigned_iface_def)
  note ds = Sweep_mark_parts(1) [OF mark]
  note runs1 = Sweep_mark_runs(1) [OF mark]
  let ?due = "\<lparr>d_key = k, d_rid = rid ru, d_port = r_port ru, d_token = r_token ru\<rparr>"
  have dist: "distinct (map d_key ds)"
    using wfm_filter [OF assms(2)] unfolding ds by (simp add: comp_def case_prod_unfold wfm_def)
  have present: "\<forall>d \<in> set ds. \<exists>ru. mget (runs r1) (d_key d) = Some ru \<and> rid ru = d_rid d"
    using assms(2) by (auto simp: ds runs1 mget_set)
  have due_in: "?due \<in> set ds" if "is_due conf now k ru"
    using assms(2,4) that by (cases k) (force simp: ds mget_set image_iff)
  have in_ds: "k \<in> d_key ` set ds \<longleftrightarrow> is_due conf now k ru"
  proof
    assume "k \<in> d_key ` set ds"
    then show "is_due conf now k ru" using assms(2,4) by (auto simp: ds mget_set)
  next
    assume "is_due conf now k ru"
    then show "k \<in> d_key ` set ds" using due_in by (metis due.select_convs(1) imageI)
  qed
  have exp: "expire conf now k ru = (if is_due conf now k ru then ru\<lparr>r_state := Cleaning\<rparr> else ru)"
    by (auto simp: is_due_iff expire_def split: option.splits)
  note spec = assigned_ports.Sweep_due_spec [OF dist assms(1) present rest]
  have "mget (runs r') k = (if is_due conf now k ru \<and> cleanup k then None else Some (expire conf now k ru))"
    using spec in_ds runs1 [of k] assms(4) by (metis option.simps(9))
  moreover have "\<not> (is_due conf now k ru \<and> cleanup k) \<Longrightarrow> obj_held p' k = obj_held p k"
    using spec in_ds by blast
  moreover have "is_due conf now k ru \<Longrightarrow> cleanup k \<Longrightarrow> r_token ru \<noteq> 0 \<Longrightarrow>
      obj_held p k = Some (r_port ru, r_token ru) \<Longrightarrow> obj_held p' k = None"
    using spec due_in by (metis due.select_convs(1,4))
  ultimately show ?thesis
    unfolding is_due_iff [symmetric] Let_def exp by auto
qed

text \<open>Snapshots of the record may reach the disk in any order: afterwards the file holds the
  newest one.\<close>

theorem newest_snapshot_wins:
  assumes "m \<in> set ss" and "written w < s_gen m" and "\<forall>s \<in> set ss. s \<noteq> m \<longrightarrow> s_gen s < s_gen m"
  shows "rec_file (fold (\<lambda>s. write_snap True (Some s)) ss w) = File (record_body (s_lines m))"
proof -
  let ?w = "\<lparr>written = s_gen m, rec_file = File (record_body (s_lines m))\<rparr>"
  obtain xs ys where ss: "ss = xs @ m # ys" and "m \<notin> set xs"
    using assms(1) by (meson split_list_first)
  with assms(2,3) have "written (fold (\<lambda>s. write_snap True (Some s)) xs w) < s_gen m"
    by (intro writes_bound) auto
  then have "fold (\<lambda>s. write_snap True (Some s)) ss w = fold (\<lambda>s. write_snap True (Some s)) ys ?w"
    by (simp add: ss write_snap_newer)
  also have "\<dots> = ?w"
    using assms(3) by (intro writes_older) (force simp: ss)
  finally show ?thesis by simp
qed

text \<open>Claim C40. What the record says is what was there: the runs with a port, with their port, their
  state and the second they were last seen, read back from the file the snapshot was written to.\<close>

theorem runs_record_roundtrip:
  assumes "list_all run_line_ok (run_entries r)" and "conf_Dir conf \<noteq> []"
    and "snapshot conf r = (Some s, r')" and "written w < s_gen s"
  shows "\<exists>es. List_runs (rec_file (write_snap True (Some s) w)) = Some es \<and> mset es = mset (run_entries r)"
proof -
  obtain es where es: "mset es = mset (run_entries r)" "sort (map render_run_line (run_entries r)) = map render_run_line es"
    using ephemeral_lines.sort_render [OF assms(1)] by blast
  have lines: "s_lines s = sort (map render_run_line (run_entries r))"
    using assms(2,3) by (auto simp: snapshot_def Let_def)
  have "rec_file (write_snap True (Some s) w) = snd (WriteRecord True (s_lines s) (rec_file w))"
    using assms(4) by (simp add: write_snap_def)
  with ephemeral_lines.read_back_sorted [OF assms(1) es, of "rec_file w" "\<lambda>e out. out @ [e]" "[]"] lines es(1)
  show ?thesis by (simp add: List_runs_def readRecord_def fold_snoc)
qed

section \<open>Schedules\<close>

text \<open>A schedule names the steps one after the other, and \<open>exec\<close> takes them.\<close>

datatype action =
  DoAttach assignment time
| DoRelease assignment nat time
| DoAsk assignment
| DoAllocate assignment nat
| DoFinish assignment nat
| DoMark time
| DoFree
| DoRemove

fun exec :: "(string \<Rightarrow> bool) \<Rightarrow> ('p, 'e) ports_iface \<Rightarrow> reg_conf \<Rightarrow> action \<Rightarrow> ('p, 'e) sys \<Rightarrow> ('p, 'e) sys option" where
  "exec eph iface conf (DoAttach k now) s =
     (case Attach conf now k (s_reg s) of
        (Inr i, _, r) \<Rightarrow> if eph (fst k) then Some (s\<lparr>s_reg := r, s_leases := (k, i) # s_leases s\<rparr>) else None
      | _ \<Rightarrow> None)"
| "exec eph iface conf (DoRelease k i now) s =
     (if (k, i) \<in> set (s_leases s)
      then Some (s\<lparr>s_reg := snd (detach conf now k i (s_reg s)), s_leases := remove1 (k, i) (s_leases s)\<rparr>)
      else None)"
| "exec eph iface conf (DoAsk k) s =
     (case Port_begin k (s_reg s) of
        (PortWaits i, r) \<Rightarrow> Some (s\<lparr>s_reg := r, s_pend := (k, i, None) # s_pend s\<rparr>)
      | _ \<Rightarrow> None)"
| "exec eph iface conf (DoAllocate k i) s =
     (if (k, i, None) \<in> set (s_pend s)
      then case iface_ForRun iface (s_ports s) (fst k) (snd k) of
             (answer, p) \<Rightarrow> Some (s\<lparr>s_ports := p, s_pend := (k, i, Some answer) # remove1 (k, i, None) (s_pend s)\<rparr>)
      else None)"
| "exec eph iface conf (DoFinish k i) s =
     (case find (\<lambda>(k', i', a). k' = k \<and> i' = i \<and> a \<noteq> None) (s_pend s) of
        Some (_, _, Some answer) \<Rightarrow>
          (case Port_finish iface conf k i answer (s_reg s) (s_ports s) of
             (_, _, r, p) \<Rightarrow> Some (s\<lparr>s_reg := r, s_ports := p, s_pend := remove1 (k, i, Some answer) (s_pend s)\<rparr>))
      | _ \<Rightarrow> None)"
| "exec eph iface conf (DoMark now) s =
     (if s_due s = []
      then case Sweep_mark conf now (s_reg s) of
             (ds, _, r) \<Rightarrow> Some (s\<lparr>s_reg := r, s_due := map (\<lambda>d. (d, False)) ds\<rparr>)
      else None)"
| "exec eph iface conf DoFree s =
     (case s_due s of
        (d, False) # ds \<Rightarrow> Some (s\<lparr>s_ports := Sweep_free iface d (s_ports s), s_due := (d, True) # ds\<rparr>)
      | _ \<Rightarrow> None)"
| "exec eph iface conf DoRemove s =
     (case s_due s of
        (d, True) # ds \<Rightarrow> Some (s\<lparr>s_reg := snd (Sweep_remove conf d (s_reg s)), s_due := ds\<rparr>)
      | _ \<Rightarrow> None)"

fun execs :: "(string \<Rightarrow> bool) \<Rightarrow> ('p, 'e) ports_iface \<Rightarrow> reg_conf \<Rightarrow> action list \<Rightarrow> ('p, 'e) sys \<Rightarrow> ('p, 'e) sys option" where
  "execs eph iface conf [] s = Some s"
| "execs eph iface conf (a # as) s =
     (case exec eph iface conf a s of None \<Rightarrow> None | Some s' \<Rightarrow> execs eph iface conf as s')"

fun sweeps :: "action \<Rightarrow> bool" where
  "sweeps (DoMark _) \<longleftrightarrow> True"
| "sweeps _ \<longleftrightarrow> False"

lemma exec_step:
  assumes "exec eph iface conf a s = Some s'" and "timely \<Longrightarrow> \<not> sweeps a"
  shows "reg_step timely eph other iface conf s s'"
proof (cases a)
  case (DoAttach k now)
  with assms(1) show ?thesis
    by (auto split: prod.splits sum.splits if_splits intro: reg_step.attach)
next
  case (DoRelease k i now)
  obtain sn r where "detach conf now k i (s_reg s) = (sn, r)" by fastforce
  with DoRelease assms(1) show ?thesis
    by (auto split: if_splits intro: reg_step.release)
next
  case (DoAsk k)
  with assms(1) show ?thesis
    by (auto split: prod.splits port_begun.splits intro: reg_step.ask)
next
  case (DoAllocate k i)
  with assms(1) show ?thesis
    by (auto split: prod.splits if_splits intro: reg_step.allocate)
next
  case (DoFinish k i)
  let ?P = "\<lambda>(k', i', a). k' = k \<and> i' = i \<and> a \<noteq> None"
  from DoFinish assms(1) obtain k' i' answer where f: "find ?P (s_pend s) = Some (k', i', Some answer)"
    by (auto split: option.splits)
  have found: "find Q xs = Some x \<Longrightarrow> x \<in> set xs \<and> Q x" for Q x and xs :: "'c list"
    by (induction xs) (auto split: if_splits)
  from found [OF f] f have "(k, i, Some answer) \<in> set (s_pend s)" and "k' = k" and "i' = i" by auto
  with f DoFinish assms(1) show ?thesis
    by (auto split: prod.splits intro!: reg_step.finish)
next
  case (DoMark now)
  with assms show ?thesis
    by (auto split: prod.splits if_splits intro: reg_step.mark)
next
  case DoFree
  with assms(1) show ?thesis
    by (auto split: list.splits prod.splits bool.splits intro: reg_step.freed)
next
  case DoRemove
  with assms(1) obtain d ds where d: "s_due s = (d, True) # ds"
    and s': "s' = s\<lparr>s_reg := snd (Sweep_remove conf d (s_reg s)), s_due := ds\<rparr>"
    by (auto split: list.splits prod.splits bool.splits)
  obtain sn r where "Sweep_remove conf d (s_reg s) = (sn, r)" by fastforce
  with d s' show ?thesis by (auto intro: reg_step.gone)
qed

lemma execs_steps:
  assumes "execs eph iface conf as s = Some s'" and "timely \<Longrightarrow> \<forall>a \<in> set as. \<not> sweeps a"
  shows "(reg_step timely eph other iface conf)\<^sup>*\<^sup>* s s'"
  using assms
proof (induction as arbitrary: s)
  case Nil
  then show ?case by simp
next
  case (Cons a as)
  then obtain s1 where s1: "exec eph iface conf a s = Some s1" "execs eph iface conf as s1 = Some s'"
    by (auto split: option.splits)
  have "reg_step timely eph other iface conf s s1"
    by (rule exec_step [OF s1(1)]) (use Cons.prems(2) in auto)
  moreover have "(reg_step timely eph other iface conf)\<^sup>*\<^sup>* s1 s'"
    by (rule Cons.IH [OF s1(2)]) (use Cons.prems(2) in auto)
  ultimately show ?case by simp
qed

section \<open>An allocation that outlives its run\<close>

definition ex_reg :: reg_conf where
  "ex_reg = \<lparr>conf_Max = 0, conf_Grace = 0, conf_Dir = [], Enrolled = None\<rparr>"

definition ex_ports :: ports_object where
  "ex_ports = (ex_conf, new_Ports NoFile True)"

definition ex_start :: "(ports_object, ports_error) sys" where
  "ex_start = started new_Registry ex_ports"

lemmas runs_eval = ex_reg_def ex_ports_def ex_start_def started_def new_Registry_def assigned_iface_def
  Attach_def detach_def Port_begin_def Port_finish_def Sweep_mark_def Sweep_remove_def Sweep_free_def
  is_due_def expire_def snapshot_def run_count_def reg_max_def reg_grace_def second_def time_Sub_def
  obj_ForRun_def obj_Free_def Free_def ports_eval ex_conf_def

definition slow_schedule :: "action list" where
  "slow_schedule =
     [DoAttach (''ci'', ''r1'') 0, DoAsk (''ci'', ''r1''), DoRelease (''ci'', ''r1'') 0 0,
      DoMark (120 * 10 ^ 9), DoFree, DoRemove,
      DoAttach (''ci'', ''r1'') (121 * 10 ^ 9), DoAsk (''ci'', ''r1''),
      DoAllocate (''ci'', ''r1'') 1, DoFinish (''ci'', ''r1'') 1,
      DoAllocate (''ci'', ''r1'') 0, DoFinish (''ci'', ''r1'') 0,
      DoAttach (''ci'', ''r2'') (122 * 10 ^ 9), DoAsk (''ci'', ''r2''),
      DoAllocate (''ci'', ''r2'') 2, DoFinish (''ci'', ''r2'') 2]"

lemma slow_runs:
  "map_option (\<lambda>s. map (\<lambda>(k, ru). (k, r_state ru, r_port ru)) (runs (s_reg s)))
     (execs (\<lambda>a. a = ''ci'') assigned_iface ex_reg slow_schedule ex_start) =
   Some [((''ci'', ''r1''), Live, 65534), ((''ci'', ''r2''), Live, 65534)]"
  unfolding slow_schedule_def by (simp add: runs_eval)

text \<open>Claim C6. That the allocator answers in time is needed: one that is still asked on
  behalf of a run when that run expires, and answers once the run's client has come back, frees the
  port of the run that replaced it. The next run is given the same port, and two live runs share it.\<close>

theorem slow_allocator_shares_port:
  "\<exists>s ru ru'. (reg_step False (\<lambda>a. a = ''ci'') (leaves_runs obj_inv obj_held obj_machine (\<lambda>a. a = ''ci''))
        assigned_iface ex_reg)\<^sup>*\<^sup>* (started new_Registry ex_ports) s \<and>
     mget (runs (s_reg s)) (''ci'', ''r1'') = Some ru \<and> mget (runs (s_reg s)) (''ci'', ''r2'') = Some ru' \<and>
     r_state ru = Live \<and> r_state ru' = Live \<and> r_port ru = r_port ru' \<and> r_port ru \<noteq> 0"
proof -
  obtain s where s: "execs (\<lambda>a. a = ''ci'') assigned_iface ex_reg slow_schedule ex_start = Some s"
    and runs: "map (\<lambda>(k, ru). (k, r_state ru, r_port ru)) (runs (s_reg s)) =
      [((''ci'', ''r1''), Live, 65534), ((''ci'', ''r2''), Live, 65534)]"
    using slow_runs by auto
  from runs obtain ru ru' where "runs (s_reg s) = [((''ci'', ''r1''), ru), ((''ci'', ''r2''), ru')]"
    and "r_state ru = Live" "r_port ru = 65534" "r_state ru' = Live" "r_port ru' = 65534"
    by (auto simp: map_eq_Cons_conv)
  moreover have "(reg_step False (\<lambda>a. a = ''ci'') (leaves_runs obj_inv obj_held obj_machine (\<lambda>a. a = ''ci''))
        assigned_iface ex_reg)\<^sup>*\<^sup>* (started new_Registry ex_ports) s"
    using execs_steps [OF s] by (simp add: ex_start_def)
  ultimately show ?thesis by fastforce
qed

section \<open>Witnesses\<close>

lemma ex_ports_ok: "obj_inv ex_ports" "\<not> obj_machine ex_ports k"
  using new_Ports_NoFile ex_conf_valid by (auto simp: ex_ports_def obj_inv_def obj_machine_def is_machine_def)

lemma ex_Restore: "Restore iface ex_reg now f new_Registry ex_ports = (True, None, new_Registry, ex_ports)"
  by (simp add: Restore_def ex_reg_def)

definition two_runs :: "action list" where
  "two_runs =
     [DoAttach (''ci'', ''r1'') 0, DoAttach (''ci'', ''r2'') 0, DoAsk (''ci'', ''r1''), DoAsk (''ci'', ''r2''),
      DoAllocate (''ci'', ''r2'') 1, DoAllocate (''ci'', ''r1'') 0,
      DoFinish (''ci'', ''r1'') 0, DoFinish (''ci'', ''r2'') 1]"

lemma two_runs:
  obtains s ru ru' where "execs (\<lambda>a. a = ''ci'') assigned_iface ex_reg two_runs ex_start = Some s"
    and "mget (runs (s_reg s)) (''ci'', ''r1'') = Some ru" and "mget (runs (s_reg s)) (''ci'', ''r2'') = Some ru'"
    and "r_state ru = Live" and "r_state ru' = Live" and "r_port ru = 65533" and "r_port ru' = 65534"
proof -
  have "map_option (\<lambda>s. map (\<lambda>(k, ru). (k, r_state ru, r_port ru)) (runs (s_reg s)))
      (execs (\<lambda>a. a = ''ci'') assigned_iface ex_reg two_runs ex_start) =
    Some [((''ci'', ''r1''), Live, 65533), ((''ci'', ''r2''), Live, 65534)]"
    unfolding two_runs_def by (simp add: runs_eval)
  then obtain s where s: "execs (\<lambda>a. a = ''ci'') assigned_iface ex_reg two_runs ex_start = Some s"
    and runs: "map (\<lambda>(k, ru). (k, r_state ru, r_port ru)) (runs (s_reg s)) =
      [((''ci'', ''r1''), Live, 65533), ((''ci'', ''r2''), Live, 65534)]"
    by auto
  from runs obtain ru ru' where "runs (s_reg s) = [((''ci'', ''r1''), ru), ((''ci'', ''r2''), ru')]"
    and "r_state ru = Live" "r_port ru = 65533" "r_state ru' = Live" "r_port ru' = 65534"
    by (auto simp: map_eq_Cons_conv)
  with s that show ?thesis by auto
qed


theorem run_counts_its_connections_witness:
  "\<exists>s ru. (reg_step True (\<lambda>a. a = ''ci'') (\<lambda>_ _. False) assigned_iface ex_reg)\<^sup>*\<^sup>* (started new_Registry ex_ports) s \<and>
     mget (runs (s_reg s)) (''ci'', ''r1'') = Some ru \<and> conns ru = int (count_list (s_leases s) ((''ci'', ''r1''), rid ru)) \<and>
     (r_state ru = Live \<longleftrightarrow> ((''ci'', ''r1''), rid ru) \<in> set (s_leases s))"
proof -
  obtain s ru ru' where s: "execs (\<lambda>a. a = ''ci'') assigned_iface ex_reg two_runs ex_start = Some s"
    and ru: "mget (runs (s_reg s)) (''ci'', ''r1'') = Some ru"
    by (rule two_runs)
  have "(reg_step True (\<lambda>a. a = ''ci'') (\<lambda>_ _. False) assigned_iface ex_reg)\<^sup>*\<^sup>* (started new_Registry ex_ports) s"
    by (rule execs_steps [OF s [unfolded ex_start_def]]) (simp add: two_runs_def)
  with run_counts_its_connections [OF this ru] ru show ?thesis by blast
qed

theorem runs_within_limit_witness:
  "\<exists>s. execs (\<lambda>a. a = ''ci'') assigned_iface ex_reg two_runs ex_start = Some s \<and> run_count (s_reg s) ''ci'' \<le> 8"
proof -
  obtain s where s: "execs (\<lambda>a. a = ''ci'') assigned_iface ex_reg two_runs ex_start = Some s"
    using two_runs by metis
  have "(reg_step True (\<lambda>a. a = ''ci'') (\<lambda>_ _. False) assigned_iface ex_reg)\<^sup>*\<^sup>* (started new_Registry ex_ports) s"
    by (rule execs_steps [OF s [unfolded ex_start_def]]) (simp add: two_runs_def)
  from runs_within_limit [OF this, of "''ci''"] s show ?thesis by (simp add: reg_max_def ex_reg_def)
qed

definition idle_run :: run where
  "idle_run = \<lparr>rid = 0, r_state = Grace, conns = 0, r_port = 65534, r_token = 1, lastSeen = 0, allocating = 0\<rparr>"

theorem Sweep_outcome_witness:
  "let p = snd (obj_ForRun ex_ports ''ci'' ''r1'');
       r = \<lparr>runs = [((''ci'', ''r1''), idle_run)], next_rid = 1, gen = 0\<rparr>;
       (r', p') = Sweep assigned_iface ex_reg (\<lambda>k. True) (120 * second) r p
   in obj_held p (''ci'', ''r1'') = Some (65534, 1) \<and>
      mget (runs r') (''ci'', ''r1'') = None \<and> obj_held p' (''ci'', ''r1'') = None"
proof -
  let ?k = "(''ci'', ''r1'')"
  obtain a p where p: "obj_ForRun ex_ports ''ci'' ''r1'' = (a, p)" by (cases "obj_ForRun ex_ports ''ci'' ''r1''")
  have a: "a = Inr (65534, 1)" using p by (auto simp: ex_ports_def obj_ForRun_def ports_eval ex_conf_def)
  have inv: "obj_inv p" and held: "obj_held p ?k = Some (65534, 1)"
    using assigned_ports.for_run_ok [OF ex_ports_ok p [unfolded a]] by auto
  let ?r = "\<lparr>runs = [(?k, idle_run)], next_rid = 1, gen = 0\<rparr>"
  obtain r' p' where sweep: "Sweep assigned_iface ex_reg (\<lambda>k. True) (120 * second) ?r p = (r', p')"
    by (cases "Sweep assigned_iface ex_reg (\<lambda>k. True) (120 * second) ?r p")
  from Sweep_outcome [OF inv _ sweep, of ?k idle_run] sweep held p show ?thesis
    by (simp add: wfm_def idle_run_def ex_reg_def reg_grace_def time_Sub_def second_def)
qed

theorem newest_snapshot_wins_witness:
  "rec_file (fold (\<lambda>s. write_snap True (Some s))
     [\<lparr>s_gen = 2, s_lines = [''ci:r1:65534:live:0'']\<rparr>, \<lparr>s_gen = 1, s_lines = []\<rparr>] \<lparr>written = 0, rec_file = NoFile\<rparr>) =
   File (record_body [''ci:r1:65534:live:0''])"
  using newest_snapshot_wins [of "\<lparr>s_gen = 2, s_lines = [''ci:r1:65534:live:0'']\<rparr>"
      "[\<lparr>s_gen = 2, s_lines = [''ci:r1:65534:live:0'']\<rparr>, \<lparr>s_gen = 1, s_lines = []\<rparr>]"
      "\<lparr>written = 0, rec_file = NoFile\<rparr>"]
  by simp

theorem runs_record_roundtrip_witness:
  "let r = \<lparr>runs = [((''ci'', ''r1''), idle_run)], next_rid = 1, gen = 0\<rparr>;
       s = fst (snapshot (ex_reg\<lparr>conf_Dir := ''/run''\<rparr>) r)
   in \<exists>es. List_runs (rec_file (write_snap True s \<lparr>written = 0, rec_file = NoFile\<rparr>)) = Some es \<and>
        mset es = {#((''ci'', ''r1''), 65534, Grace, 0)#}"
proof -
  let ?r = "\<lparr>runs = [((''ci'', ''r1''), idle_run)], next_rid = 1, gen = 0\<rparr>"
  let ?c = "ex_reg\<lparr>conf_Dir := ''/run''\<rparr>"
  obtain s r' where s: "snapshot ?c ?r = (Some s, r')" and g: "s_gen s = 1"
    by (auto simp: snapshot_def ex_reg_def)
  have e: "run_entries ?r = [((''ci'', ''r1''), 65534, Grace, 0)]"
    by (simp add: run_entries_def idle_run_def second_def)
  then have ok: "list_all run_line_ok (run_entries ?r)"
    by (simp add: run_line_ok_def safe_name_def plain_def in_int64_def)
  from runs_record_roundtrip [OF ok _ s, of "\<lparr>written = 0, rec_file = NoFile\<rparr>"] g s e show ?thesis
    by (simp add: ex_reg_def)
qed

end
