(* ===== verification/Mount_Words.thy ===== *)
theory Mount_Words
  imports Go_Prelude "HOL-Library.Multiset"
begin

text \<open>
  What one bind mount may say about itself: \<open>core/workspace/mode.go\<close> (how it is read and written) and
  \<open>core/workspace/mountwords.go\<close> (whom its files belong to, which permission bits are masked, how much
  is watched and prefetched).

  Go's string types with named constants are datatypes, with the constant's spelling as a function.
  The lemmas show that the canonical spellings parse back; that a list of words means the same in any
  order, and names each axis and each key at most once; that every word a list accepts is one
  \<open>IsModeWord\<close> claims; that a directory mask leaves an execute bit; and, in the locale \<open>ranked_words\<close>
  interpreted for \<open>watch=\<close> and for \<open>prefetch=\<close>, that a share used by several mounts runs at the
  strongest level any of them asked for, in whatever order they came.
\<close>

section \<open>Modes\<close>

datatype read_mode = ReadUnset | ReadDirect | ReadCached

datatype write_mode = WriteUnset | WriteThrough | WriteBack | WriteEphemeral

fun read_word :: "read_mode \<Rightarrow> string" where
  "read_word ReadUnset = ''''"
| "read_word ReadDirect = ''direct''"
| "read_word ReadCached = ''cached''"

fun write_word :: "write_mode \<Rightarrow> string" where
  "write_word WriteUnset = ''''"
| "write_word WriteThrough = ''through''"
| "write_word WriteBack = ''back''"
| "write_word WriteEphemeral = ''ephemeral''"

record Mode =
  m_Read :: read_mode
  m_Write :: write_mode

definition ModeUnset :: Mode where
  "ModeUnset = \<lparr>m_Read = ReadUnset, m_Write = WriteUnset\<rparr>"

definition DefaultMode :: Mode where
  "DefaultMode = \<lparr>m_Read = ReadDirect, m_Write = WriteThrough\<rparr>"

definition dockerWords :: "(string, Mode) gomap" where
  "dockerWords =
     [(''default'', DefaultMode), (''consistent'', DefaultMode),
      (''cached'', \<lparr>m_Read = ReadCached, m_Write = WriteThrough\<rparr>),
      (''delegated'', \<lparr>m_Read = ReadCached, m_Write = WriteBack\<rparr>)]"

definition DockerWord :: "string \<Rightarrow> bool" where
  "DockerWord word \<longleftrightarrow> mget dockerWords (TrimSpace word) \<noteq> None"

definition mode_Or :: "Mode \<Rightarrow> Mode \<Rightarrow> Mode" where
  "mode_Or m fallback =
     (let m = (if m_Read m = ReadUnset then m\<lparr>m_Read := m_Read fallback\<rparr> else m)
      in if m_Write m = WriteUnset then m\<lparr>m_Write := m_Write fallback\<rparr> else m)"

definition mode_Union :: "Mode \<Rightarrow> bool" where
  "mode_Union m \<longleftrightarrow> m_Write m = WriteBack \<or> m_Write m = WriteEphemeral"

definition mode_Prefetch :: "Mode \<Rightarrow> bool" where
  "mode_Prefetch m \<longleftrightarrow> m_Read m = ReadCached \<and> mode_Union m"

definition mode_String :: "Mode \<Rightarrow> string" where
  "mode_String m =
     (let parts = (if m_Read m \<noteq> ReadUnset then [''read='' @ read_word (m_Read m)] else []) @
                  (if m_Write m \<noteq> WriteUnset then [''write='' @ write_word (m_Write m)] else [])
      in if parts = [] then ''unset'' else Join '','' parts)"

datatype mode_error =
  NotAMode string
| NotARead string
| NotAWrite string
| OneMountOnly string string
| NotAnAxis string
| NamesTwice string string

definition shareKeySetting :: "(string, string) gomap" where
  "shareKeySetting =
     [(''owner'', ''REMOTE_DOCKER_SHARE_OWNER''), (''fmask'', ''REMOTE_DOCKER_SHARE_FMASK''),
      (''dmask'', ''REMOTE_DOCKER_SHARE_DMASK''), (''watch'', ''REMOTE_DOCKER_WATCH''),
      (''prefetch'', ''REMOTE_DOCKER_PREFETCH'')]"

definition isShareKey :: "string \<Rightarrow> bool" where
  "isShareKey key \<longleftrightarrow> mget shareKeySetting key \<noteq> None"

definition parseRead :: "string \<Rightarrow> mode_error + read_mode" where
  "parseRead s =
     (let r = TrimSpace s
      in if r = read_word ReadDirect then Inr ReadDirect
         else if r = read_word ReadCached then Inr ReadCached
         else Inl (NotARead s))"

definition parseWrite :: "string \<Rightarrow> mode_error + write_mode" where
  "parseWrite s =
     (let w = TrimSpace s
      in if w = write_word WriteThrough then Inr WriteThrough
         else if w = write_word WriteBack then Inr WriteBack
         else if w = write_word WriteEphemeral then Inr WriteEphemeral
         else Inl (NotAWrite s))"

definition parseModeWord :: "string \<Rightarrow> mode_error + Mode" where
  "parseModeWord word =
     (case mget dockerWords word of
        Some m \<Rightarrow> Inr m
      | None \<Rightarrow>
          (case Cut CHR ''='' word of
             None \<Rightarrow> Inl (NotAMode word)
           | Some (axis, value) \<Rightarrow>
               if axis = ''read''
               then (case parseRead value of Inl e \<Rightarrow> Inl e | Inr r \<Rightarrow> Inr (ModeUnset\<lparr>m_Read := r\<rparr>))
               else if axis = ''write''
               then (case parseWrite value of Inl e \<Rightarrow> Inl e | Inr w \<Rightarrow> Inr (ModeUnset\<lparr>m_Write := w\<rparr>))
               else (case mget shareKeySetting axis of
                       Some setting \<Rightarrow> Inl (OneMountOnly axis setting)
                     | None \<Rightarrow> Inl (NotAnAxis axis))))"

fun parse_mode_words :: "string \<Rightarrow> string list \<Rightarrow> Mode \<Rightarrow> mode_error + Mode" where
  "parse_mode_words s [] m = Inr m"
| "parse_mode_words s (word # words) m =
     (let word = TrimSpace word
      in if word = [] then parse_mode_words s words m
         else (case parseModeWord word of
                 Inl e \<Rightarrow> Inl e
               | Inr got \<Rightarrow>
                   if m_Read got \<noteq> ReadUnset \<and> m_Read m \<noteq> ReadUnset then Inl (NamesTwice s ''read'')
                   else
                     let m = (if m_Read got \<noteq> ReadUnset then m\<lparr>m_Read := m_Read got\<rparr> else m)
                     in if m_Write got \<noteq> WriteUnset \<and> m_Write m \<noteq> WriteUnset then Inl (NamesTwice s ''write'')
                        else
                          let m = (if m_Write got \<noteq> WriteUnset then m\<lparr>m_Write := m_Write got\<rparr> else m)
                          in parse_mode_words s words m))"

definition ParseMode :: "string \<Rightarrow> mode_error + Mode" where
  "ParseMode s = parse_mode_words s (Split CHR '','' s) ModeUnset"

definition IsModeWord :: "string \<Rightarrow> bool" where
  "IsModeWord s =
     (let s = TrimSpace s
      in mget dockerWords s \<noteq> None \<or>
         (case Cut CHR ''='' s of
            None \<Rightarrow> False
          | Some (axis, _) \<Rightarrow> axis = ''read'' \<or> axis = ''write'' \<or> isShareKey axis))"

definition attributeOptions :: "read_mode \<Rightarrow> string list" where
  "attributeOptions r = (if r = ReadCached then [''actimeo=60'', ''nocto''] else [''actimeo=1''])"

section \<open>Owners and masks\<close>

record Owner =
  o_UID :: nat
  o_GID :: nat
  o_Set :: bool

datatype word_error =
  BadOwner string
| BadMask string string
| NoExecuteBit nat
| BadWatch string
| BadPrefetch string
| KeyTwice string string
| BadMode mode_error

definition ParseOwner :: "string \<Rightarrow> word_error + Owner" where
  "ParseOwner s =
     (let s = TrimSpace s;
          digits = takeWhile is_digit s;
          rest = dropWhile is_digit s
      in if rest = []
         then (case ParseUint s 10 32 of
                 None \<Rightarrow> Inl (BadOwner s)
               | Some i \<Rightarrow> Inr \<lparr>o_UID = i, o_GID = i, o_Set = True\<rparr>)
         else
           let (sep, size) = DecodeRune rest
           in if sep = byte CHR ''='' \<or> sep = byte CHR '','' \<or> sep = RuneError then Inl (BadOwner s)
              else (case ParseUint digits 10 32 of
                      None \<Rightarrow> Inl (BadOwner s)
                    | Some uid \<Rightarrow>
                        (case ParseUint (drop size rest) 10 32 of
                           None \<Rightarrow> Inl (BadOwner s)
                         | Some gid \<Rightarrow> Inr \<lparr>o_UID = uid, o_GID = gid, o_Set = True\<rparr>)))"

definition owner_String :: "Owner \<Rightarrow> string" where
  "owner_String ow = (if o_Set ow then nat_digits (o_UID ow) @ '':'' @ nat_digits (o_GID ow) else ''unset'')"

record Mask =
  k_Bits :: nat
  k_Set :: bool

definition parseMask :: "string \<Rightarrow> string \<Rightarrow> word_error + Mask" where
  "parseMask name s =
     (let s = TrimSpace s
      in if length s < 1 \<or> length s > 4 \<or> Trim s ''01234567'' \<noteq> [] then Inl (BadMask name s)
         else (case ParseUint s 8 32 of
                 None \<Rightarrow> Inl (BadMask name s)
               | Some bits \<Rightarrow>
                   if bits > 511 then Inl (BadMask name s) else Inr \<lparr>k_Bits = bits, k_Set = True\<rparr>))"

definition ParseFileMask :: "string \<Rightarrow> word_error + Mask" where
  "ParseFileMask s = parseMask ''fmask'' s"

definition ParseDirMask :: "string \<Rightarrow> word_error + Mask" where
  "ParseDirMask s =
     (case parseMask ''dmask'' s of
        Inl e \<Rightarrow> Inl e
      | Inr m \<Rightarrow> if and (k_Bits m) 73 = 73 then Inl (NoExecuteBit (k_Bits m)) else Inr m)"

text \<open>\<open>%04o\<close> of a mask, which has at most nine bits.\<close>

fun octal :: "nat \<Rightarrow> nat \<Rightarrow> string" where
  "octal 0 n = []"
| "octal (Suc w) n = octal w (n div 8) @ [digit (n mod 8)]"

definition mask_String :: "Mask \<Rightarrow> string" where
  "mask_String m = octal 4 (k_Bits m)"

section \<open>Watching and prefetching\<close>

datatype Watch = WatchUnset | WatchOff | WatchPartial | WatchCoarse

fun watch_word :: "Watch \<Rightarrow> string" where
  "watch_word WatchUnset = ''''"
| "watch_word WatchOff = ''off''"
| "watch_word WatchPartial = ''partial''"
| "watch_word WatchCoarse = ''coarse''"

definition ParseWatch :: "string \<Rightarrow> word_error + Watch" where
  "ParseWatch s =
     (let w = TrimSpace s
      in if w = ''off'' then Inr WatchOff else if w = ''partial'' then Inr WatchPartial
         else if w = ''coarse'' then Inr WatchCoarse else Inl (BadWatch s))"

text \<open>The session's setting is compared in lower case, as runes. What the standard library's lower case
  of a rune beyond ASCII is matters only where it is ASCII (\<open>rune_lower\<close>).\<close>

definition ParseWatchSetting :: "(nat \<Rightarrow> nat) \<Rightarrow> string \<Rightarrow> word_error + Watch" where
  "ParseWatchSetting other s =
     (let w = map (rune_lower other) (runes (TrimSpace s));
          is = (\<lambda>words. w \<in> set (map runes words))
      in if is ['''', ''off'', ''false'', ''0'', ''no''] then Inr WatchOff
         else if is [''partial'', ''on'', ''true'', ''1'', ''yes''] then Inr WatchPartial
         else if is [''coarse'', ''best-effort''] then Inr WatchCoarse
         else Inl (BadWatch s))"

fun watchRank :: "Watch \<Rightarrow> nat" where
  "watchRank WatchPartial = 1"
| "watchRank WatchCoarse = 2"
| "watchRank _ = 0"

definition watch_Max :: "Watch \<Rightarrow> Watch \<Rightarrow> Watch" where
  "watch_Max w other =
     (if watchRank other > watchRank w then other else if w = WatchUnset then other else w)"

definition Watching :: "Watch \<Rightarrow> bool" where
  "Watching w \<longleftrightarrow> w = WatchPartial \<or> w = WatchCoarse"

definition watch_String :: "Watch \<Rightarrow> string" where
  "watch_String w = (if w = WatchUnset then watch_word WatchOff else watch_word w)"

datatype Prefetch = PrefetchUnset | PrefetchOff | PrefetchEager | PrefetchTree

fun prefetch_word :: "Prefetch \<Rightarrow> string" where
  "prefetch_word PrefetchUnset = ''''"
| "prefetch_word PrefetchOff = ''off''"
| "prefetch_word PrefetchEager = ''eager''"
| "prefetch_word PrefetchTree = ''tree''"

definition ParsePrefetch :: "string \<Rightarrow> word_error + Prefetch" where
  "ParsePrefetch s =
     (let p = TrimSpace s
      in if p = ''off'' then Inr PrefetchOff else if p = ''eager'' then Inr PrefetchEager
         else if p = ''tree'' then Inr PrefetchTree else Inl (BadPrefetch s))"

fun prefetchRank :: "Prefetch \<Rightarrow> nat" where
  "prefetchRank PrefetchTree = 1"
| "prefetchRank PrefetchEager = 2"
| "prefetchRank _ = 0"

definition prefetch_Max :: "Prefetch \<Rightarrow> Prefetch \<Rightarrow> Prefetch" where
  "prefetch_Max p other =
     (if prefetchRank other > prefetchRank p then other else if p = PrefetchUnset then other else p)"

definition Prefetching :: "Prefetch \<Rightarrow> bool" where
  "Prefetching p \<longleftrightarrow> p = PrefetchEager \<or> p = PrefetchTree"

definition prefetch_String :: "Prefetch \<Rightarrow> string" where
  "prefetch_String p = (if p = PrefetchUnset then prefetch_word PrefetchOff else prefetch_word p)"

section \<open>Mounts\<close>

record ShareWords =
  w_Owner :: Owner
  w_FMask :: Mask
  w_DMask :: Mask
  w_Watch :: Watch
  w_Prefetch :: Prefetch

record MountWords = ShareWords +
  w_Mode :: Mode

definition no_words :: MountWords where
  "no_words = \<lparr>w_Owner = \<lparr>o_UID = 0, o_GID = 0, o_Set = False\<rparr>, w_FMask = \<lparr>k_Bits = 0, k_Set = False\<rparr>,
     w_DMask = \<lparr>k_Bits = 0, k_Set = False\<rparr>, w_Watch = WatchUnset, w_Prefetch = PrefetchUnset, w_Mode = ModeUnset\<rparr>"

definition share_word :: "string \<Rightarrow> string \<Rightarrow> MountWords \<Rightarrow> word_error + MountWords" where
  "share_word key value w =
     (if key = ''owner'' then (case ParseOwner value of Inl e \<Rightarrow> Inl e | Inr ow \<Rightarrow> Inr (w\<lparr>w_Owner := ow\<rparr>))
      else if key = ''fmask'' then (case ParseFileMask value of Inl e \<Rightarrow> Inl e | Inr m \<Rightarrow> Inr (w\<lparr>w_FMask := m\<rparr>))
      else if key = ''dmask'' then (case ParseDirMask value of Inl e \<Rightarrow> Inl e | Inr m \<Rightarrow> Inr (w\<lparr>w_DMask := m\<rparr>))
      else if key = ''watch'' then (case ParseWatch value of Inl e \<Rightarrow> Inl e | Inr x \<Rightarrow> Inr (w\<lparr>w_Watch := x\<rparr>))
      else if key = ''prefetch'' then (case ParsePrefetch value of Inl e \<Rightarrow> Inl e | Inr x \<Rightarrow> Inr (w\<lparr>w_Prefetch := x\<rparr>))
      else Inr w)"

fun parse_mount_words ::
  "string \<Rightarrow> string list \<Rightarrow> MountWords \<Rightarrow> string list \<Rightarrow> string list \<Rightarrow> word_error + MountWords \<times> string list" where
  "parse_mount_words s [] w modeWords seen = Inr (w, modeWords)"
| "parse_mount_words s (word # words) w modeWords seen =
     (let word = TrimSpace word
      in if word = [] then parse_mount_words s words w modeWords seen
         else
           (case Cut CHR ''='' word of
              None \<Rightarrow> parse_mount_words s words w (modeWords @ [word]) seen
            | Some (key, value) \<Rightarrow>
                if \<not> isShareKey key then parse_mount_words s words w (modeWords @ [word]) seen
                else if key \<in> set seen then Inl (KeyTwice s key)
                else (case share_word key value w of
                        Inl e \<Rightarrow> Inl e
                      | Inr w \<Rightarrow> parse_mount_words s words w modeWords (key # seen))))"

definition ParseMount :: "string \<Rightarrow> word_error + MountWords" where
  "ParseMount s =
     (case parse_mount_words s (Split CHR '','' s) no_words [] [] of
        Inl e \<Rightarrow> Inl e
      | Inr (w, modeWords) \<Rightarrow>
          (case ParseMode (Join '','' modeWords) of
             Inl e \<Rightarrow> Inl (BadMode e)
           | Inr mode \<Rightarrow> Inr (w\<lparr>w_Mode := mode\<rparr>)))"

section \<open>A list of mode words\<close>

text \<open>What the words of a list name, in order, leaving out the ones that are empty or refused.\<close>

definition mode_got :: "string \<Rightarrow> Mode option" where
  "mode_got word =
     (if TrimSpace word = [] then None
      else case parseModeWord (TrimSpace word) of Inl _ \<Rightarrow> None | Inr got \<Rightarrow> Some got)"

definition mode_word_ok :: "string \<Rightarrow> bool" where
  "mode_word_ok word \<longleftrightarrow> TrimSpace word = [] \<or> (\<exists>got. parseModeWord (TrimSpace word) = Inr got)"

text \<open>An axis that is named at most once, by \<open>x\<close> if at all.\<close>

definition named_once :: "'a \<Rightarrow> 'a list \<Rightarrow> 'a \<Rightarrow> bool" where
  "named_once unset xs x \<longleftrightarrow> filter (\<lambda>y. y \<noteq> unset) xs = (if x = unset then [] else [x])"

lemma named_once_Cons:
  "named_once unset (a # b # xs) x \<longleftrightarrow>
     (if a \<noteq> unset \<and> b \<noteq> unset then False else named_once unset ((if b \<noteq> unset then b else a) # xs) x)"
  by (auto simp: named_once_def)

lemma named_once_mset:
  assumes "mset xs = mset ys"
  shows "named_once unset xs x \<longleftrightarrow> named_once unset ys x"
proof -
  have single: "zs = (if x = unset then [] else [x]) \<longleftrightarrow> mset zs = (if x = unset then {#} else {#x#})" for zs
    by simp
  have "mset (filter (\<lambda>y. y \<noteq> unset) xs) = mset (filter (\<lambda>y. y \<noteq> unset) ys)"
    using assms by (simp add: mset_filter)
  then show ?thesis
    unfolding named_once_def single by simp
qed

lemma parse_mode_words_iff:
  "parse_mode_words s ws m = Inr m' \<longleftrightarrow>
     list_all mode_word_ok ws \<and>
     named_once ReadUnset (m_Read m # map m_Read (List.map_filter mode_got ws)) (m_Read m') \<and>
     named_once WriteUnset (m_Write m # map m_Write (List.map_filter mode_got ws)) (m_Write m')"
proof (induction ws arbitrary: m)
  case Nil
  show ?case by (cases m; cases m') (auto simp: named_once_def)
next
  case (Cons w ws)
  show ?case
  proof (cases "TrimSpace w = []")
    case True
    with Cons show ?thesis by (simp add: mode_word_ok_def mode_got_def)
  next
    case False
    show ?thesis
    proof (cases "parseModeWord (TrimSpace w)")
      case (Inl e)
      with False show ?thesis by (simp add: mode_word_ok_def)
    next
      case (Inr got)
      with False show ?thesis
        by (auto simp: mode_word_ok_def mode_got_def Let_def Cons named_once_Cons)
    qed
  qed
qed

lemma ParseMode_iff:
  "ParseMode s = Inr m \<longleftrightarrow>
     list_all mode_word_ok (Split CHR '','' s) \<and>
     named_once ReadUnset (map m_Read (List.map_filter mode_got (Split CHR '','' s))) (m_Read m) \<and>
     named_once WriteUnset (map m_Write (List.map_filter mode_got (Split CHR '','' s))) (m_Write m)"
  unfolding ParseMode_def parse_mode_words_iff by (simp add: ModeUnset_def named_once_def)

lemma map_filter_mset: "mset xs = mset ys \<Longrightarrow> mset (List.map_filter f xs) = mset (List.map_filter f ys)"
  by (simp add: List.map_filter_def mset_filter image_mset_filter_mset_swap)

lemma named_once_words:
  assumes "mset ws = mset ws'"
  shows "named_once unset (x # map f (List.map_filter mode_got ws)) y \<longleftrightarrow>
    named_once unset (x # map f (List.map_filter mode_got ws')) y"
  using map_filter_mset [OF assms, of mode_got] by (intro named_once_mset) simp

lemma mode_words_order:
  assumes "mset ws = mset ws'"
  shows "parse_mode_words s ws m = Inr m' \<longleftrightarrow> parse_mode_words s' ws' m = Inr m'"
  unfolding parse_mode_words_iff list_all_iff
  using named_once_words [OF assms] mset_eq_setD [OF assms] by metis

section \<open>Levels\<close>

locale ranked_words =
  fixes rank :: "'w \<Rightarrow> nat" and unset :: 'w and stronger :: "'w \<Rightarrow> 'w \<Rightarrow> 'w"
  assumes stronger_def: "stronger w other = (if rank other > rank w then other else if w = unset then other else w)"
    and rank_unset: "rank unset = 0"
    and rank_inj: "rank w = rank w' \<Longrightarrow> w \<noteq> unset \<Longrightarrow> w' \<noteq> unset \<Longrightarrow> w = w'"
begin

lemma stronger_unset [simp]: "stronger unset w = w" "stronger w unset = w"
  by (simp_all add: stronger_def rank_unset)

lemma stronger_comm: "stronger w w' = stronger w' w"
  using rank_inj [of w w'] by (cases "w = unset"; cases "w' = unset") (auto simp: stronger_def rank_unset)

lemma stronger_assoc: "stronger (stronger u v) w = stronger u (stronger v w)"
proof -
  consider "u = unset" | "v = unset" | "w = unset" | "u \<noteq> unset" "v \<noteq> unset" "w \<noteq> unset" by blast
  then show ?thesis
    by cases (simp_all, auto simp: stronger_def)
qed

lemma stronger_idem [simp]: "stronger w w = w"
  by (simp add: stronger_def)

lemma rank_stronger: "rank (stronger u v) = max (rank u) (rank v)"
  by (auto simp: stronger_def rank_unset)

text \<open>The level of a share after every one of its mounts raised it.\<close>

lemma raised:
  "let level = fold (\<lambda>w l. stronger l w) ws l
   in level \<in> insert l (set ws) \<and> (\<forall>w \<in> insert l (set ws). rank w \<le> rank level) \<and>
      (level = unset \<longleftrightarrow> (\<forall>w \<in> insert l (set ws). w = unset))"
proof (induction ws arbitrary: l)
  case Nil
  show ?case by simp
next
  case (Cons w ws)
  have "stronger l w \<in> {l, w}" and "rank l \<le> rank (stronger l w)" and "rank w \<le> rank (stronger l w)"
    and "stronger l w = unset \<longleftrightarrow> l = unset \<and> w = unset"
    by (auto simp: stronger_def rank_unset)
  with Cons.IH [of "stronger l w"] show ?case
    unfolding Let_def by (auto intro: order_trans)
qed

lemma raised_in_any_order:
  assumes "mset ws = mset ws'"
  shows "fold (\<lambda>w l. stronger l w) ws l = fold (\<lambda>w l. stronger l w) ws' l"
proof -
  have "(\<lambda>l. stronger l u) \<circ> (\<lambda>l. stronger l v) = (\<lambda>l. stronger l v) \<circ> (\<lambda>l. stronger l u)" for u v
    by (rule ext) (metis comp_apply stronger_assoc stronger_comm)
  then show ?thesis
    using fold_multiset_equiv [OF _ assms, of "\<lambda>w l. stronger l w"] by metis
qed

end

interpretation watch_levels: ranked_words watchRank WatchUnset watch_Max
proof
  fix w w' :: Watch
  show "watchRank w = watchRank w' \<Longrightarrow> w \<noteq> WatchUnset \<Longrightarrow> w' \<noteq> WatchUnset \<Longrightarrow> w = w'"
    by (cases w; cases w') auto
qed (simp_all add: watch_Max_def)

interpretation prefetch_levels: ranked_words prefetchRank PrefetchUnset prefetch_Max
proof
  fix p p' :: Prefetch
  show "prefetchRank p = prefetchRank p' \<Longrightarrow> p \<noteq> PrefetchUnset \<Longrightarrow> p' \<noteq> PrefetchUnset \<Longrightarrow> p = p'"
    by (cases p; cases p') auto
qed (simp_all add: prefetch_Max_def)

section \<open>A list of mount words\<close>

text \<open>The words of a list that are not empty: those that carry a share's key, and the others.\<close>

definition words_of :: "string list \<Rightarrow> string list" where
  "words_of ws = filter (\<lambda>w. w \<noteq> []) (map TrimSpace ws)"

definition share_pair :: "string \<Rightarrow> (string \<times> string) option" where
  "share_pair w =
     (case Cut CHR ''='' w of Some (key, value) \<Rightarrow> if isShareKey key then Some (key, value) else None | None \<Rightarrow> None)"

definition share_pairs :: "string list \<Rightarrow> (string \<times> string) list" where
  "share_pairs ws = List.map_filter share_pair (words_of ws)"

definition mode_words :: "string list \<Rightarrow> string list" where
  "mode_words ws = filter (\<lambda>w. share_pair w = None) (words_of ws)"

definition apply_pair :: "string \<times> string \<Rightarrow> MountWords option \<Rightarrow> MountWords option" where
  "apply_pair kv w =
     (case w of None \<Rightarrow> None | Some w \<Rightarrow> (case share_word (fst kv) (snd kv) w of Inl _ \<Rightarrow> None | Inr w \<Rightarrow> Some w))"

lemma apply_pair_Some:
  "apply_pair (key, v) (Some w) = (case share_word key v w of Inl _ \<Rightarrow> None | Inr w \<Rightarrow> Some w)"
  by (simp add: apply_pair_def)

lemma fold_apply_None [simp]: "fold apply_pair kvs None = None"
  by (induction kvs) (auto simp: apply_pair_def)

lemma words_of_Cons: "words_of (w # ws) = (if TrimSpace w = [] then words_of ws else TrimSpace w # words_of ws)"
  by (simp add: words_of_def)

lemma parse_mount_words_iff:
  "parse_mount_words s ws w ms seen = Inr (w', ms') \<longleftrightarrow>
     distinct (map fst (share_pairs ws)) \<and> set seen \<inter> set (map fst (share_pairs ws)) = {} \<and>
     fold apply_pair (share_pairs ws) (Some w) = Some w' \<and> ms' = ms @ mode_words ws"
proof (induction ws arbitrary: w ms seen)
  case Nil
  show ?case by (auto simp: share_pairs_def mode_words_def words_of_def List.map_filter_def)
next
  case (Cons x ws)
  show ?case
  proof (cases "TrimSpace x = []")
    case True
    with Cons show ?thesis by (simp add: share_pairs_def mode_words_def words_of_Cons)
  next
    case x: False
    show ?thesis
    proof (cases "share_pair (TrimSpace x)")
      case None
      with x have "parse_mount_words s (x # ws) w ms seen = parse_mount_words s ws w (ms @ [TrimSpace x]) seen"
        by (auto simp: share_pair_def Let_def split: option.splits if_splits)
      moreover from None x have "share_pairs (x # ws) = share_pairs ws" "mode_words (x # ws) = TrimSpace x # mode_words ws"
        by (simp_all add: share_pairs_def mode_words_def words_of_Cons)
      ultimately show ?thesis using Cons by simp
    next
      case (Some kv)
      obtain key v where kv: "kv = (key, v)" by (cases kv)
      from Some x kv have step: "parse_mount_words s (x # ws) w ms seen =
          (if key \<in> set seen then Inl (KeyTwice s key)
           else case share_word key v w of Inl e \<Rightarrow> Inl e | Inr w \<Rightarrow> parse_mount_words s ws w ms (key # seen))"
        by (auto simp: share_pair_def Let_def split: option.splits if_splits)
      from Some x have "share_pairs (x # ws) = kv # share_pairs ws" "mode_words (x # ws) = mode_words ws"
        by (simp_all add: share_pairs_def mode_words_def words_of_Cons)
      with Cons kv show ?thesis unfolding step by (auto simp: apply_pair_Some split: sum.splits)
    qed
  qed
qed

text \<open>Words with different keys set different fields, so their order does not matter.\<close>

definition share_set :: "string \<Rightarrow> string \<Rightarrow> (MountWords \<Rightarrow> MountWords) option" where
  "share_set key v =
     (if key = ''owner'' then (case ParseOwner v of Inl e \<Rightarrow> None | Inr ow \<Rightarrow> Some (w_Owner_update (\<lambda>_. ow)))
      else if key = ''fmask'' then (case ParseFileMask v of Inl e \<Rightarrow> None | Inr m \<Rightarrow> Some (w_FMask_update (\<lambda>_. m)))
      else if key = ''dmask'' then (case ParseDirMask v of Inl e \<Rightarrow> None | Inr m \<Rightarrow> Some (w_DMask_update (\<lambda>_. m)))
      else if key = ''watch'' then (case ParseWatch v of Inl e \<Rightarrow> None | Inr x \<Rightarrow> Some (w_Watch_update (\<lambda>_. x)))
      else if key = ''prefetch'' then (case ParsePrefetch v of Inl e \<Rightarrow> None | Inr x \<Rightarrow> Some (w_Prefetch_update (\<lambda>_. x)))
      else Some (\<lambda>w. w))"

lemma apply_pair_set: "apply_pair (key, v) (Some w) = map_option (\<lambda>f. f w) (share_set key v)"
  by (simp add: apply_pair_Some share_word_def share_set_def split: sum.splits)

lemma share_set_cases:
  assumes "share_set key v = Some f"
  obtains x where "key = ''owner''" and "f = w_Owner_update (\<lambda>_. x)"
  | x where "key = ''fmask''" and "f = w_FMask_update (\<lambda>_. x)"
  | x where "key = ''dmask''" and "f = w_DMask_update (\<lambda>_. x)"
  | x where "key = ''watch''" and "f = w_Watch_update (\<lambda>_. x)"
  | x where "key = ''prefetch''" and "f = w_Prefetch_update (\<lambda>_. x)"
  | "f = (\<lambda>w. w)"
  using assms by (auto simp: share_set_def split: if_splits sum.splits)

lemma share_set_commute:
  assumes "share_set key v = Some f" and "share_set key' v' = Some f'" and "key \<noteq> key'"
  shows "f (f' w) = f' (f w)"
proof -
  from assms(1) show ?thesis
  proof (cases rule: share_set_cases)
    case (1 x)
    with assms(3) show ?thesis
      by - (rule share_set_cases [OF assms(2)]; simp)
  next
    case (2 x)
    with assms(3) show ?thesis
      by - (rule share_set_cases [OF assms(2)]; simp)
  next
    case (3 x)
    with assms(3) show ?thesis
      by - (rule share_set_cases [OF assms(2)]; simp)
  next
    case (4 x)
    with assms(3) show ?thesis
      by - (rule share_set_cases [OF assms(2)]; simp)
  next
    case (5 x)
    with assms(3) show ?thesis
      by - (rule share_set_cases [OF assms(2)]; simp)
  next
    case 6
    with assms(3) show ?thesis
      by - (rule share_set_cases [OF assms(2)]; simp)
  qed
qed

lemma apply_pair_commute:
  assumes "fst kv \<noteq> fst kv' \<or> kv = kv'"
  shows "apply_pair kv \<circ> apply_pair kv' = apply_pair kv' \<circ> apply_pair kv"
proof (cases "kv = kv'")
  case False
  with assms obtain key v key' v' where kv: "kv = (key, v)" "kv' = (key', v')" "key \<noteq> key'"
    by (cases kv, cases kv') auto
  have "apply_pair kv (apply_pair kv' w) = apply_pair kv' (apply_pair kv w)" for w
  proof (cases w)
    case None
    then show ?thesis by (simp add: apply_pair_def)
  next
    case (Some w)
    then show ?thesis
      using share_set_commute [OF _ _ kv(3)]
      by (cases "share_set key v"; cases "share_set key' v'") (simp_all add: kv apply_pair_set, simp_all add: apply_pair_def)
  qed
  then show ?thesis by (simp add: fun_eq_iff)
qed simp

lemma words_of_mset: "mset ws = mset ws' \<Longrightarrow> mset (words_of ws) = mset (words_of ws')"
  by (simp add: words_of_def mset_filter)

lemma share_pairs_mset: "mset ws = mset ws' \<Longrightarrow> mset (share_pairs ws) = mset (share_pairs ws')"
  unfolding share_pairs_def by (rule map_filter_mset [OF words_of_mset])

lemma mode_words_mset: "mset ws = mset ws' \<Longrightarrow> mset (mode_words ws) = mset (mode_words ws')"
  unfolding mode_words_def mset_filter by (drule words_of_mset) simp

lemma fold_pairs_order:
  assumes "distinct (map fst (share_pairs ws))" and "mset ws = mset ws'"
  shows "fold apply_pair (share_pairs ws) w = fold apply_pair (share_pairs ws') w"
proof -
  have "apply_pair x \<circ> apply_pair y = apply_pair y \<circ> apply_pair x"
    if "x \<in> set (share_pairs ws)" "y \<in> set (share_pairs ws)" for x y
    using assms(1) that by (intro apply_pair_commute) (metis distinct_map inj_onD)
  from fold_multiset_equiv [OF this share_pairs_mset [OF assms(2)]] show ?thesis by simp
qed

lemma mode_words_comma: "CHR '','' \<notin> set w" if "w \<in> set (mode_words (Split CHR '','' s))"
proof -
  from that obtain x where "x \<in> set (Split CHR '','' s)" and "w = TrimSpace x"
    by (auto simp: mode_words_def words_of_def)
  with TrimSpace_set [of x] Split_no_sep show ?thesis by blast
qed

lemma ParseMode_Join:
  assumes "\<And>w. w \<in> set ms \<Longrightarrow> CHR '','' \<notin> set w"
  shows "ParseMode (Join '','' ms) = parse_mode_words (Join '','' ms) (if ms = [] then [[]] else ms) ModeUnset"
  unfolding ParseMode_def using assms by (auto simp: Split_Join)

section \<open>Properties\<close>

text \<open>Reading back the canonical spelling of a mode gives the mode, for every mode that names
  an axis.\<close>

theorem ParseMode_String:
  assumes "m \<noteq> ModeUnset"
  shows "ParseMode (mode_String m) = Inr m"
  using assms
  by (cases m; cases "m_Read m"; cases "m_Write m")
    (simp_all add: ParseMode_def mode_String_def ModeUnset_def parseModeWord_def parseRead_def parseWrite_def
      dockerWords_def DefaultMode_def Cut_def plain_def)

text \<open>Claim C35. What a mount says does not depend on the order of its words: a list that is accepted is
  accepted with the same meaning in every order.\<close>

theorem ParseMount_order:
  assumes "ParseMount s = Inr w" and "mset (Split CHR '','' s') = mset (Split CHR '','' s)"
  shows "ParseMount s' = Inr w"
proof -
  let ?ws = "Split CHR '','' s" and ?ws' = "Split CHR '','' s'"
  from assms(1) obtain w0 ms mode where p0: "parse_mount_words s ?ws no_words [] [] = Inr (w0, ms)"
    and m0: "ParseMode (Join '','' ms) = Inr mode" and w: "w = w0\<lparr>w_Mode := mode\<rparr>"
    unfolding ParseMount_def by (auto split: sum.splits prod.splits)
  have ms0: "ms = mode_words ?ws" using p0 unfolding parse_mount_words_iff by simp
  note p = p0 [unfolded ms0] and m = m0 [unfolded ms0]
  from p have d: "distinct (map fst (share_pairs ?ws))" and f: "fold apply_pair (share_pairs ?ws) (Some no_words) = Some w0"
    unfolding parse_mount_words_iff by simp_all
  have ms: "mset (mode_words ?ws) = mset (mode_words ?ws')"
    by (rule mode_words_mset [OF assms(2) [symmetric]])
  have "distinct (map fst (share_pairs ?ws'))"
    using d mset_eq_imp_distinct_iff [of "map fst (share_pairs ?ws)" "map fst (share_pairs ?ws')"]
      share_pairs_mset [OF assms(2)] by simp
  with f fold_pairs_order [OF d assms(2) [symmetric]]
  have "parse_mount_words s' ?ws' no_words [] [] = Inr (w0, mode_words ?ws')"
    unfolding parse_mount_words_iff by simp
  moreover have "ParseMode (Join '','' (mode_words ?ws')) = Inr mode"
  proof -
    have "mset (if mode_words ?ws = [] then [[]] else mode_words ?ws) =
        mset (if mode_words ?ws' = [] then [[]] else mode_words ?ws')"
      using ms by auto
    from mode_words_order [OF this, of "Join '','' (mode_words ?ws)" ModeUnset mode "Join '','' (mode_words ?ws')"] m
    show ?thesis
      by (simp only: ParseMode_Join [of "mode_words ?ws", OF mode_words_comma]
          ParseMode_Join [of "mode_words ?ws'", OF mode_words_comma])
  qed
  ultimately show ?thesis by (simp add: ParseMount_def w)
qed

lemma digits_val_octal: "digits_val 8 (octal w n) = n mod 8 ^ w"
proof (induction w arbitrary: n)
  case 0
  show ?case by (simp add: digits_val_def)
next
  case (Suc w)
  have "8 * (n div 8 mod 8 ^ w) + n mod 8 = n mod (8 * 8 ^ w)"
    by (simp add: mod_mult2_eq)
  with Suc show ?case by simp
qed

lemma octal_digits: "list_all (\<lambda>c. is_digit c \<and> digit_val c < 8 \<and> c \<in> set ''01234567'') (octal w n)"
proof (induction w arbitrary: n)
  case (Suc w)
  have "digit k \<in> set ''01234567''" if "k < 8" for k
  proof -
    from that have "k \<in> {0, 1, 2, 3, 4, 5, 6, 7}" by auto
    then show ?thesis by (auto simp: digit_def char_of_eq_iff take_bit_eq_mod)
  qed
  with Suc show ?case by simp
qed simp

lemma length_octal [simp]: "length (octal w n) = w"
  by (induction w arbitrary: n) auto

lemma digit_chars:
  "digit 0 = CHR ''0''" "digit (Suc 0) = CHR ''1''" "digit 1 = CHR ''1''" "digit 2 = CHR ''2''" "digit 3 = CHR ''3''"
  "digit 4 = CHR ''4''" "digit 5 = CHR ''5''" "digit 6 = CHR ''6''" "digit 7 = CHR ''7''" "digit 8 = CHR ''8''"
  "digit 9 = CHR ''9''"
  by (simp_all add: digit_def char_of_eq_iff take_bit_eq_mod)

lemma octal_4:
  "octal 4 n = [digit (n div 8 div 8 div 8 mod 8), digit (n div 8 div 8 mod 8), digit (n div 8 mod 8), digit (n mod 8)]"
proof -
  have "(4 :: nat) = Suc (Suc (Suc (Suc 0)))" by simp
  then show ?thesis by (simp only: octal.simps append.simps)
qed

lemma octal_plain: "list_all plain (octal w n)"
  using octal_digits [of w n] by (auto simp: list_all_iff is_digit_plain)

lemma ParseUint_octal: "n < 8 ^ w \<Longrightarrow> 0 < w \<Longrightarrow> n < 2 ^ bits \<Longrightarrow> ParseUint (octal w n) 8 bits = Some n"
  using octal_digits [of w n]
  by (cases w) (auto simp: ParseUint_def digits_val_octal list_all_iff)

lemma parseMask_String:
  assumes "k_Set m" and "k_Bits m \<le> 511"
  shows "parseMask name (mask_String m) = Inr m"
proof -
  have "set (octal 4 (k_Bits m)) \<subseteq> set ''01234567''"
    using octal_digits [of 4 "k_Bits m"] by (auto simp: list_all_iff)
  moreover have "octal 4 (k_Bits m) \<noteq> []" by (simp add: octal_4)
  ultimately show ?thesis
    using assms octal_plain [of 4 "k_Bits m"]
    by (simp add: parseMask_def Let_def mask_String_def Trim_empty ParseUint_octal)
qed

text \<open>Every way a share can be told its owner and its masks reads back what it spells: an owner
  with 32-bit ids from its canonical spelling, a file mask of permission bits from its four octal
  digits, and a directory mask likewise unless it clears every execute bit, which is refused.\<close>

theorem owner_and_mask_roundtrip:
  assumes "o_Set ow" and "o_UID ow < 2 ^ 32" and "o_GID ow < 2 ^ 32"
    and "k_Set m" and "k_Bits m \<le> 511"
  shows "ParseOwner (owner_String ow) = Inr ow \<and>
    ParseFileMask (mask_String m) = Inr m \<and>
    ParseDirMask (mask_String m) = (if and (k_Bits m) 73 = 73 then Inl (NoExecuteBit (k_Bits m)) else Inr m)"
proof -
  let ?u = "nat_digits (o_UID ow)" and ?g = "nat_digits (o_GID ow)"
  have u: "list_all is_digit ?u" "list_all is_digit ?g" by (simp_all add: nat_digits_digits)
  have "list_all plain (owner_String ow)"
    using assms(1) u by (auto simp: owner_String_def list_all_iff is_digit_plain, simp add: plain_def)
  then have trim: "TrimSpace (owner_String ow) = owner_String ow" by simp
  have "\<not> is_digit CHR '':''" by (simp add: is_digit_def)
  then have "takeWhile is_digit (owner_String ow) = ?u" and "dropWhile is_digit (owner_String ow) = CHR '':'' # ?g"
    using assms(1) u by (simp_all add: owner_String_def list_all_iff takeWhile_append2 dropWhile_append2)
  moreover have "dropWhile is_digit (owner_String ow) \<noteq> []" using calculation(2) by simp
  ultimately have owner: "ParseOwner (owner_String ow) = Inr ow"
    using assms(1-3) trim by (simp only: ParseOwner_def Let_def) (simp add: ParseUint_nat_digits RuneError_def)
  note mask = parseMask_String [OF assms(4,5)]
  from owner mask show ?thesis by (simp add: ParseFileMask_def ParseDirMask_def)
qed

text \<open>A directory mask that is accepted never hides every directory: of the three execute bits
  at least one is left, and nothing but permission bits is masked.\<close>

theorem ParseDirMask_leaves_execute:
  assumes "ParseDirMask s = Inr m"
  shows "k_Bits m \<le> 511 \<and> k_Set m \<and> (\<exists>b \<in> {0, 3, 6}. \<not> bit (k_Bits m) b)"
proof -
  from assms have m: "parseMask ''dmask'' s = Inr m" and x: "and (k_Bits m) 73 \<noteq> 73"
    by (auto simp: ParseDirMask_def split: sum.splits if_splits)
  from m have "k_Bits m \<le> 511 \<and> k_Set m"
    by (auto simp: parseMask_def Let_def split: option.splits if_splits)
  moreover have "\<exists>b \<in> {0, 3, 6}. \<not> bit (k_Bits m) b"
  proof (rule ccontr)
    assume "\<not> ?thesis"
    then have "bit (k_Bits m) 0" "bit (k_Bits m) 3" "bit (k_Bits m) 6" by auto
    moreover have "(73 :: nat) = or (2 ^ 0) (or (2 ^ 3) (2 ^ 6))" by simp
    then have "bit (73 :: nat) n \<longleftrightarrow> n \<in> {0, 3, 6}" for n
      by (simp only: bit_or_iff bit_exp_iff) auto
    ultimately have "and (k_Bits m) 73 = 73"
      by (intro bit_eqI) (auto simp: bit_and_iff)
    with x show False by contradiction
  qed
  ultimately show ?thesis by blast
qed

text \<open>Every word a mount's list is accepted with is a word the option list claims for this
  program, so that none of them is also passed on to the daemon.\<close>

theorem accepted_words_are_claimed:
  assumes "ParseMount s = Inr w" and "word \<in> set (Split CHR '','' s)" and "TrimSpace word \<noteq> []"
  shows "IsModeWord word"
proof -
  let ?ws = "Split CHR '','' s"
  from assms(1) obtain w0 ms mode where p: "parse_mount_words s ?ws no_words [] [] = Inr (w0, ms)"
    and m: "ParseMode (Join '','' ms) = Inr mode"
    unfolding ParseMount_def by (auto split: sum.splits prod.splits)
  have ms: "ms = mode_words ?ws" using p unfolding parse_mount_words_iff by simp
  show ?thesis
  proof (cases "share_pair (TrimSpace word)")
    case (Some kv)
    then show ?thesis by (auto simp: share_pair_def IsModeWord_def Let_def split: option.splits if_splits)
  next
    case None
    with assms(2,3) have mem: "TrimSpace word \<in> set ms" by (auto simp: ms mode_words_def words_of_def)
    from m have "parse_mode_words (Join '','' ms) (if ms = [] then [[]] else ms) ModeUnset = Inr mode"
      using ParseMode_Join [of "mode_words ?ws", OF mode_words_comma] by (simp only: ms)
    then have "list_all mode_word_ok (if ms = [] then [[]] else ms)"
      unfolding parse_mode_words_iff by blast
    with mem have "mode_word_ok (TrimSpace word)" by (auto simp: list_all_iff split: if_splits)
    with assms(3) obtain got where "parseModeWord (TrimSpace word) = Inr got" by (auto simp: mode_word_ok_def)
    then show ?thesis
      by (auto simp: parseModeWord_def IsModeWord_def Let_def split: option.splits if_splits sum.splits)
  qed
qed

text \<open>A share that several mounts use is watched and prefetched at the strongest level any of
  them named, whichever came first, and at no level if none named one.\<close>

theorem share_runs_at_the_strongest_level:
  assumes "mset ws = mset ws'" and "mset ps = mset ps'"
  shows "let w = fold (\<lambda>w l. watch_Max l w) ws WatchUnset; p = fold (\<lambda>p l. prefetch_Max l p) ps PrefetchUnset
    in fold (\<lambda>w l. watch_Max l w) ws' WatchUnset = w \<and> fold (\<lambda>p l. prefetch_Max l p) ps' PrefetchUnset = p \<and>
       (\<forall>x \<in> set ws. watchRank x \<le> watchRank w) \<and> (w = WatchUnset \<longleftrightarrow> (\<forall>x \<in> set ws. x = WatchUnset)) \<and>
       (\<forall>x \<in> set ps. prefetchRank x \<le> prefetchRank p) \<and> (p = PrefetchUnset \<longleftrightarrow> (\<forall>x \<in> set ps. x = PrefetchUnset))"
  using watch_levels.raised_in_any_order [OF assms(1), of WatchUnset] watch_levels.raised [of ws WatchUnset]
    prefetch_levels.raised_in_any_order [OF assms(2), of PrefetchUnset] prefetch_levels.raised [of ps PrefetchUnset]
  by (simp add: Let_def)

section \<open>Witnesses\<close>

lemmas mode_eval = ParseMode_def mode_String_def ModeUnset_def parseModeWord_def parseRead_def parseWrite_def
  dockerWords_def DefaultMode_def Cut_def plain_def

theorem ParseMode_String_witness:
  "ParseMode (mode_String \<lparr>m_Read = ReadCached, m_Write = WriteBack\<rparr>) = Inr \<lparr>m_Read = ReadCached, m_Write = WriteBack\<rparr>"
  by (rule ParseMode_String) (simp add: ModeUnset_def)

definition ex_words :: MountWords where
  "ex_words = no_words\<lparr>w_Watch := WatchCoarse, w_Mode := \<lparr>m_Read = ReadCached, m_Write = WriteBack\<rparr>\<rparr>"

lemma ex_ParseMount: "ParseMount ''watch=coarse,write=back,read=cached'' = Inr ex_words"
  by (simp add: ParseMount_def mode_eval share_word_def ParseWatch_def isShareKey_def shareKeySetting_def
      no_words_def ex_words_def)

theorem ParseMount_order_witness: "ParseMount ''read=cached,watch=coarse,write=back'' = Inr ex_words"
  by (rule ParseMount_order [OF ex_ParseMount]) (simp add: add_mset_commute)

theorem owner_and_mask_roundtrip_witness:
  "ParseOwner ''1000:2000'' = Inr \<lparr>o_UID = 1000, o_GID = 2000, o_Set = True\<rparr> \<and>
   ParseFileMask ''0111'' = Inr \<lparr>k_Bits = 73, k_Set = True\<rparr> \<and>
   ParseDirMask ''0111'' = Inl (NoExecuteBit 73)"
  using owner_and_mask_roundtrip [of "\<lparr>o_UID = 1000, o_GID = 2000, o_Set = True\<rparr>" "\<lparr>k_Bits = 73, k_Set = True\<rparr>"]
  by (simp add: owner_String_def mask_String_def octal_4 nat_digits.simps digit_chars)

theorem ParseDirMask_leaves_execute_witness:
  "ParseDirMask ''0022'' = Inr \<lparr>k_Bits = 18, k_Set = True\<rparr> \<and> (\<exists>b \<in> {0, 3, 6}. \<not> bit (18 :: nat) b)"
proof -
  have m: "ParseDirMask ''0022'' = Inr \<lparr>k_Bits = 18, k_Set = True\<rparr>"
    using parseMask_String [of "\<lparr>k_Bits = 18, k_Set = True\<rparr>" "''dmask''"]
    by (simp add: ParseDirMask_def mask_String_def octal_4 digit_chars)
  with ParseDirMask_leaves_execute [OF m] show ?thesis by simp
qed

theorem accepted_words_are_claimed_witness: "IsModeWord ''watch=coarse''"
  by (rule accepted_words_are_claimed [OF ex_ParseMount]) (simp_all add: plain_def)

theorem share_runs_at_the_strongest_level_witness:
  "fold (\<lambda>w l. watch_Max l w) [WatchCoarse, WatchUnset, WatchOff] WatchUnset =
     fold (\<lambda>w l. watch_Max l w) [WatchOff, WatchCoarse, WatchUnset] WatchUnset"
  using share_runs_at_the_strongest_level [of "[WatchOff, WatchCoarse, WatchUnset]" "[WatchCoarse, WatchUnset, WatchOff]" "[]" "[]"]
  by (simp add: Let_def add_mset_commute)

end
