(* ===== verification/Digest.thy ===== *)
theory Digest
  imports Go_Prelude "HOL-Library.Word"
begin

text \<open>
  \<open>crypto/sha256\<close> and \<open>encoding/hex\<close>: the digest of FIPS 180-4 on 32-bit words, and its lower case
  hexadecimal spelling. Client ids, share ids and token names are prefixes of such a digest.
\<close>

section \<open>SHA-256\<close>

type_synonym u32 = "32 word"

text \<open>The standard's constants are the first 32 bits of the fractional parts of the cube roots of the first
  64 primes, and of the square roots of the first eight for the initial state. The root is found bit by
  bit: the largest \<open>r\<close> with \<open>r ^ k \<le> n\<close>.\<close>

fun root_from :: "nat \<Rightarrow> int \<Rightarrow> nat \<Rightarrow> int \<Rightarrow> int" where
  "root_from k n 0 r = r"
| "root_from k n (Suc b) r = root_from k n b (if (r + 2 ^ b) ^ k \<le> n then r + 2 ^ b else r)"

definition root_fraction :: "nat \<Rightarrow> int \<Rightarrow> u32" where
  "root_fraction k p = of_int (root_from k (p * 2 ^ (32 * k)) 36 0)"

definition primes_64 :: "int list" where
  "primes_64 = filter (\<lambda>p. list_all (\<lambda>d. p mod d \<noteq> 0) [2..p - 1]) [2..311]"

definition sha_K :: "u32 list" where
  "sha_K = map (root_fraction 3) primes_64"

type_synonym sha_state = "u32 \<times> u32 \<times> u32 \<times> u32 \<times> u32 \<times> u32 \<times> u32 \<times> u32"

definition sha_init :: sha_state where
  "sha_init =
     (root_fraction 2 2, root_fraction 2 3, root_fraction 2 5, root_fraction 2 7,
      root_fraction 2 11, root_fraction 2 13, root_fraction 2 17, root_fraction 2 19)"

text \<open>The message, padded to a multiple of 64 bytes: a one bit, zeros and the length in bits.\<close>

fun be_bytes :: "nat \<Rightarrow> nat \<Rightarrow> nat list" where
  "be_bytes 0 n = []"
| "be_bytes (Suc w) n = be_bytes w (n div 256) @ [n mod 256]"

definition sha_pad :: "nat list \<Rightarrow> nat list" where
  "sha_pad m = m @ [128] @ replicate ((119 - length m mod 64) mod 64) 0 @ be_bytes 8 (8 * length m)"

fun be_words :: "nat list \<Rightarrow> u32 list" where
  "be_words (a # b # c # d # bs) = of_nat (((a * 256 + b) * 256 + c) * 256 + d) # be_words bs"
| "be_words _ = []"

text \<open>The message schedule, newest word first.\<close>

fun sha_schedule :: "nat \<Rightarrow> u32 list \<Rightarrow> u32 list" where
  "sha_schedule 0 ws = ws"
| "sha_schedule (Suc n) ws =
     (let w2 = ws ! 1; w7 = ws ! 6; w15 = ws ! 14; w16 = ws ! 15;
          s0 = xor (xor (word_rotr 7 w15) (word_rotr 18 w15)) (drop_bit 3 w15);
          s1 = xor (xor (word_rotr 17 w2) (word_rotr 19 w2)) (drop_bit 10 w2)
      in sha_schedule n ((s1 + w7 + s0 + w16) # ws))"

fun sha_round :: "u32 \<times> u32 \<Rightarrow> sha_state \<Rightarrow> sha_state" where
  "sha_round (k, w) (a, b, c, d, e, f, g, h) =
     (let s1 = xor (xor (word_rotr 6 e) (word_rotr 11 e)) (word_rotr 25 e);
          ch = xor (and e f) (and (not e) g);
          t1 = h + s1 + ch + k + w;
          s0 = xor (xor (word_rotr 2 a) (word_rotr 13 a)) (word_rotr 22 a);
          maj = xor (xor (and a b) (and a c)) (and b c)
      in (t1 + (s0 + maj), a, b, c, d + t1, e, f, g))"

fun sha_add :: "sha_state \<Rightarrow> sha_state \<Rightarrow> sha_state" where
  "sha_add (a, b, c, d, e, f, g, h) (a', b', c', d', e', f', g', h') =
     (a + a', b + b', c + c', d + d', e + e', f + f', g + g', h + h')"

definition sha_block :: "nat list \<Rightarrow> sha_state \<Rightarrow> sha_state" where
  "sha_block bs st = sha_add st (fold sha_round (zip sha_K (rev (sha_schedule 48 (rev (be_words bs))))) st)"

fun sha_blocks :: "nat \<Rightarrow> nat list \<Rightarrow> sha_state \<Rightarrow> sha_state" where
  "sha_blocks 0 bs st = st"
| "sha_blocks (Suc n) bs st = sha_blocks n (drop 64 bs) (sha_block (take 64 bs) st)"

definition sha_bytes :: "sha_state \<Rightarrow> nat list" where
  "sha_bytes = (\<lambda>(a, b, c, d, e, f, g, h). concat (map (\<lambda>w. be_bytes 4 (unat w)) [a, b, c, d, e, f, g, h]))"

definition Sum256 :: "string \<Rightarrow> nat list" where
  "Sum256 s = (let m = sha_pad (map of_char s) in sha_bytes (sha_blocks (length m div 64) m sha_init))"

section \<open>Hexadecimal\<close>

definition hex_digit :: "nat \<Rightarrow> char" where
  "hex_digit n = (if n < 10 then char_of (48 + n) else char_of (87 + n))"

definition EncodeToString :: "nat list \<Rightarrow> string" where
  "EncodeToString bs = concat (map (\<lambda>b. [hex_digit (b div 16), hex_digit (b mod 16)]) bs)"

definition is_lower_hex :: "char \<Rightarrow> bool" where
  "is_lower_hex c \<longleftrightarrow> 48 \<le> byte c \<and> byte c \<le> 57 \<or> 97 \<le> byte c \<and> byte c \<le> 102"

definition is_hex :: "char \<Rightarrow> bool" where
  "is_hex c \<longleftrightarrow> is_lower_hex c \<or> 65 \<le> byte c \<and> byte c \<le> 70"

text \<open>\<open>hex.DecodeString\<close> fails exactly on an odd length or another character.\<close>

definition hex_decodes :: "string \<Rightarrow> bool" where
  "hex_decodes s \<longleftrightarrow> even (length s) \<and> list_all is_hex s"

lemma length_be_bytes [simp]: "length (be_bytes w n) = w"
  by (induction w arbitrary: n) auto

lemma be_bytes_range: "b \<in> set (be_bytes w n) \<Longrightarrow> b < 256"
  by (induction w arbitrary: n) auto

lemma Sum256_length: "length (Sum256 s) = 32"
  by (auto simp: Sum256_def sha_bytes_def Let_def split: prod.splits)

lemma Sum256_range: "b \<in> set (Sum256 s) \<Longrightarrow> b < 256"
  by (auto simp: Sum256_def sha_bytes_def Let_def dest: be_bytes_range split: prod.splits)

lemma hex_digit_lower: "n < 16 \<Longrightarrow> is_lower_hex (hex_digit n)"
  by (auto simp: hex_digit_def is_lower_hex_def take_bit_eq_mod)

lemma is_lower_hex_hex: "is_lower_hex c \<Longrightarrow> is_hex c"
  by (simp add: is_hex_def)

lemma is_hex_plain: "is_hex c \<Longrightarrow> plain c"
  by (auto simp: is_hex_def is_lower_hex_def plain_def)

lemma is_hex_not: "is_hex c \<Longrightarrow> c \<noteq> CHR ''-'' \<and> c \<noteq> CHR '':'' \<and> c \<noteq> CHR ''#'' \<and> c \<noteq> CHR ''/''"
  by (auto simp: is_hex_def is_lower_hex_def)

lemma length_EncodeToString [simp]: "length (EncodeToString bs) = 2 * length bs"
  by (induction bs) (auto simp: EncodeToString_def)

lemma EncodeToString_lower: "(\<And>b. b \<in> set bs \<Longrightarrow> b < 256) \<Longrightarrow> list_all is_lower_hex (EncodeToString bs)"
proof (induction bs)
  case (Cons b bs)
  then have "b div 16 < 16" by (auto simp: less_mult_imp_div_less)
  with Cons show ?case by (simp add: EncodeToString_def hex_digit_lower)
qed (simp add: EncodeToString_def)

definition hex_digest :: "string \<Rightarrow> string" where
  "hex_digest s = EncodeToString (Sum256 s)"

lemma hex_digest_shape: "length (hex_digest s) = 64" "list_all is_lower_hex (hex_digest s)"
  by (simp_all add: hex_digest_def Sum256_length EncodeToString_lower Sum256_range)

lemma hex_prefix_shape:
  assumes "n \<le> 64"
  shows "length (take n (hex_digest s)) = n" "list_all is_lower_hex (take n (hex_digest s))"
  using assms hex_digest_shape [of s] by (auto simp: list_all_iff dest: in_set_takeD)

text \<open>\<open>hex.DecodeString\<close>, and that it gives back what was encoded.\<close>

definition hex_val :: "char \<Rightarrow> nat" where
  "hex_val c = (if byte c \<le> 57 then byte c - 48 else if byte c \<le> 70 then byte c - 55 else byte c - 87)"

fun hex_bytes :: "string \<Rightarrow> nat list" where
  "hex_bytes (a # b # s) = (16 * hex_val a + hex_val b) # hex_bytes s"
| "hex_bytes _ = []"

definition hex_DecodeString :: "string \<Rightarrow> nat list option" where
  "hex_DecodeString s = (if hex_decodes s then Some (hex_bytes s) else None)"

lemma hex_val_digit: "n < 16 \<Longrightarrow> hex_val (hex_digit n) = n"
  by (simp add: hex_val_def hex_digit_def take_bit_eq_mod)

lemma hex_bytes_Encode: "(\<And>b. b \<in> set bs \<Longrightarrow> b < 256) \<Longrightarrow> hex_bytes (EncodeToString bs) = bs"
proof (induction bs)
  case (Cons b bs)
  then have "b div 16 < 16" "b mod 16 < 16" by (simp_all add: less_mult_imp_div_less)
  with Cons show ?case by (simp add: EncodeToString_def hex_val_digit)
qed (simp add: EncodeToString_def)

lemma hex_DecodeString_Encode:
  assumes "\<And>b. b \<in> set bs \<Longrightarrow> b < 256"
  shows "hex_DecodeString (EncodeToString bs) = Some bs"
  using EncodeToString_lower [OF assms] hex_bytes_Encode [OF assms]
  by (auto simp: hex_DecodeString_def hex_decodes_def list_all_iff is_lower_hex_hex)

end
