(* ===== verification/Share_Names.thy ===== *)
theory Share_Names
  imports Mount_Words Digest Port_Assignments
begin

text \<open>
  Names that the client and the agent derive on their own and must agree on.

  \<^item> \<open>core/workspace/account.go\<close>: account names. \<open>core/workspace/client.go\<close>: the ids of machines and runs.
  \<^item> \<open>core/workspace/export.go\<close>: a directory's canonical key, the id of a share and its variant, export
    paths and volume names, and the mount options of a volume.
  \<^item> \<open>core/workspace/sharepath.go\<close>: the spelling of a path within a share.
  \<^item> \<open>core/workspace/ports.go\<close>: the label that records the ports a container asked for.

  The lemmas show that an account name is one Linux accepts and derives itself again; that what is
  hashed into a share's or a run's id determines the share or the run; that volume names read back
  and are apart for different machines and shares; that a path is accepted exactly when it is
  absolute, already clean and free of foreign separators; and that the ports label reads back, and
  bounds what any label can ask for.
\<close>

section \<open>Paths\<close>

text \<open>\<open>path.Clean\<close>: a path's elements, with the parents resolved that can be.\<close>

fun clean_parts :: "bool \<Rightarrow> string list \<Rightarrow> string list \<Rightarrow> string list" where
  "clean_parts rooted out [] = rev out"
| "clean_parts rooted out (p # ps) =
     (if p = [] \<or> p = ''.'' then clean_parts rooted out ps
      else if p = ''..''
      then (case out of
              x # out' \<Rightarrow> if x \<noteq> ''..'' then clean_parts rooted out' ps else clean_parts rooted (p # out) ps
            | [] \<Rightarrow> if rooted then clean_parts rooted [] ps else clean_parts rooted [p] ps)
      else clean_parts rooted (p # out) ps)"

definition path_Clean :: "string \<Rightarrow> string" where
  "path_Clean p =
     (let rooted = HasPrefix p ''/'';
          parts = clean_parts rooted [] (Split CHR ''/'' p)
      in if rooted then ''/'' @ Join ''/'' parts
         else if parts = [] then ''.'' else Join ''/'' parts)"

text \<open>\<open>utf8.AppendRune\<close> and \<open>strings.ToLower\<close>, the lower case of a rune that is not ASCII in \<open>other\<close>.\<close>

definition EncodeRune :: "nat \<Rightarrow> string" where
  "EncodeRune r =
     (let r = (if 1114111 < r \<or> 55296 \<le> r \<and> r \<le> 57343 then RuneError else r)
      in bytes (if r < 128 then [r]
                else if r < 2048 then [192 + r div 64, 128 + r mod 64]
                else if r < 65536 then [224 + r div 4096, 128 + r div 64 mod 64, 128 + r mod 64]
                else [240 + r div 262144, 128 + r div 4096 mod 64, 128 + r div 64 mod 64, 128 + r mod 64]))"

definition ToLower :: "(nat \<Rightarrow> nat) \<Rightarrow> string \<Rightarrow> string" where
  "ToLower other s = concat (map (\<lambda>r. EncodeRune (rune_lower other r)) (runes s))"

definition isDriveLetter :: "char \<Rightarrow> bool" where
  "isDriveLetter c \<longleftrightarrow> 97 \<le> byte c \<and> byte c \<le> 122 \<or> 65 \<le> byte c \<and> byte c \<le> 90"

definition canonicalKeyFor :: "(nat \<Rightarrow> nat) \<Rightarrow> string \<Rightarrow> string \<Rightarrow> string" where
  "canonicalKeyFor other goos p =
     (if goos \<noteq> ''windows'' then path_Clean p
      else
        let p = map (\<lambda>c. if byte c = 92 then CHR ''/'' else c) p;
            p = (case CutPrefix p ''//?/'' of
                   None \<Rightarrow> p
                 | Some rest \<Rightarrow> (case CutPrefix rest ''UNC/'' of Some unc \<Rightarrow> ''//'' @ unc | None \<Rightarrow> rest))
        in (case CutPrefix p ''//'' of
              Some rest \<Rightarrow> ToLower other (''//'' @ TrimPrefix (path_Clean (''/'' @ rest)) ''/'')
            | None \<Rightarrow>
                if length p \<ge> 2 \<and> p ! 1 = CHR '':'' \<and> isDriveLetter (p ! 0)
                then (if drop 2 p = [] then ToLower other (take 2 p)
                      else ToLower other (take 2 p @ path_Clean (drop 2 p)))
                else ToLower other (path_Clean p)))"

section \<open>Shares\<close>

definition ExportMountPrefix :: string where
  "ExportMountPrefix = ''/m/''"

definition VolumeNamePrefix :: string where
  "VolumeNamePrefix = ''rd-''"

definition idLen :: nat where
  "idLen = 16"

record ShareVariant =
  v_Mode :: Mode
  v_Owner :: Owner
  v_FMask :: Mask
  v_DMask :: Mask

definition Variant :: "'a ShareWords_scheme \<Rightarrow> Mode \<Rightarrow> ShareVariant" where
  "Variant w mode = \<lparr>v_Mode = mode, v_Owner = w_Owner w, v_FMask = w_FMask w, v_DMask = w_DMask w\<rparr>"

definition digestID :: "string \<Rightarrow> string" where
  "digestID key = take idLen (hex_digest key)"

definition nul :: char where
  "nul = CHR 0x00"

text \<open>What the id of a share is the digest of.\<close>

definition share_key :: "string \<Rightarrow> ShareVariant \<Rightarrow> string" where
  "share_key path v =
     path @ [nul] @ read_word (m_Read (v_Mode v)) @ [nul] @ write_word (m_Write (v_Mode v)) @ [nul] @
     nat_digits (o_UID (v_Owner v)) @ '':'' @ nat_digits (o_GID (v_Owner v)) @
     (if k_Bits (v_FMask v) \<noteq> 0 then [nul, CHR ''f''] @ mask_String (v_FMask v) else []) @
     (if k_Bits (v_DMask v) \<noteq> 0 then [nul, CHR ''d''] @ mask_String (v_DMask v) else [])"

definition ShareIDFor :: "(nat \<Rightarrow> nat) \<Rightarrow> string \<Rightarrow> string \<Rightarrow> ShareVariant \<Rightarrow> string" where
  "ShareIDFor other goos localPath v = digestID (share_key (canonicalKeyFor other goos localPath) v)"

definition LegacyShareID :: "(nat \<Rightarrow> nat) \<Rightarrow> string \<Rightarrow> string \<Rightarrow> string" where
  "LegacyShareID other goos localPath = digestID (canonicalKeyFor other goos localPath)"

definition ExportPathForID :: "string \<Rightarrow> string" where
  "ExportPathForID i = ExportMountPrefix @ i"

definition VolumeNameForID :: "string \<Rightarrow> string \<Rightarrow> string" where
  "VolumeNameForID client i =
     (if client = [] then VolumeNamePrefix @ i else VolumeNamePrefix @ client @ ''-'' @ i)"

definition cacheSuffix :: string where
  "cacheSuffix = ''-cache''"

definition CacheVolumeName :: "string \<Rightarrow> string" where
  "CacheVolumeName share = share @ cacheSuffix"

definition VolumeNameForCache :: "string \<Rightarrow> string \<Rightarrow> string" where
  "VolumeNameForCache client i = CacheVolumeName (VolumeNameForID client i)"

definition IsManagedVolume :: "string \<Rightarrow> bool" where
  "IsManagedVolume name \<longleftrightarrow> HasPrefix name VolumeNamePrefix"

datatype id_error =
  NeitherExportNorVolume string
| NoShareID string
| NotHexID string

definition parseID :: "string \<Rightarrow> id_error + string" where
  "parseID s =
     (let checked = (\<lambda>i. if length i \<noteq> idLen then Inl (NoShareID s)
                        else if \<not> hex_decodes i then Inl (NotHexID s) else Inr i)
      in if HasPrefix s ExportMountPrefix then checked (TrimPrefix s ExportMountPrefix)
         else if HasPrefix s VolumeNamePrefix then checked (TrimPrefix s VolumeNamePrefix)
         else Inl (NeitherExportNorVolume s))"

definition VolumeNameForExport :: "string \<Rightarrow> string \<Rightarrow> id_error + string" where
  "VolumeNameForExport client exportPath =
     (case parseID exportPath of Inl e \<Rightarrow> Inl e | Inr i \<Rightarrow> Inr (VolumeNameForID client i))"

definition CacheVolumeForExport :: "string \<Rightarrow> string \<Rightarrow> id_error + string" where
  "CacheVolumeForExport client exportPath =
     (case VolumeNameForExport client exportPath of Inl e \<Rightarrow> Inl e | Inr name \<Rightarrow> Inr (CacheVolumeName name))"

definition validShare :: "string \<Rightarrow> bool" where
  "validShare share \<longleftrightarrow> (case parseID (VolumeNamePrefix @ share) of Inl _ \<Rightarrow> False | Inr _ \<Rightarrow> True)"

definition clientIDLen :: nat where
  "clientIDLen = 8"

definition validClient :: "string \<Rightarrow> bool" where
  "validClient s \<longleftrightarrow> length s = clientIDLen \<and> hex_decodes s"

definition ParseVolumeName :: "string \<Rightarrow> string \<times> string \<times> bool" where
  "ParseVolumeName name =
     (case CutPrefix name VolumeNamePrefix of
        None \<Rightarrow> ([], [], False)
      | Some rest \<Rightarrow>
          let rest = TrimSuffix rest cacheSuffix
          in (case Cut CHR ''-'' rest of
                None \<Rightarrow> ([], rest, validShare rest)
              | Some (client, share) \<Rightarrow>
                  if \<not> validClient client then ([], [], False) else (client, share, validShare share)))"

definition IsCacheVolume :: "string \<Rightarrow> bool" where
  "IsCacheVolume name \<longleftrightarrow> IsManagedVolume name \<and> HasSuffix name cacheSuffix"

definition ValidExport :: "string \<Rightarrow> id_error option" where
  "ValidExport exportPath = (case parseID exportPath of Inl e \<Rightarrow> Some e | Inr _ \<Rightarrow> None)"

definition NConnectMax :: int where
  "NConnectMax = 16"

definition nconnectOption :: "int \<Rightarrow> string list" where
  "nconnectOption n = (if n < 2 \<or> n > NConnectMax then [] else [''nconnect='' @ Itoa n])"

definition NFSVolumeOptions :: "int \<Rightarrow> string \<Rightarrow> read_mode \<Rightarrow> int \<Rightarrow> (string, string) gomap" where
  "NFSVolumeOptions port exportPath read nconnect =
     (let options =
        [''addr=127.0.0.1'', ''port='' @ Itoa port, ''mountport='' @ Itoa port,
         ''nfsvers=3'', ''nolock'', ''noacl'', ''soft'', ''timeo=600'', ''retrans=2''] @
        attributeOptions read @ [''noatime'', ''rsize=1048576'', ''wsize=1048576''] @ nconnectOption nconnect
      in [(''type'', ''nfs''), (''o'', Join '','' options), (''device'', '':'' @ exportPath)])"

section \<open>Machines and runs\<close>

definition ClientID :: "string \<Rightarrow> string" where
  "ClientID publicKeyWire = take clientIDLen (hex_digest publicKeyWire)"

definition RunRequest :: string where
  "RunRequest = ''remote-docker-run''"

text \<open>What the id of a run is the digest of; the length is \<open>uint32\<close>.\<close>

definition run_preimage :: "string \<Rightarrow> string \<Rightarrow> string" where
  "run_preimage publicKeyWire runID =
     RunRequest @ [nul] @ bytes (be_bytes 4 (length publicKeyWire mod 2 ^ 32)) @ publicKeyWire @ runID"

definition EphemeralClientID :: "string \<Rightarrow> string \<Rightarrow> string" where
  "EphemeralClientID publicKeyWire runID = take clientIDLen (hex_digest (run_preimage publicKeyWire runID))"

definition isLowerHex :: "string \<Rightarrow> bool" where
  "isLowerHex s \<longleftrightarrow> list_all (\<lambda>r. \<not> ((r < 48 \<or> r > 57) \<and> (r < 97 \<or> r > 102))) (runes s)"

definition runIDBytes :: nat where
  "runIDBytes = 16"

text \<open>\<open>NewRunID\<close> from the bytes the random source gave.\<close>

definition NewRunID :: "nat list \<Rightarrow> string" where
  "NewRunID random = EncodeToString random"

definition ValidRunID :: "string \<Rightarrow> bool" where
  "ValidRunID s \<longleftrightarrow> length s = 2 * runIDBytes \<and> isLowerHex s"

definition validClientID :: "string \<Rightarrow> bool" where
  "validClientID s \<longleftrightarrow> length s = clientIDLen \<and> isLowerHex s"

section \<open>Accounts\<close>

definition MaxAccountNameLength :: nat where
  "MaxAccountNameLength = 30"

definition account_rune :: "nat \<Rightarrow> char" where
  "account_rune r =
     (if 97 \<le> r \<and> r \<le> 122 \<or> 48 \<le> r \<and> r \<le> 57 \<or> r = 95 \<or> r = 45 then char_of r else CHR ''-'')"

definition AccountName :: "(nat \<Rightarrow> nat) \<Rightarrow> string \<Rightarrow> string option" where
  "AccountName other base =
     (let name = dropWhile (\<lambda>c. c \<in> set ''0123456789-'') (map account_rune (runes (ToLower other base)))
      in if name = [] then None else Some (take MaxAccountNameLength name))"

section \<open>Paths within a share\<close>

datatype path_error =
  PathEmpty
| PathNotAbsolute string
| PathBackslash string
| PathNUL string
| PathEmptyComponent string
| PathDots string string

fun bad_component :: "string \<Rightarrow> string list \<Rightarrow> path_error option" where
  "bad_component p [] = None"
| "bad_component p (part # parts) =
     (if part = [] then Some (PathEmptyComponent p)
      else if part = ''.'' \<or> part = ''..'' then Some (PathDots p part)
      else bad_component p parts)"

definition ValidSharePath :: "string \<Rightarrow> path_error option" where
  "ValidSharePath p =
     (if p = [] then Some PathEmpty
      else if \<not> HasPrefix p ''/'' then Some (PathNotAbsolute p)
      else if char_of (92 :: nat) \<in> set p then Some (PathBackslash p)
      else if nul \<in> set p then Some (PathNUL p)
      else if p = ''/'' then None
      else bad_component p (Split CHR ''/'' (TrimPrefix p ''/'')))"

section \<open>Ports asked for\<close>

type_synonym RequestedPorts = "(string, int list) gomap"

definition ContainerPort :: "(nat \<Rightarrow> nat) \<Rightarrow> int \<Rightarrow> string \<Rightarrow> string" where
  "ContainerPort other port proto = Itoa port @ ''/'' @ ToLower other (if proto = [] then ''tcp'' else proto)"

text \<open>\<open>strings.EqualFold\<close> with an ASCII word of whose letters no other rune is a case variant.\<close>

definition IsTCP :: "string \<Rightarrow> bool" where
  "IsTCP proto \<longleftrightarrow>
     proto = [] \<or> map (\<lambda>c. if 65 \<le> byte c \<and> byte c \<le> 90 then byte c + 32 else byte c) proto = map of_char ''tcp''"

definition ProtoOf :: "string \<Rightarrow> string" where
  "ProtoOf containerPort = (case Cut CHR ''/'' containerPort of None \<Rightarrow> [] | Some (_, proto) \<Rightarrow> proto)"

definition req_Add :: "string \<Rightarrow> int \<Rightarrow> RequestedPorts \<Rightarrow> RequestedPorts" where
  "req_Add containerPort port r =
     mput containerPort ((case mget r containerPort of None \<Rightarrow> [] | Some l \<Rightarrow> l) @ [port]) r"

definition req_At :: "RequestedPorts \<Rightarrow> string \<Rightarrow> int \<Rightarrow> int" where
  "req_At r containerPort index =
     (let l = (case mget r containerPort of None \<Rightarrow> [] | Some l \<Rightarrow> l)
      in if index < 0 \<or> index \<ge> int (length l) then 0 else l ! nat index)"

definition req_part :: "string \<times> int list \<Rightarrow> string" where
  "req_part = (\<lambda>(k, ports). k @ ''='' @ Join '';'' (map Itoa (sort ports)))"

definition req_String :: "RequestedPorts \<Rightarrow> string" where
  "req_String r =
     Join '','' (map (\<lambda>k. req_part (k, case mget r k of None \<Rightarrow> [] | Some l \<Rightarrow> l)) (sort (map fst r)))"

definition maxRequestedPorts :: nat where
  "maxRequestedPorts = 1024"

fun parse_numbers :: "string \<Rightarrow> string list \<Rightarrow> RequestedPorts \<times> nat \<Rightarrow> RequestedPorts \<times> nat" where
  "parse_numbers key [] (out, n) = (out, n)"
| "parse_numbers key (number # numbers) (out, n) =
     (if n \<ge> maxRequestedPorts then (out, n)
      else case Atoi (TrimSpace number) of
             None \<Rightarrow> parse_numbers key numbers (out, n)
           | Some port \<Rightarrow>
               if port < 1 \<or> port > MaxPort then parse_numbers key numbers (out, n)
               else parse_numbers key numbers (req_Add key port out, n + 1))"

definition parse_req_entry :: "string \<Rightarrow> RequestedPorts \<times> nat \<Rightarrow> RequestedPorts \<times> nat" where
  "parse_req_entry entry oc =
     (let entry = TrimSpace entry
      in if entry = [] then oc
         else (case Cut CHR ''='' entry of
                 None \<Rightarrow> oc
               | Some (key, v) \<Rightarrow> parse_numbers (TrimSpace key) (Split CHR '';'' v) oc))"

definition ParseRequestedPorts :: "string \<Rightarrow> RequestedPorts" where
  "ParseRequestedPorts label = fst (fold parse_req_entry (Split CHR '','' label) ([], 0))"

section \<open>Account names\<close>

definition name_char :: "char \<Rightarrow> bool" where
  "name_char c \<longleftrightarrow> 97 \<le> byte c \<and> byte c \<le> 122 \<or> 48 \<le> byte c \<and> byte c \<le> 57 \<or> byte c = 95 \<or> byte c = 45"

lemma account_rune_char: "name_char (account_rune r)"
  by (auto simp: account_rune_def name_char_def take_bit_eq_mod)

lemma account_rune_id: "name_char c \<Longrightarrow> account_rune (byte c) = c"
  by (auto simp: account_rune_def name_char_def)

lemma EncodeRune_ascii: "r < 128 \<Longrightarrow> EncodeRune r = [char_of r]"
  by (simp add: EncodeRune_def bytes_def)

lemma ToLower_name:
  assumes "list_all name_char s"
  shows "ToLower other s = s"
proof -
  have "list_all (\<lambda>c. byte c < 128) s"
    using assms by (auto simp: list_all_iff name_char_def)
  then have runes: "runes s = map of_char s" by (rule runes_ascii)
  have one: "EncodeRune (rune_lower other (byte c)) = [c]" if "name_char c" for c
    using that by (auto simp: rune_lower_def name_char_def EncodeRune_ascii)
  have "concat (map (\<lambda>c. EncodeRune (rune_lower other (byte c))) s) = s"
    using assms one by (induction s) auto
  then show ?thesis by (simp add: ToLower_def runes comp_def)
qed

lemma runes_name: "list_all name_char s \<Longrightarrow> runes s = map of_char s"
  by (rule runes_ascii) (auto simp: list_all_iff name_char_def)

lemma digit_set: "c \<in> set ''0123456789'' \<longleftrightarrow> is_digit c"
proof
  assume c: "is_digit c"
  define k where "k = byte c - 48"
  from c have "c = digit k" and "k < 10" by (auto simp: k_def is_digit_def digit_def)
  moreover from this(2) have "k \<in> {0, 1, 2, 3, 4, 5, 6, 7, 8, 9}" by auto
  ultimately show "c \<in> set ''0123456789''" by (auto simp: digit_chars)
qed (auto simp: is_digit_def)

lemma name_start:
  assumes "name_char c"
  shows "c \<notin> set ''0123456789-'' \<longleftrightarrow> 97 \<le> byte c \<and> byte c \<le> 122 \<or> byte c = 95"
proof -
  have chars: "c \<in> set ''0123456789-'' \<longleftrightarrow> c \<in> set ''0123456789'' \<or> c = CHR ''-''" by auto
  have minus: "c = CHR ''-'' \<longleftrightarrow> byte c = 45" using of_char_eq_iff [where ?'a = nat, of c "CHR ''-''"] by simp
  show ?thesis
    using assms unfolding chars digit_set minus is_digit_def name_char_def by auto
qed

section \<open>What is hashed\<close>

lemma sep_inj:
  fixes xs :: string
  assumes "xs @ c # ys = xs' @ c # ys'" and "c \<notin> set xs" and "c \<notin> set xs'"
  shows "xs = xs' \<and> ys = ys'"
  using arg_cong [OF assms(1), of "Cut c"] assms(2,3) by simp

lemma digits_inj:
  assumes "nat_digits n @ xs = nat_digits n' @ xs'"
    and "xs = [] \<or> \<not> is_digit (hd xs)" and "xs' = [] \<or> \<not> is_digit (hd xs')"
  shows "n = n' \<and> xs = xs'"
proof -
  have take: "takeWhile is_digit (nat_digits m @ zs) = nat_digits m \<and> dropWhile is_digit (nat_digits m @ zs) = zs"
    if "zs = [] \<or> \<not> is_digit (hd zs)" for m zs
  proof -
    have "takeWhile is_digit zs = [] \<and> dropWhile is_digit zs = zs" using that by (cases zs) auto
    moreover have "\<And>c. c \<in> set (nat_digits m) \<Longrightarrow> is_digit c"
      using nat_digits_digits [of m] by (simp add: list_all_iff)
    ultimately show ?thesis by (simp add: takeWhile_append2 dropWhile_append2)
  qed
  from take [OF assms(2), of n] take [OF assms(3), of n'] assms(1)
  have "nat_digits n = nat_digits n'" and "xs = xs'" by metis+
  then show ?thesis by (metis digits_val_nat_digits)
qed

lemma words_no_nul: "nul \<notin> set (read_word r)" "nul \<notin> set (write_word w)" "nul \<notin> set (nat_digits n)"
  "CHR '':'' \<notin> set (nat_digits n)"
proof -
  show "nul \<notin> set (read_word r)" "nul \<notin> set (write_word w)"
    by (cases r; simp add: nul_def) (cases w; simp add: nul_def)
  show "nul \<notin> set (nat_digits n)" "CHR '':'' \<notin> set (nat_digits n)"
    using nat_digits_digits [of n] by (auto simp: list_all_iff nul_def is_digit_def)
qed

lemma word_inj: "read_word r = read_word r' \<Longrightarrow> r = r'" "write_word w = write_word w' \<Longrightarrow> w = w'"
  by (cases r; cases r'; simp) (cases w; cases w'; simp)

lemma mask_String_inj:
  assumes "mask_String m = mask_String m'" and "k_Bits m \<le> 511" and "k_Bits m' \<le> 511"
  shows "k_Bits m = k_Bits m'"
  using arg_cong [OF assms(1), of "digits_val 8"] assms(2,3) by (simp add: mask_String_def digits_val_octal)

lemma length_mask [simp]: "length (mask_String m) = 4"
  by (simp add: mask_String_def)

lemma mask_append:
  "mask_String m @ x = mask_String m' @ y \<longleftrightarrow> mask_String m = mask_String m' \<and> x = y"
  "mask_String m = mask_String m' @ y \<longleftrightarrow> mask_String m = mask_String m' \<and> y = []"
  "mask_String m @ x = mask_String m' \<longleftrightarrow> mask_String m = mask_String m' \<and> x = []"
  using append_eq_append_conv [of "mask_String m" "mask_String m'" x y]
    append_eq_append_conv [of "mask_String m" "mask_String m'" "[]" y]
    append_eq_append_conv [of "mask_String m" "mask_String m'" x "[]"] by auto

definition mask_tail :: "Mask \<Rightarrow> Mask \<Rightarrow> string" where
  "mask_tail f d =
     (if k_Bits f \<noteq> 0 then [nul, CHR ''f''] @ mask_String f else []) @
     (if k_Bits d \<noteq> 0 then [nul, CHR ''d''] @ mask_String d else [])"

lemma mask_tail_inj:
  assumes "mask_tail f d = mask_tail f' d'"
    and "k_Bits f \<le> 511" and "k_Bits d \<le> 511" and "k_Bits f' \<le> 511" and "k_Bits d' \<le> 511"
  shows "k_Bits f = k_Bits f' \<and> k_Bits d = k_Bits d'"
  using assms mask_String_inj [of f f'] mask_String_inj [of d d']
  unfolding mask_tail_def by (auto simp: mask_append split: if_splits)

lemma mask_tail_hd: "mask_tail f d = [] \<or> \<not> is_digit (hd (mask_tail f d))"
  by (auto simp: mask_tail_def nul_def is_digit_def)

section \<open>Properties\<close>

text \<open>The shape of an account name, and that a name of that shape derives itself.\<close>

definition account_shape :: "string \<Rightarrow> bool" where
  "account_shape name \<longleftrightarrow>
     name \<noteq> [] \<and> length name \<le> 30 \<and> list_all name_char name \<and>
     (97 \<le> byte (hd name) \<and> byte (hd name) \<le> 122 \<or> byte (hd name) = 95)"

lemma AccountName_shape:
  assumes "AccountName other base = Some name"
  shows "account_shape name"
proof -
  let ?all = "map account_rune (runes (ToLower other base))"
  let ?P = "\<lambda>c. c \<in> set ''0123456789-''"
  from assms have name: "name = take 30 (dropWhile ?P ?all)" and ne: "dropWhile ?P ?all \<noteq> []"
    by (auto simp: AccountName_def MaxAccountNameLength_def Let_def split: if_splits)
  have "list_all name_char ?all" by (simp add: list_all_iff account_rune_char)
  then have chars: "list_all name_char name"
    by (auto simp: name list_all_iff dest!: in_set_takeD set_dropWhileD)
  have "hd name = hd (dropWhile ?P ?all)" using ne by (simp add: name hd_take)
  then have start: "\<not> ?P (hd name)" using hd_dropWhile [of ?P ?all] ne by metis
  have nonempty: "name \<noteq> []" using ne by (simp add: name)
  with chars have "name_char (hd name)" by (cases name) auto
  with start have "97 \<le> byte (hd name) \<and> byte (hd name) \<le> 122 \<or> byte (hd name) = 95"
    using name_start by blast
  with nonempty chars show ?thesis by (simp add: account_shape_def name)
qed

lemma AccountName_of_shape:
  assumes "account_shape name"
  shows "AccountName other name = Some name"
proof -
  from assms have "name \<noteq> []" and "length name \<le> 30" and chars: "list_all name_char name"
    and "97 \<le> byte (hd name) \<and> byte (hd name) \<le> 122 \<or> byte (hd name) = 95"
    by (auto simp: account_shape_def)
  moreover from this have "dropWhile (\<lambda>c. c \<in> set ''0123456789-'') name = name"
    by (cases name) auto
  moreover have "map account_rune (runes (ToLower other name)) = name"
    using chars by (simp add: ToLower_name runes_name) (auto intro!: map_idI simp: list_all_iff account_rune_id)
  ultimately show ?thesis
    by (simp add: AccountName_def MaxAccountNameLength_def Let_def)
qed

text \<open>A derived account name is one Linux accepts (it starts with a letter or an underscore, has
  at most 30 characters and only lower case letters, digits, underscores and hyphens) and names
  itself: deriving it again, on the other side, gives the same name.\<close>

theorem AccountName_usable:
  assumes "AccountName other base = Some name"
  shows "name \<noteq> [] \<and> length name \<le> 30 \<and> list_all name_char name \<and>
    (97 \<le> byte (hd name) \<and> byte (hd name) \<le> 122 \<or> byte (hd name) = 95) \<and> AccountName other name = Some name"
  using AccountName_shape [OF assms] AccountName_of_shape [of name other]
  by (simp add: account_shape_def)

text \<open>Claim C26. What the id of a share is the digest of determines the share: two shares hash the same
  string only if they are the same directory, read and written the same way, for the same owner and
  with the same bits masked; and no share hashes what the ids of older releases hash.\<close>

theorem share_key_determines_share:
  assumes "nul \<notin> set path" and "nul \<notin> set path'"
    and "k_Bits (v_FMask v) \<le> 511" and "k_Bits (v_DMask v) \<le> 511"
    and "k_Bits (v_FMask v') \<le> 511" and "k_Bits (v_DMask v') \<le> 511"
  shows "share_key path v \<noteq> path' \<and>
    (share_key path v = share_key path' v' \<longrightarrow>
      path = path' \<and> v_Mode v = v_Mode v' \<and> o_UID (v_Owner v) = o_UID (v_Owner v') \<and>
      o_GID (v_Owner v) = o_GID (v_Owner v') \<and> k_Bits (v_FMask v) = k_Bits (v_FMask v') \<and>
      k_Bits (v_DMask v) = k_Bits (v_DMask v'))"
proof (intro conjI impI)
  have "nul \<in> set (share_key path v)" by (simp add: share_key_def)
  then show "share_key path v \<noteq> path'" using assms(2) by blast
  have key: "share_key p w = p @ nul # read_word (m_Read (v_Mode w)) @ nul # write_word (m_Write (v_Mode w)) @ nul #
      nat_digits (o_UID (v_Owner w)) @ CHR '':'' # nat_digits (o_GID (v_Owner w)) @ mask_tail (v_FMask w) (v_DMask w)" for p w
    by (simp add: share_key_def mask_tail_def)
  assume eq: "share_key path v = share_key path' v'"
  from sep_inj [OF eq [unfolded key] assms(1,2)] have path: "path = path'"
    and r1: "read_word (m_Read (v_Mode v)) @ nul # write_word (m_Write (v_Mode v)) @ nul #
        nat_digits (o_UID (v_Owner v)) @ CHR '':'' # nat_digits (o_GID (v_Owner v)) @ mask_tail (v_FMask v) (v_DMask v) =
      read_word (m_Read (v_Mode v')) @ nul # write_word (m_Write (v_Mode v')) @ nul #
        nat_digits (o_UID (v_Owner v')) @ CHR '':'' # nat_digits (o_GID (v_Owner v')) @ mask_tail (v_FMask v') (v_DMask v')"
    by blast+
  from sep_inj [OF r1 words_no_nul(1,1)] have rd: "m_Read (v_Mode v) = m_Read (v_Mode v')"
    and r2: "write_word (m_Write (v_Mode v)) @ nul #
        nat_digits (o_UID (v_Owner v)) @ CHR '':'' # nat_digits (o_GID (v_Owner v)) @ mask_tail (v_FMask v) (v_DMask v) =
      write_word (m_Write (v_Mode v')) @ nul #
        nat_digits (o_UID (v_Owner v')) @ CHR '':'' # nat_digits (o_GID (v_Owner v')) @ mask_tail (v_FMask v') (v_DMask v')"
    using word_inj(1) by blast+
  from sep_inj [OF r2 words_no_nul(2,2)] have wr: "m_Write (v_Mode v) = m_Write (v_Mode v')"
    and r3: "nat_digits (o_UID (v_Owner v)) @ CHR '':'' # nat_digits (o_GID (v_Owner v)) @ mask_tail (v_FMask v) (v_DMask v) =
      nat_digits (o_UID (v_Owner v')) @ CHR '':'' # nat_digits (o_GID (v_Owner v')) @ mask_tail (v_FMask v') (v_DMask v')"
    using word_inj(2) by blast+
  have "\<not> is_digit CHR '':''" by (simp add: is_digit_def)
  with digits_inj [OF r3] have uid: "o_UID (v_Owner v) = o_UID (v_Owner v')"
    and r4: "nat_digits (o_GID (v_Owner v)) @ mask_tail (v_FMask v) (v_DMask v) =
      nat_digits (o_GID (v_Owner v')) @ mask_tail (v_FMask v') (v_DMask v')"
    by auto
  from digits_inj [OF r4 mask_tail_hd mask_tail_hd] mask_tail_inj [OF _ assms(3-6)] path rd wr uid
  show "path = path'" "v_Mode v = v_Mode v'" "o_UID (v_Owner v) = o_UID (v_Owner v')"
    "o_GID (v_Owner v) = o_GID (v_Owner v')" "k_Bits (v_FMask v) = k_Bits (v_FMask v')"
    "k_Bits (v_DMask v) = k_Bits (v_DMask v')"
    by auto
qed

lemma be_bytes_inj: "be_bytes w n = be_bytes w m \<Longrightarrow> n < 256 ^ w \<Longrightarrow> m < 256 ^ w \<Longrightarrow> n = m"
proof (induction w arbitrary: n m)
  case (Suc w)
  then have "n div 256 = m div 256" and "n mod 256 = m mod 256"
    by (auto simp: less_mult_imp_div_less mult.commute)
  then show ?case by (metis div_mult_mod_eq)
qed simp

lemma bytes_inj: "bytes bs = bytes bs' \<Longrightarrow> \<forall>b \<in> set bs \<union> set bs'. b < 256 \<Longrightarrow> bs = bs'"
proof -
  assume eq: "bytes bs = bytes bs'" and r: "\<forall>b \<in> set bs \<union> set bs'. b < 256"
  have "map (\<lambda>b. byte (char_of b)) bs = map (\<lambda>b. byte (char_of b)) bs'"
    using arg_cong [OF eq, of "map byte"] by (simp add: bytes_def comp_def)
  moreover have "map (\<lambda>b. byte (char_of b)) cs = cs" if "\<forall>b \<in> set cs. b < 256" for cs :: "nat list"
    using that by (intro map_idI) (simp add: take_bit_eq_mod)
  ultimately show ?thesis using r by simp
qed

lemma run_preimage_inj:
  assumes "length key < 2 ^ 32" and "length key' < 2 ^ 32"
    and "run_preimage key run = run_preimage key' run'"
  shows "key = key' \<and> run = run'"
proof -
  from assms have eq: "bytes (be_bytes 4 (length key)) @ key @ run = bytes (be_bytes 4 (length key')) @ key' @ run'"
    by (simp add: run_preimage_def)
  have "length (bytes (be_bytes 4 n)) = 4" for n by (simp add: bytes_def)
  with eq have b: "bytes (be_bytes 4 (length key)) = bytes (be_bytes 4 (length key'))" and kr: "key @ run = key' @ run'"
    by (simp_all add: append_eq_append_conv)
  from bytes_inj [OF b] have "be_bytes 4 (length key) = be_bytes 4 (length key')"
    by (auto dest: be_bytes_range)
  moreover have "(256 :: nat) ^ 4 = 2 ^ 32" by simp
  ultimately have "length key = length key'"
    using be_bytes_inj [of 4 "length key" "length key'"] assms(1,2) by simp
  with kr show ?thesis by simp
qed

text \<open>What the id of a run is the digest of determines the authenticated key and the run id,
  for keys shorter than the length field can count.\<close>

theorem run_preimage_determines_run:
  assumes "length key < 2 ^ 32" and "length key' < 2 ^ 32"
  shows "run_preimage key run = run_preimage key' run' \<longleftrightarrow> key = key' \<and> run = run'"
  using run_preimage_inj [OF assms] by blast

section \<open>Volumes\<close>

lemma hex_no_dash: "list_all is_hex s \<Longrightarrow> CHR ''-'' \<notin> set s"
  by (auto simp: list_all_iff is_hex_def is_lower_hex_def)

lemma no_cache_suffix:
  assumes "list_all is_hex i" and "length i \<ge> 6"
  shows "TrimSuffix (p @ i) cacheSuffix = p @ i"
proof -
  have "\<not> HasSuffix (p @ i) cacheSuffix"
  proof
    assume "HasSuffix (p @ i) cacheSuffix"
    then obtain r where "p @ i = r @ cacheSuffix" by (auto simp: HasSuffix_iff)
    then have "drop (length (p @ i) - 6) (p @ i) = cacheSuffix"
      by (simp add: cacheSuffix_def)
    then have "drop (length i - 6) i = cacheSuffix"
      using assms(2) by simp
    then have "CHR ''-'' \<in> set (drop (length i - 6) i)" by (simp add: cacheSuffix_def)
    then have "CHR ''-'' \<in> set i" by (rule in_set_dropD)
    with hex_no_dash [OF assms(1)] show False by contradiction
  qed
  then show ?thesis by (simp add: TrimSuffix_def)
qed

lemma validShare_iff: "validShare i \<longleftrightarrow> length i = 16 \<and> list_all is_hex i"
proof -
  have "\<not> HasPrefix (VolumeNamePrefix @ i) ExportMountPrefix"
    by (simp add: VolumeNamePrefix_def ExportMountPrefix_def HasPrefix_def)
  then show ?thesis
    by (auto simp: validShare_def parseID_def Let_def idLen_def TrimPrefix_def hex_decodes_def CutPrefix_def HasPrefix_iff VolumeNamePrefix_def)
qed

lemma validClient_iff: "validClient c \<longleftrightarrow> length c = 8 \<and> list_all is_hex c"
  by (auto simp: validClient_def clientIDLen_def hex_decodes_def)

text \<open>Claim C27. The volumes of a machine's share, the share itself and its cache layer, read back as that
  machine and that share; so volumes of different machines or different shares never have one name,
  and a share's own volume is never a cache layer.\<close>

theorem volume_names_roundtrip:
  assumes "validClient client" and "validShare i"
  shows "ParseVolumeName (VolumeNameForID client i) = (client, i, True) \<and>
    ParseVolumeName (VolumeNameForCache client i) = (client, i, True) \<and>
    IsManagedVolume (VolumeNameForID client i) \<and> \<not> IsCacheVolume (VolumeNameForID client i) \<and>
    IsCacheVolume (VolumeNameForCache client i) \<and>
    VolumeNameForExport client (ExportPathForID i) = Inr (VolumeNameForID client i) \<and>
    CacheVolumeForExport client (ExportPathForID i) = Inr (VolumeNameForCache client i)"
proof -
  from assms have c: "length client = 8" "list_all is_hex client" and i: "length i = 16" "list_all is_hex i"
    by (simp_all add: validClient_iff validShare_iff)
  then have ne: "client \<noteq> []" by auto
  have name: "VolumeNameForID client i = VolumeNamePrefix @ (client @ ''-'') @ i"
    by (simp add: VolumeNameForID_def ne)
  have cut: "Cut CHR ''-'' (client @ CHR ''-'' # i) = Some (client, i)"
    using hex_no_dash [OF c(2)] by simp
  have trim: "TrimSuffix ((client @ ''-'') @ i) cacheSuffix = (client @ ''-'') @ i"
    using i by (intro no_cache_suffix) simp_all
  have parse: "ParseVolumeName (VolumeNameForID client i) = (client, i, True)"
    unfolding name ParseVolumeName_def CutPrefix_append option.case Let_def trim
    using cut assms by simp
  have cache: "ParseVolumeName (VolumeNameForCache client i) = (client, i, True)"
    unfolding VolumeNameForCache_def CacheVolumeName_def name ParseVolumeName_def append_assoc CutPrefix_append
      option.case Let_def
    using TrimSuffix_append [of "client @ ''-'' @ i" cacheSuffix] cut assms by simp
  have "TrimSuffix ((VolumeNamePrefix @ client @ ''-'') @ i) cacheSuffix = (VolumeNamePrefix @ client @ ''-'') @ i"
    using i by (intro no_cache_suffix) simp_all
  then have nocache: "\<not> HasSuffix (VolumeNameForID client i) cacheSuffix"
    unfolding name TrimSuffix_def by (auto simp: HasSuffix_iff cacheSuffix_def)
  have parse_export: "parseID (ExportPathForID i) = Inr i"
    using i by (simp add: parseID_def ExportPathForID_def ExportMountPrefix_def TrimPrefix_def CutPrefix_def HasPrefix_def idLen_def hex_decodes_def Let_def)
  show ?thesis
    using parse cache nocache parse_export
    by (simp add: IsManagedVolume_def IsCacheVolume_def VolumeNameForCache_def CacheVolumeName_def name HasSuffix_iff
        VolumeNameForExport_def CacheVolumeForExport_def)
qed

section \<open>Clean paths\<close>

definition good_part :: "string \<Rightarrow> bool" where
  "good_part p \<longleftrightarrow> p \<noteq> [] \<and> p \<noteq> ''.'' \<and> p \<noteq> ''..''"

lemma bad_component_None: "bad_component p parts = None \<longleftrightarrow> list_all good_part parts"
  by (induction parts) (auto simp: good_part_def)

lemma clean_parts_good: "list_all good_part ps \<Longrightarrow> clean_parts rooted out ps = rev out @ ps"
proof (induction ps arbitrary: out)
  case (Cons p ps)
  then have "clean_parts rooted out (p # ps) = clean_parts rooted (p # out) ps"
    by (simp add: good_part_def)
  with Cons show ?case by simp
qed simp

lemma clean_parts_Cons_True:
  "clean_parts True out (p # ps) =
     clean_parts True (if p = [] \<or> p = ''.'' then out
       else if p = ''..'' then (if out = [] then [] else if hd out = ''..'' then p # out else tl out) else p # out) ps"
  by (cases out) auto

lemma clean_parts_all_good: "list_all good_part out \<Longrightarrow> list_all good_part (clean_parts True out ps)"
proof (induction ps arbitrary: out)
  case Nil
  then show ?case by (simp add: list_all_iff)
next
  case (Cons p ps)
  let ?out = "if p = [] \<or> p = ''.'' then out
    else if p = ''..'' then (if out = [] then [] else if hd out = ''..'' then p # out else tl out) else p # out"
  have "list_all good_part ?out"
    using Cons.prems by (cases out) (auto simp: list_all_iff good_part_def)
  from Cons.IH [OF this] show ?case unfolding clean_parts_Cons_True .
qed

lemma clean_parts_set: "set (clean_parts True out ps) \<subseteq> set out \<union> set ps"
proof (induction ps arbitrary: out)
  case Nil
  then show ?case by simp
next
  case (Cons p ps)
  let ?out = "if p = [] \<or> p = ''.'' then out
    else if p = ''..'' then (if out = [] then [] else if hd out = ''..'' then p # out else tl out) else p # out"
  have "set ?out \<subseteq> insert p (set out)" by (cases out) auto
  with Cons.IH [of ?out] show ?case unfolding clean_parts_Cons_True by (auto dest: subsetD)
qed

text \<open>Claim C28. A path within a share is accepted exactly when it is absolute, has no backslash and no NUL,
  and is what cleaning it would give: nothing in it is repaired, and no accepted path climbs.\<close>

theorem ValidSharePath_iff_clean:
  "ValidSharePath p = None \<longleftrightarrow>
     HasPrefix p ''/'' \<and> path_Clean p = p \<and> char_of (92 :: nat) \<notin> set p \<and> nul \<notin> set p"
proof (cases "HasPrefix p ''/''")
  case False
  then show ?thesis by (simp add: ValidSharePath_def)
next
  case True
  then obtain q where p: "p = ''/'' @ q" by (auto simp: HasPrefix_iff)
  let ?ps = "Split CHR ''/'' q"
  have clean: "path_Clean p = ''/'' @ Join ''/'' (clean_parts True [] ?ps)"
    using True by (simp add: path_Clean_def p Let_def)
  have "path_Clean p = p \<longleftrightarrow> q = [] \<or> list_all good_part ?ps"
  proof
    assume "path_Clean p = p"
    then have q: "q = Join ''/'' (clean_parts True [] ?ps)" using clean p by simp
    have no_sep: "CHR ''/'' \<notin> set x" if "x \<in> set (clean_parts True [] ?ps)" for x
      using that clean_parts_set [of "[]" ?ps] Split_no_sep [of x "CHR ''/''" q] by auto
    show "q = [] \<or> list_all good_part ?ps"
    proof (cases "clean_parts True [] ?ps = []")
      case True
      with q show ?thesis by simp
    next
      case False
      from Split_Join [OF this no_sep] q have "?ps = clean_parts True [] ?ps" by metis
      with clean_parts_all_good [of "[]" ?ps] show ?thesis by simp
    qed
  next
    assume "q = [] \<or> list_all good_part ?ps"
    then show "path_Clean p = p"
    proof
      assume "q = []"
      then show ?thesis unfolding clean by (simp add: p)
    next
      assume "list_all good_part ?ps"
      then show ?thesis unfolding clean using Join_Split [of "CHR ''/''" q] by (simp add: p clean_parts_good)
    qed
  qed
  then show ?thesis
    using True by (auto simp: ValidSharePath_def bad_component_None p TrimPrefix_def CutPrefix_def HasPrefix_def)
qed

section \<open>The ports label\<close>

definition port_ok :: "int \<Rightarrow> bool" where
  "port_ok p \<longleftrightarrow> 1 \<le> p \<and> p \<le> MaxPort"

definition req_total :: "RequestedPorts \<Rightarrow> nat" where
  "req_total r = sum_list (map (\<lambda>(k, ports). length ports) r)"

lemma sort_is_Nil [simp]: "sort xs = [] \<longleftrightarrow> xs = []"
  by (metis set_empty set_sort)

lemma Atoi_port: "port_ok p \<Longrightarrow> Atoi (TrimSpace (Itoa p)) = Some p"
  by (simp add: Itoa_plain Atoi_Itoa port_ok_def MaxPort_def in_int64_def)

lemma parse_numbers_Itoa:
  "list_all port_ok ps \<Longrightarrow> n + length ps \<le> 1024 \<Longrightarrow>
     parse_numbers key (map Itoa ps) (out, n) = (fold (req_Add key) ps out, n + length ps)"
proof (induction ps arbitrary: out n)
  case (Cons p ps)
  then have "port_ok p" and "\<not> n \<ge> maxRequestedPorts" by (auto simp: maxRequestedPorts_def)
  with Cons show ?case by (simp add: Atoi_port) (simp add: port_ok_def)
qed simp

lemma fold_req_Add:
  "ps \<noteq> [] \<Longrightarrow> mget (fold (req_Add key) ps out) k =
     (if k = key then Some ((case mget out key of None \<Rightarrow> [] | Some l \<Rightarrow> l) @ ps) else mget out k)"
proof (induction ps arbitrary: out)
  case (Cons p ps)
  show ?case
  proof (cases "ps = []")
    case True
    then show ?thesis by (simp add: req_Add_def)
  next
    case False
    with Cons.IH [OF this, of "req_Add key p out"] show ?thesis by (simp add: req_Add_def)
  qed
qed simp

definition req_entry_ok :: "string \<times> int list \<Rightarrow> bool" where
  "req_entry_ok = (\<lambda>(k, ports). k \<noteq> [] \<and> list_all (\<lambda>c. plain c \<and> c \<noteq> CHR '','' \<and> c \<noteq> CHR ''='') k \<and>
     ports \<noteq> [] \<and> list_all port_ok ports)"

lemma Join_set: "c \<in> set (Join sep ls) \<Longrightarrow> c \<in> set sep \<or> (\<exists>l \<in> set ls. c \<in> set l)"
  by (induction sep ls rule: Join.induct) auto

lemma Itoa_port_digits: "port_ok p \<Longrightarrow> list_all is_digit (Itoa p)"
  by (simp add: Itoa_def port_ok_def nat_digits_digits)

lemma digit_not_separator: "is_digit c \<Longrightarrow> c \<noteq> CHR '','' \<and> c \<noteq> CHR '';''"
  by (auto simp: is_digit_def)

lemma plain_separators: "plain CHR ''='' \<and> plain CHR '';''"
  by (simp add: plain_def)

lemma Join_ports_plain:
  assumes "\<And>q. q \<in> set ps \<Longrightarrow> port_ok q" and "c \<in> set (Join '';'' (map Itoa ps))"
  shows "plain c \<and> c \<noteq> CHR '',''"
proof -
  from Join_set [OF assms(2)] consider "c = CHR '';''" | q where "q \<in> set ps" "c \<in> set (Itoa q)" by auto
  then show ?thesis
  proof cases
    case 1
    then show ?thesis using plain_separators by simp
  next
    case 2
    then have "is_digit c" using Itoa_port_digits assms(1) by (auto simp: list_all_iff)
    then show ?thesis using is_digit_plain digit_not_separator by blast
  qed
qed

lemma req_part_plain:
  assumes "req_entry_ok (k, ports)"
  shows "list_all plain (req_part (k, ports))" "CHR '','' \<notin> set (req_part (k, ports))"
    "Split CHR '';'' (Join '';'' (map Itoa (sort ports))) = map Itoa (sort ports)"
proof -
  from assms have k: "\<And>c. c \<in> set k \<Longrightarrow> plain c \<and> c \<noteq> CHR '',''" and ne: "ports \<noteq> []"
    and p: "\<And>q. q \<in> set (sort ports) \<Longrightarrow> port_ok q"
    unfolding req_entry_ok_def by (simp_all add: list_all_iff)
  have "plain c \<and> c \<noteq> CHR '',''" if "c \<in> set (req_part (k, ports))" for c
    using that k Join_ports_plain [of "sort ports" c, OF p] plain_separators by (auto simp: req_part_def)
  then show "list_all plain (req_part (k, ports))" "CHR '','' \<notin> set (req_part (k, ports))"
    unfolding list_all_iff by blast+
  have "CHR '';'' \<notin> set (Itoa q)" if "q \<in> set (sort ports)" for q
    using Itoa_port_digits [OF p [OF that]] digit_not_separator unfolding list_all_iff by blast
  then show "Split CHR '';'' (Join '';'' (map Itoa (sort ports))) = map Itoa (sort ports)"
    using ne by (intro Split_Join) auto
qed

lemma parse_req_part:
  assumes "req_entry_ok (k, ports)" and "n + length ports \<le> 1024"
  shows "parse_req_entry (req_part (k, ports)) (out, n) = (fold (req_Add k) (sort ports) out, n + length ports)"
proof -
  have "list_all plain k" and eq: "CHR ''='' \<notin> set k"
    using assms(1) by (auto simp: req_entry_ok_def list_all_iff)
  then have "TrimSpace (req_part (k, ports)) = req_part (k, ports)" and "TrimSpace k = k"
    using req_part_plain(1) [OF assms(1)] by (blast intro: TrimSpace_plain_list)+
  moreover have "Cut CHR ''='' (req_part (k, ports)) = Some (k, Join '';'' (map Itoa (sort ports)))"
    using Cut_append [OF eq] by (simp add: req_part_def)
  moreover have "req_part (k, ports) \<noteq> []" by (simp add: req_part_def)
  moreover have "list_all port_ok (sort ports)" using assms(1) by (auto simp: req_entry_ok_def list_all_iff)
  ultimately show ?thesis
    using req_part_plain(3) [OF assms(1)] parse_numbers_Itoa [of "sort ports" n k out] assms(2)
    by (simp add: parse_req_entry_def Let_def)
qed

lemma parse_req_parts:
  assumes "distinct ks" and "\<And>k. k \<in> set ks \<Longrightarrow> req_entry_ok (k, f k)"
    and "n + sum_list (map (\<lambda>k. length (f k)) ks) \<le> 1024" and "\<And>k. k \<in> set ks \<Longrightarrow> mget out k = None"
  shows "mget (fst (fold parse_req_entry (map (\<lambda>k. req_part (k, f k)) ks) (out, n))) k =
    (if k \<in> set ks then Some (sort (f k)) else mget out k)"
  using assms
proof (induction ks arbitrary: out n)
  case (Cons x ks)
  let ?out = "fold (req_Add x) (sort (f x)) out"
  have x: "parse_req_entry (req_part (x, f x)) (out, n) = (?out, n + length (f x))"
    using Cons.prems by (intro parse_req_part) auto
  have "sort (f x) \<noteq> []" using Cons.prems(2) [of x] by (simp add: req_entry_ok_def)
  then have get: "mget ?out k = (if k = x then Some (sort (f x)) else mget out k)" for k
    using Cons.prems(4) [of x] by (simp add: fold_req_Add)
  have "mget (fst (fold parse_req_entry (map (\<lambda>k. req_part (k, f k)) ks) (?out, n + length (f x)))) k =
      (if k \<in> set ks then Some (sort (f k)) else mget ?out k)"
    using Cons.prems get by (intro Cons.IH) auto
  with x get Cons.prems(1) show ?case by auto
qed simp

lemma sum_list_mset: "mset xs = mset ys \<Longrightarrow> sum_list xs = (sum_list ys :: nat)"
  by (metis sum_mset_sum_list)

text \<open>The label that records the ports a container asked for reads back as what was asked for,
  each container port with its requested ports in order, as long as a label can carry them all.\<close>

theorem RequestedPorts_roundtrip:
  assumes "wfm r" and "list_all req_entry_ok r" and "req_total r \<le> 1024"
  shows "mget (ParseRequestedPorts (req_String r)) k = map_option sort (mget r k)"
proof (cases "r = []")
  case True
  then show ?thesis
    by (simp add: req_String_def ParseRequestedPorts_def parse_req_entry_def)
next
  case False
  let ?f = "\<lambda>k. case mget r k of None \<Rightarrow> [] | Some l \<Rightarrow> l"
  let ?ks = "sort (map fst r)"
  have ks: "distinct ?ks" "set ?ks = fst ` set r"
    using assms(1) by (simp_all add: wfm_def)
  have f: "?f (fst e) = snd e" if "e \<in> set r" for e
    using that assms(1) mget_set [OF assms(1), of "fst e" "snd e"] by simp
  have ok: "req_entry_ok (x, ?f x)" if x: "x \<in> set ?ks" for x
  proof -
    from x ks(2) obtain e where e: "e \<in> set r" "fst e = x" by auto
    with f [OF e(1)] assms(2) show ?thesis by (cases e) (auto simp: list_all_iff)
  qed
  have "sum_list (map (\<lambda>k. length (?f k)) ?ks) = sum_list (map (\<lambda>k. length (?f k)) (map fst r))"
    by (rule sum_list_mset) (simp only: mset_map mset_sort)
  also have "\<dots> = req_total r"
    unfolding req_total_def using f by (simp add: comp_def case_prod_unfold cong: map_cong)
  finally have total: "0 + sum_list (map (\<lambda>k. length (?f k)) ?ks) \<le> 1024" using assms(3) by simp
  have "Split CHR '','' (req_String r) = map (\<lambda>k. req_part (k, ?f k)) ?ks"
    unfolding req_String_def using False ok req_part_plain(2)
    by (intro Split_Join) auto
  then have "mget (ParseRequestedPorts (req_String r)) k = (if k \<in> set ?ks then Some (sort (?f k)) else None)"
    using parse_req_parts [of ?ks ?f 0 "[]" k] ks(1) ok total by (simp add: ParseRequestedPorts_def)
  then show ?thesis
    using ks(2) mget_None_iff [of r k] by (auto split: option.splits)
qed

definition req_bounded :: "RequestedPorts \<times> nat \<Rightarrow> bool" where
  "req_bounded = (\<lambda>(out, n). wfm out \<and> req_total out = n \<and> n \<le> 1024 \<and> (\<forall>(k, ports) \<in> set out. list_all port_ok ports))"

lemma req_total_Add: "wfm r \<Longrightarrow> req_total (req_Add k p r) = req_total r + 1"
proof (induction r)
  case Nil
  show ?case by (simp add: req_total_def req_Add_def)
next
  case (Cons e r)
  obtain k' ports where e: "e = (k', ports)" by (cases e)
  show ?case
  proof (cases "k' = k")
    case True
    then show ?thesis by (simp add: e req_total_def req_Add_def)
  next
    case False
    with Cons show ?thesis by (simp add: e req_total_def req_Add_def wfm_def)
  qed
qed

lemma req_Add_ports:
  assumes "\<forall>(k, ports) \<in> set r. list_all port_ok ports" and "port_ok p" and "wfm r"
  shows "\<forall>(k, ports) \<in> set (req_Add key p r). list_all port_ok ports"
proof -
  have "list_all port_ok (case mget r key of None \<Rightarrow> [] | Some l \<Rightarrow> l)"
    using assms(1) by (auto split: option.splits dest: map_of_SomeD)
  with assms show ?thesis unfolding req_Add_def by (auto dest!: mput_mem)
qed

lemma parse_numbers_bounded: "req_bounded oc \<Longrightarrow> req_bounded (parse_numbers key ns oc)"
proof (induction key ns oc rule: parse_numbers.induct)
  case (2 key number numbers out n)
  show ?case
  proof (cases "Atoi (TrimSpace number)")
    case None
    with 2 show ?thesis by simp
  next
    case (Some p)
    have "req_bounded (req_Add key p out, n + 1)" if "n < maxRequestedPorts" "port_ok p"
      using 2(4) that req_total_Add [of out key p] req_Add_ports [of out p key]
      by (auto simp: req_bounded_def maxRequestedPorts_def, simp add: req_Add_def)
    with 2 Some show ?thesis by (auto simp: port_ok_def)
  qed
qed simp

text \<open>However a label reads, it asks for at most 1024 ports, every one of them a port.\<close>

theorem ParseRequestedPorts_bounded:
  "wfm (ParseRequestedPorts label) \<and> req_total (ParseRequestedPorts label) \<le> 1024 \<and>
   (\<forall>(k, ports) \<in> set (ParseRequestedPorts label). \<forall>p \<in> set ports. 1 \<le> p \<and> p \<le> 65535)"
proof -
  have entry: "req_bounded (parse_req_entry e oc)" if "req_bounded oc" for e oc
    using that by (auto simp: parse_req_entry_def Let_def parse_numbers_bounded split: option.splits)
  have "req_bounded (fold parse_req_entry es oc)" if "req_bounded oc" for es oc
    using that entry by (induction es arbitrary: oc) auto
  moreover have "req_bounded ([], 0)" by (simp add: req_bounded_def req_total_def)
  ultimately have "req_bounded (fold parse_req_entry (Split CHR '','' label) ([], 0))" by blast
  then show ?thesis
    unfolding req_bounded_def ParseRequestedPorts_def port_ok_def MaxPort_def list_all_iff by (simp add: case_prod_unfold)
qed

section \<open>Witnesses\<close>

text \<open>\<open>-J.d\<close> becomes the account \<open>j-d\<close>.\<close>

theorem AccountName_usable_witness:
  "AccountName id ''-J.d'' = Some ''j-d'' \<and> AccountName id ''j-d'' = Some ''j-d''"
proof -
  have c: "char_of (45 :: nat) = CHR ''-''" "char_of (106 :: nat) = CHR ''j''" "char_of (100 :: nat) = CHR ''d''"
      "char_of (46 :: nat) = CHR ''.''"
    by (simp_all add: char_of_eq_iff take_bit_eq_mod)
  have "ToLower id ''-J.d'' = ''-j.d''"
    by (simp add: ToLower_def runes_ascii rune_lower_def EncodeRune_ascii c)
  then have n: "AccountName id ''-J.d'' = Some ''j-d''"
    by (simp add: AccountName_def runes_ascii account_rune_def c MaxAccountNameLength_def)
  with AccountName_usable [OF n] show ?thesis by blast
qed

text \<open>One directory, read from the cache for one container and directly for another.\<close>

theorem share_key_determines_share_witness:
  "share_key ''/w'' \<lparr>v_Mode = \<lparr>m_Read = ReadCached, m_Write = WriteThrough\<rparr>,
       v_Owner = \<lparr>o_UID = 0, o_GID = 0, o_Set = False\<rparr>, v_FMask = \<lparr>k_Bits = 18, k_Set = True\<rparr>, v_DMask = \<lparr>k_Bits = 0, k_Set = False\<rparr>\<rparr> \<noteq>
   share_key ''/w'' \<lparr>v_Mode = \<lparr>m_Read = ReadDirect, m_Write = WriteThrough\<rparr>,
       v_Owner = \<lparr>o_UID = 0, o_GID = 0, o_Set = False\<rparr>, v_FMask = \<lparr>k_Bits = 18, k_Set = True\<rparr>, v_DMask = \<lparr>k_Bits = 0, k_Set = False\<rparr>\<rparr>"
proof -
  have "nul \<notin> set ''/w''" by (simp add: nul_def)
  from share_key_determines_share [OF this this,
      of "\<lparr>v_Mode = \<lparr>m_Read = ReadCached, m_Write = WriteThrough\<rparr>,
       v_Owner = \<lparr>o_UID = 0, o_GID = 0, o_Set = False\<rparr>, v_FMask = \<lparr>k_Bits = 18, k_Set = True\<rparr>, v_DMask = \<lparr>k_Bits = 0, k_Set = False\<rparr>\<rparr>"
      "\<lparr>v_Mode = \<lparr>m_Read = ReadDirect, m_Write = WriteThrough\<rparr>,
       v_Owner = \<lparr>o_UID = 0, o_GID = 0, o_Set = False\<rparr>, v_FMask = \<lparr>k_Bits = 18, k_Set = True\<rparr>, v_DMask = \<lparr>k_Bits = 0, k_Set = False\<rparr>\<rparr>"]
  show ?thesis by (simp only: ShareVariant.simps Mode.simps Mask.simps Owner.simps) simp
qed

text \<open>Moving a byte from the key to the run id gives another run.\<close>

theorem run_preimage_determines_run_witness: "run_preimage ''ab'' ''c'' \<noteq> run_preimage ''a'' ''bc''"
  using run_preimage_determines_run [of "''ab''" "''a''" "''c''" "''bc''"] by simp

theorem volume_names_roundtrip_witness:
  "ParseVolumeName (VolumeNameForID ''0123abcd'' ''0011223344556677'') = (''0123abcd'', ''0011223344556677'', True) \<and>
   IsCacheVolume (VolumeNameForCache ''0123abcd'' ''0011223344556677'')"
proof -
  have "validClient ''0123abcd''" by code_simp
  moreover have "validShare ''0011223344556677''" by code_simp
  ultimately show ?thesis using volume_names_roundtrip [of "''0123abcd''" "''0011223344556677''"] by blast
qed

theorem RequestedPorts_roundtrip_witness:
  "mget (ParseRequestedPorts (req_String [(''80/tcp'', [8081, 8080]), (''53/udp'', [53])])) ''80/tcp'' = Some [8080, 8081]"
proof -
  have "wfm [(''80/tcp'', [8081, 8080 :: int]), (''53/udp'', [53])]" by (simp add: wfm_def)
  moreover have "list_all req_entry_ok [(''80/tcp'', [8081, 8080]), (''53/udp'', [53])]" by code_simp
  moreover have "req_total [(''80/tcp'', [8081, 8080]), (''53/udp'', [53])] \<le> 1024" by (simp add: req_total_def)
  ultimately show ?thesis
    using RequestedPorts_roundtrip [of "[(''80/tcp'', [8081, 8080]), (''53/udp'', [53])]" "''80/tcp''"] by simp
qed

theorem ParseRequestedPorts_bounded_witness:
  "ParseRequestedPorts (req_part (''80/tcp'', [8080])) = [(''80/tcp'', [8080])] \<and>
   req_total (ParseRequestedPorts (req_part (''80/tcp'', [8080]))) \<le> 1024"
proof -
  have ok: "req_entry_ok (''80/tcp'', [8080])" by code_simp
  have "Split CHR '','' (req_part (''80/tcp'', [8080])) = [req_part (''80/tcp'', [8080])]"
    using req_part_plain(2) [OF ok] by simp
  then have "ParseRequestedPorts (req_part (''80/tcp'', [8080])) = [(''80/tcp'', [8080])]"
    using parse_req_part [OF ok, of 0 "[]"] by (simp add: ParseRequestedPorts_def req_Add_def)
  with ParseRequestedPorts_bounded [of "req_part (''80/tcp'', [8080])"] show ?thesis by blast
qed

end
