(* ===== verification/Account_Keys.thy ===== *)
theory Account_Keys
  imports Share_Names
begin

text \<open>
  The key files of the workspace accounts (\<open>core-agent/accounts/accounts.go\<close> and \<open>keyfile_write.go\<close>):
  which file of a keys directory enrols which account, the public keys a file holds, and the edits
  of a file that add or take out a key.

  A directory is its entries by name. The SSH library is a parameter, \<open>ssh_lib\<close>: how it parses
  and prints a line of \<open>authorized_keys\<close> and what it prints as a key's fingerprint; \<open>ssh_prints\<close>
  is what is relied on of it, that a printed key is one line that parses as that key with the
  comment behind it. A parsed line is blank, no key, or a key with its comment.

  The lemmas show that of the files of a directory exactly one enrols each account any of them
  names, the one spelled as the account if there is one; that adding a key leaves every other line
  and adds exactly that key, whatever its comment; and that taking one out leaves no line with it
  and every other key.
\<close>

section \<open>Lines\<close>

record 'k ssh_lib =
  ParseAuthorizedKey :: "string \<Rightarrow> ('k \<times> string) option"
  FingerprintSHA256 :: "'k \<Rightarrow> string"
  MarshalAuthorizedKey :: "'k \<Rightarrow> string"

datatype 'k key_line = BlankLine | NotKey | IsKey 'k string

definition parseKeyLine :: "'k ssh_lib \<Rightarrow> string \<Rightarrow> 'k key_line" where
  "parseKeyLine L raw =
     (let line = TrimSpace raw
      in if line = [] \<or> hd line = CHR ''#'' then BlankLine
         else case ParseAuthorizedKey L line of None \<Rightarrow> NotKey | Some (key, comment) \<Rightarrow> IsKey key comment)"

text \<open>What reading a key file may fail with.\<close>

datatype key_error = CannotRead | IsUTF16 | LineTooLong | FileEmpty | NoKeyIn nat

definition stripBOM :: "string \<Rightarrow> key_error + string" where
  "stripBOM data =
     (case CutPrefix data (bytes [239, 187, 191]) of
        Some after \<Rightarrow> Inr after
      | None \<Rightarrow> if HasPrefix data (bytes [255, 254]) \<or> HasPrefix data (bytes [254, 255]) then Inl IsUTF16
               else Inr data)"

text \<open>The entries of a directory: a directory, a file that cannot be read, a file.\<close>

datatype dirent = SubDir | NoRead | Data string

type_synonym directory = "(string, dirent) gomap"

fun ReadFile :: "dirent \<Rightarrow> key_error + string" where
  "ReadFile (Data data) = Inr data"
| "ReadFile _ = Inl CannotRead"

fun scan_keys :: "'k ssh_lib \<Rightarrow> string list \<Rightarrow> key_error + ('k list \<times> string list \<times> nat)" where
  "scan_keys L [] = Inr ([], [], 0)"
| "scan_keys L (l # ls) =
     (if max_token \<le> length l then Inl LineTooLong
      else case scan_keys L ls of
             Inl e \<Rightarrow> Inl e
           | Inr (keys, comments, skipped) \<Rightarrow>
               (case parseKeyLine L (drop_CR l) of
                  BlankLine \<Rightarrow> Inr (keys, comments, skipped)
                | NotKey \<Rightarrow> Inr (keys, comments, skipped + 1)
                | IsKey key comment \<Rightarrow> Inr (key # keys, comment # comments, skipped)))"

definition parseKeys :: "'k ssh_lib \<Rightarrow> dirent \<Rightarrow> key_error + ('k list \<times> string list \<times> nat)" where
  "parseKeys L ent =
     (case ReadFile ent of
        Inl e \<Rightarrow> Inl e
      | Inr data \<Rightarrow>
          (case stripBOM data of
             Inl e \<Rightarrow> Inl e
           | Inr body \<Rightarrow>
               (case scan_keys L (scan_lines body) of
                  Inl e \<Rightarrow> Inl e
                | Inr (keys, comments, skipped) \<Rightarrow>
                    if keys = [] then Inl (if skipped = 0 then FileEmpty else NoKeyIn skipped)
                    else Inr (keys, comments, skipped))))"

section \<open>Editing a file\<close>

text \<open>\<open>strings.Fields\<close>: what is left between the spaces.\<close>

function fields_from :: "string \<Rightarrow> string \<Rightarrow> string list" where
  "fields_from word s =
     (case s of
        [] \<Rightarrow> if word = [] then [] else [word]
      | c # s' \<Rightarrow>
          (case strip_prefix spaces s of
             Some rest \<Rightarrow> if word = [] then fields_from [] rest else word # fields_from [] rest
           | None \<Rightarrow> fields_from (word @ [c]) s'))"
  by pat_completeness auto
termination
  using strip_prefix_shorter [OF spaces_not_Nil(1)]
  by (relation "measure (\<lambda>(w, s). length s)") fastforce+

declare fields_from.simps [simp del]

definition Fields :: "string \<Rightarrow> string list" where
  "Fields s = fields_from [] s"

definition keyLineFor :: "'k ssh_lib \<Rightarrow> 'k \<Rightarrow> string \<Rightarrow> string" where
  "keyLineFor L key comment =
     (let line = TrimSpace (MarshalAuthorizedKey L key);
          comment' = Join '' '' (Fields comment)
      in if comment' \<noteq> [] then line @ '' '' @ comment' else line)"

text \<open>\<open>readLines\<close> and \<open>writeKeyFile\<close> of a file of a directory. A write goes through a temporary file
  and a rename; whether the disk takes it is the environment's.\<close>

definition readLines :: "directory \<Rightarrow> string \<Rightarrow> key_error + string list" where
  "readLines d name =
     (case mget d name of
        None \<Rightarrow> Inr []
      | Some ent \<Rightarrow>
          (case ReadFile ent of
             Inl e \<Rightarrow> Inl e
           | Inr data \<Rightarrow>
               (case stripBOM data of
                  Inl e \<Rightarrow> Inl e
                | Inr body \<Rightarrow>
                    if body = [] then Inr [] else Inr (Split newline (TrimSuffix body [newline])))))"

definition holds_key :: "'k ssh_lib \<Rightarrow> string \<Rightarrow> bool" where
  "holds_key L line = (case parseKeyLine L line of IsKey key comment \<Rightarrow> True | _ \<Rightarrow> False)"

definition writeKeyFile :: "'k ssh_lib \<Rightarrow> bool \<Rightarrow> string \<Rightarrow> string list \<Rightarrow> directory \<Rightarrow> bool \<times> directory" where
  "writeKeyFile L disk name lines d =
     (if list_ex (holds_key L) lines
      then (if disk then (True, mput name (Data (record_body lines)) d) else (False, d))
      else if mget d name = None then (True, d)
      else if disk then (True, mdel name d) else (False, d))"

definition line_has :: "'k ssh_lib \<Rightarrow> string \<Rightarrow> string \<Rightarrow> bool" where
  "line_has L fingerprint line =
     (case parseKeyLine L line of IsKey key comment \<Rightarrow> FingerprintSHA256 L key = fingerprint | _ \<Rightarrow> False)"

fun withoutKey :: "'k ssh_lib \<Rightarrow> string list \<Rightarrow> string \<Rightarrow> string list \<times> bool" where
  "withoutKey L [] fingerprint = ([], False)"
| "withoutKey L (line # lines) fingerprint =
     (let (kept, found) = withoutKey L lines fingerprint
      in if line_has L fingerprint line then (kept, True) else (line # kept, found))"

definition removeKeyLine ::
    "'k ssh_lib \<Rightarrow> bool \<Rightarrow> string \<Rightarrow> string \<Rightarrow> directory \<Rightarrow> (key_error option + bool) \<times> directory" where
  "removeKeyLine L disk name fingerprint d =
     (case readLines d name of
        Inl e \<Rightarrow> (Inl (Some e), d)
      | Inr lines \<Rightarrow>
          (case withoutKey L lines fingerprint of
             (kept, False) \<Rightarrow> (Inr False, d)
           | (kept, True) \<Rightarrow>
               (case writeKeyFile L disk name kept d of
                  (True, d') \<Rightarrow> (Inr True, d')
                | (False, d') \<Rightarrow> (Inl None, d'))))"

section \<open>The files of a directory\<close>

record namedFile =
  f_file :: string
  f_account :: string

definition key_entry :: "string \<times> dirent \<Rightarrow> bool" where
  "key_entry e \<longleftrightarrow> snd e \<noteq> SubDir \<and> \<not> HasPrefix (fst e) ''.'' \<and> HasSuffix (fst e) ''.pub''"

fun claim_files :: "(nat \<Rightarrow> nat) \<Rightarrow> string list \<Rightarrow> (string, string) gomap \<Rightarrow> namedFile list" where
  "claim_files other [] claimed = []"
| "claim_files other (file # files) claimed =
     (case AccountName other (TrimSuffix file ''.pub'') of
        None \<Rightarrow> claim_files other files claimed
      | Some name \<Rightarrow>
          if mget claimed name \<noteq> None then claim_files other files claimed
          else \<lparr>f_file = file, f_account = name\<rparr> # claim_files other files (mput name file claimed))"

definition exact_name :: "(nat \<Rightarrow> nat) \<Rightarrow> string \<Rightarrow> bool" where
  "exact_name other file \<longleftrightarrow> AccountName other (TrimSuffix file ''.pub'') = Some (TrimSuffix file ''.pub'')"

definition keyFiles_in :: "(nat \<Rightarrow> nat) \<Rightarrow> directory \<Rightarrow> namedFile list" where
  "keyFiles_in other d =
     (let names = map fst (filter key_entry d);
          exact = filter (exact_name other) names;
          folded = filter (\<lambda>n. \<not> exact_name other n) names
      in claim_files other (sort exact @ sort folded) [])"

text \<open>A keys directory that is missing, that cannot be read, or its entries.\<close>

datatype dir_state = NoDir | BadDir | Dir directory

definition keyFiles :: "(nat \<Rightarrow> nat) \<Rightarrow> string \<Rightarrow> string \<Rightarrow> dir_state \<Rightarrow> namedFile list option" where
  "keyFiles other enrolled dir st =
     (case st of
        NoDir \<Rightarrow> if dir = enrolled then Some [] else None
      | BadDir \<Rightarrow> None
      | Dir d \<Rightarrow> Some (keyFiles_in other d))"

section \<open>One file for an account\<close>

abbreviation account_of :: "(nat \<Rightarrow> nat) \<Rightarrow> string \<Rightarrow> string option" where
  "account_of other file \<equiv> AccountName other (TrimSuffix file ''.pub'')"

text \<open>A file that is listed is the first of the files for its account.\<close>

lemma claim_files_first:
  "f \<in> set (claim_files other files claimed) \<Longrightarrow>
     mget claimed (f_account f) = None \<and> account_of other (f_file f) = Some (f_account f) \<and>
     (\<exists>before after. files = before @ f_file f # after \<and>
        (\<forall>h \<in> set before. account_of other h \<noteq> Some (f_account f)))"
proof (induction files arbitrary: claimed)
  case Nil
  then show ?case by simp
next
  case (Cons g files)
  show ?case
  proof (cases "account_of other g")
    case None
    with Cons have "mget claimed (f_account f) = None \<and> account_of other (f_file f) = Some (f_account f) \<and>
       (\<exists>before after. files = before @ f_file f # after \<and>
          (\<forall>h \<in> set before. account_of other h \<noteq> Some (f_account f)))" by simp
    then obtain before after where "mget claimed (f_account f) = None" "account_of other (f_file f) = Some (f_account f)"
      "files = before @ f_file f # after" "\<forall>h \<in> set before. account_of other h \<noteq> Some (f_account f)" by blast
    with None show ?thesis by (intro conjI exI [of _ "g # before"] exI [of _ after]) auto
  next
    case (Some name)
    show ?thesis
    proof (cases "f = \<lparr>f_file = g, f_account = name\<rparr> \<and> mget claimed name = None")
      case True
      with Some show ?thesis by (intro conjI exI [of _ "[]"] exI [of _ files]) auto
    next
      case False
      obtain claimed' where c: "f \<in> set (claim_files other files claimed')"
        "mget claimed' (f_account f) = None \<Longrightarrow> mget claimed (f_account f) = None \<and> name \<noteq> f_account f"
      proof (cases "mget claimed name")
        case None
        with False Some Cons.prems have "f \<in> set (claim_files other files (mput name g claimed))" by auto
        then show ?thesis by (rule that) (auto split: if_splits)
      next
        case (Some x)
        with \<open>account_of other g = Some name\<close> Cons.prems have "f \<in> set (claim_files other files claimed)" by simp
        then show ?thesis by (rule that) (use Some in auto)
      qed
      from Cons.IH [OF c(1)] obtain before after where "mget claimed' (f_account f) = None"
        "account_of other (f_file f) = Some (f_account f)"
        "files = before @ f_file f # after" "\<forall>h \<in> set before. account_of other h \<noteq> Some (f_account f)" by blast
      with c(2) Some show ?thesis by (intro conjI exI [of _ "g # before"] exI [of _ after]) auto
    qed
  qed
qed

lemma claim_files_distinct: "distinct (map f_account (claim_files other files claimed))"
proof (induction files arbitrary: claimed)
  case Nil
  then show ?case by simp
next
  case (Cons g files)
  have "name \<notin> f_account ` set (claim_files other files (mput name g claimed))" for name
    using claim_files_first [of _ other files "mput name g claimed"] by force
  with Cons show ?case by (auto split: option.splits)
qed

lemma claim_files_all:
  "file \<in> set files \<Longrightarrow> account_of other file = Some name \<Longrightarrow> mget claimed name = None \<Longrightarrow>
     name \<in> f_account ` set (claim_files other files claimed)"
proof (induction files arbitrary: claimed)
  case Nil
  then show ?case by simp
next
  case (Cons g files)
  show ?case
  proof (cases "account_of other g = Some name")
    case True
    with Cons.prems show ?thesis by simp
  next
    case False
    with Cons.prems have "file \<in> set files" by auto
    with Cons False show ?thesis
      by (auto split: option.splits)
  qed
qed

lemma first_in_front:
  assumes "xs @ ys = before @ f # after" and "x \<in> set xs" and "x \<notin> set before"
  shows "f \<in> set xs"
proof -
  from assms(1) consider us where "xs = before @ f # us" | us where "before = xs @ us"
    by (auto simp: append_eq_append_conv2 append_eq_Cons_conv)
  then show ?thesis using assms(2,3) by cases auto
qed

lemma pub_file: "HasSuffix file ''.pub'' \<Longrightarrow> TrimSuffix file ''.pub'' = name \<longleftrightarrow> file = name @ ''.pub''"
  by (auto simp: HasSuffix_iff)

text \<open>The files of a directory that enrol somebody: each account some file names is enrolled by exactly one
  of them, the file spelled as the account where there is one, and a file enrols only the account
  its name derives.\<close>

lemma keyFiles_in_first:
  assumes "f \<in> set (keyFiles_in other d)"
  shows "(\<exists>ent. (f_file f, ent) \<in> set d \<and> key_entry (f_file f, ent)) \<and> account_of other (f_file f) = Some (f_account f) \<and>
    ((f_account f @ ''.pub'', ent) \<in> set d \<longrightarrow> key_entry (f_account f @ ''.pub'', ent) \<longrightarrow> f_file f = f_account f @ ''.pub'')"
proof -
  let ?names = "map fst (filter key_entry d)"
  let ?exact = "sort (filter (exact_name other) ?names)"
  let ?folded = "sort (filter (\<lambda>n. \<not> exact_name other n) ?names)"
  from assms have "f \<in> set (claim_files other (?exact @ ?folded) [])" by (simp add: keyFiles_in_def Let_def)
  from claim_files_first [OF this] obtain before after where name: "account_of other (f_file f) = Some (f_account f)"
    and split: "?exact @ ?folded = before @ f_file f # after"
    and first: "\<forall>g \<in> set before. account_of other g \<noteq> Some (f_account f)" by blast
  have "f_file f \<in> set (?exact @ ?folded)" unfolding split by simp
  then have mem: "f_file f \<in> set ?names" by auto
  then obtain ent' where ent': "(f_file f, ent') \<in> set d" "key_entry (f_file f, ent')" by auto
  have "f_file f = f_account f @ ''.pub''"
    if exists: "(f_account f @ ''.pub'', ent) \<in> set d" "key_entry (f_account f @ ''.pub'', ent)"
  proof -
    let ?own = "f_account f @ ''.pub''"
    have own: "account_of other ?own = Some (f_account f)"
      using AccountName_of_shape [OF AccountName_shape [OF name]] by simp
    then have "exact_name other ?own" by (simp add: exact_name_def)
    moreover from exists have "?own \<in> set ?names" by force
    ultimately have "?own \<in> set ?exact" by simp
    moreover have "?own \<notin> set before" using first own by blast
    ultimately have "f_file f \<in> set ?exact"
      using first_in_front [OF split] by blast
    then have "exact_name other (f_file f)" by simp
    with name have "TrimSuffix (f_file f) ''.pub'' = f_account f" by (simp add: exact_name_def)
    with ent'(2) show ?thesis by (simp add: pub_file key_entry_def)
  qed
  with name ent' show ?thesis by blast
qed

lemma keyFiles_in_distinct: "distinct (map f_account (keyFiles_in other d))"
  by (simp add: keyFiles_in_def Let_def claim_files_distinct)

lemma keyFiles_in_all:
  assumes "(file, ent) \<in> set d" and "key_entry (file, ent)" and "account_of other file = Some name"
  shows "name \<in> f_account ` set (keyFiles_in other d)"
proof -
  from assms(1,2) have "file \<in> fst ` {e \<in> set d. key_entry e}" by force
  then show ?thesis
    unfolding keyFiles_in_def Let_def by (intro claim_files_all [OF _ assms(3)]) auto
qed

lemma keyFiles_in_order: "mset d = mset d' \<Longrightarrow> keyFiles_in other d = keyFiles_in other d'"
proof -
  assume "mset d = mset d'"
  then have "mset (filter P (map fst (filter key_entry d))) = mset (filter P (map fst (filter key_entry d')))" for P
    by simp
  then have "sort (filter P (map fst (filter key_entry d))) = sort (filter P (map fst (filter key_entry d')))" for P
    by (metis mset_sort properties_for_sort sorted_sort)
  then show ?thesis by (simp add: keyFiles_in_def Let_def)
qed

section \<open>The words of a comment\<close>

definition no_space :: "string \<Rightarrow> bool" where
  "no_space w \<longleftrightarrow> (\<forall>u p v. w = u @ p @ v \<longrightarrow> p \<notin> set spaces)"

lemma strip_prefix_found: "p \<in> set ps \<Longrightarrow> strip_prefix ps (p @ s) \<noteq> None"
  by (induction ps) (auto split: option.splits)

lemma fields_from_words:
  assumes "\<And>u v. word = u @ v \<Longrightarrow> v \<noteq> [] \<Longrightarrow> strip_prefix spaces (v @ s) = None"
  shows "\<forall>w \<in> set (fields_from word s). w \<noteq> [] \<and> no_space w"
  using assms
proof (induction word s rule: fields_from.induct)
  case (1 word s)
  have word: "no_space word"
    unfolding no_space_def
  proof (intro allI impI notI)
    fix u p v
    assume "word = u @ p @ v" and p: "p \<in> set spaces"
    moreover have "p \<noteq> []" using p spaces_not_Nil by auto
    ultimately have "strip_prefix spaces (p @ v @ s) = None" using 1(4) [of u "p @ v"] by simp
    then show False using strip_prefix_found [OF p] by blast
  qed
  show ?case
  proof (cases s)
    case Nil
    with word show ?thesis by (subst fields_from.simps) simp
  next
    case (Cons c s')
    show ?thesis
    proof (cases "strip_prefix spaces s")
      case None
      have "strip_prefix spaces (v @ s') = None" if "word @ [c] = u @ v" "v \<noteq> []" for u v
      proof (cases v rule: rev_cases)
        case Nil
        with that show ?thesis by simp
      next
        case (snoc v' x)
        with that have x: "x = c" and w: "word = u @ v'" by auto
        then have "strip_prefix spaces (v' @ s) = None"
          using 1(4) None by (cases "v' = []") auto
        then show ?thesis by (simp add: snoc x Cons)
      qed
      then have "\<forall>w \<in> set (fields_from (word @ [c]) s'). w \<noteq> [] \<and> no_space w"
        by (rule 1(1) [OF Cons None])
      with None Cons show ?thesis by (subst fields_from.simps) simp
    next
      case (Some rest)
      have "\<forall>w \<in> set (fields_from [] rest). w \<noteq> [] \<and> no_space w"
      proof (cases "word = []")
        case True
        with 1(2) [OF Cons] Some Cons show ?thesis by simp
      next
        case False
        with 1(3) [OF Cons] Some Cons show ?thesis by simp
      qed
      with Some Cons word show ?thesis by (subst fields_from.simps) simp
    qed
  qed
qed

lemma Fields_words: "w \<in> set (Fields s) \<Longrightarrow> w \<noteq> [] \<and> no_space w"
  using fields_from_words [of "[]" s] by (auto simp: Fields_def)

lemma eq_char_of: "c = char_of (n :: nat) \<longleftrightarrow> byte c = n mod 256"
  using char_of_eq_iff [of n c] by (auto simp: take_bit_eq_mod)

lemma long_space: "p \<in> set spaces \<Longrightarrow> CHR 32 \<in> set p \<Longrightarrow> length p = 1"
  unfolding spaces_def bytes_def by (auto simp: eq_char_of)

lemma no_space_char: "no_space w \<Longrightarrow> [c] \<in> set spaces \<Longrightarrow> c \<notin> set w"
  unfolding no_space_def by (metis append_Cons append_Nil split_list)

lemma line_spaces: "[CHR 10] \<in> set spaces" "[CHR 13] \<in> set spaces" "[CHR 32] \<in> set spaces"
  by (simp_all add: spaces_def bytes_def eq_char_of)

lemma strip_prefix_Some: "strip_prefix ps s = Some r \<Longrightarrow> \<exists>p \<in> set ps. s = p @ r"
  by (induction ps) (auto simp: CutPrefix_Some split: option.splits)

lemma word_not_trimmed:
  assumes "w \<noteq> []" and "no_space w"
  shows "strip_prefix (map rev spaces) (rev (x @ '' '' @ w)) = None"
proof (rule ccontr)
  assume "strip_prefix (map rev spaces) (rev (x @ '' '' @ w)) \<noteq> None"
  then obtain r where "strip_prefix (map rev spaces) (rev (x @ '' '' @ w)) = Some r" by blast
  from strip_prefix_Some [OF this] obtain p where p: "p \<in> set spaces" and "rev (x @ '' '' @ w) = rev p @ r" by auto
  then have "rev (rev (x @ '' '' @ w)) = rev (rev p @ r)" by (simp only:)
  then have eq: "(x @ '' '') @ w = rev r @ p" by simp
  obtain us where "w = us @ p \<or> x @ '' '' = rev r @ us \<and> p = us @ w"
    using eq unfolding append_eq_append_conv2 by metis
  then consider "w = us @ p @ []" | "p = us @ w" "x @ '' '' = rev r @ us" "us \<noteq> []" by fastforce
  then show False
  proof cases
    case 1
    with assms(2) p show False unfolding no_space_def by blast
  next
    case 2
    then have "last us = CHR 32" by (metis last_appendR last_snoc)
    with 2 have "CHR 32 \<in> set p" by (metis Un_iff last_in_set set_append)
    moreover have "length p \<noteq> 1" using 2 assms(1) by (cases us; cases w) auto
    ultimately show False using long_space [OF p] by simp
  qed
qed

lemma Join_last: "ws \<noteq> [] \<Longrightarrow> \<exists>x. '' '' @ Join '' '' ws = x @ '' '' @ last ws"
proof (induction "'' ''" ws rule: Join.induct)
  case 1
  then show ?case by simp
next
  case (2 w)
  show ?case by (intro exI [of _ "[]"]) simp
next
  case (3 w v ws)
  then obtain x where "'' '' @ Join '' '' (v # ws) = x @ '' '' @ last (v # ws)" by auto
  then show ?case by (intro exI [of _ "'' '' @ w @ x"]) simp
qed

text \<open>What is relied on of the SSH library: it prints a key as one line which it parses as that key,
  with the words behind it as the comment.\<close>

definition ssh_prints :: "'k ssh_lib \<Rightarrow> 'k \<Rightarrow> bool" where
  "ssh_prints L key \<longleftrightarrow>
     (let line = TrimSpace (MarshalAuthorizedKey L key)
      in line \<noteq> [] \<and> plain (hd line) \<and> hd line \<noteq> CHR ''#'' \<and> plain (last line) \<and> newline \<notin> set line \<and>
         ParseAuthorizedKey L line = Some (key, []) \<and>
         (\<forall>words. words \<noteq> [] \<and> (\<forall>w \<in> set words. w \<noteq> [] \<and> no_space w) \<longrightarrow>
            ParseAuthorizedKey L (line @ '' '' @ Join '' '' words) = Some (key, Join '' '' words)))"

lemma keyLineFor_parses:
  assumes "ssh_prints L key"
  shows "parseKeyLine L (drop_CR (keyLineFor L key comment)) = IsKey key (Join '' '' (Fields comment))"
    and "parseKeyLine L (keyLineFor L key comment) = IsKey key (Join '' '' (Fields comment))"
    and "newline \<notin> set (keyLineFor L key comment)" and "keyLineFor L key comment \<noteq> []"
proof -
  define line where "line = TrimSpace (MarshalAuthorizedKey L key)"
  define words where "words = Fields comment"
  have ne: "line \<noteq> []" and h: "plain (hd line)" and hash: "hd line \<noteq> CHR ''#''" and l: "plain (last line)"
    and nl: "newline \<notin> set line" and bare: "ParseAuthorizedKey L line = Some (key, [])"
    using assms by (auto simp: ssh_prints_def line_def Let_def)
  have wordy: "\<forall>w \<in> set words. w \<noteq> [] \<and> no_space w" using Fields_words by (auto simp: words_def)
  have plain_line: "keyLineFor L key comment = (if words = [] then line else line @ '' '' @ Join '' '' words)"
    using Join_eq_Nil [of words "'' ''"] wordy
    by (auto simp: keyLineFor_def Let_def line_def words_def)
  have parsed: "ParseAuthorizedKey L (keyLineFor L key comment) = Some (key, Join '' '' words)"
  proof (cases "words = []")
    case True
    with bare plain_line show ?thesis by simp
  next
    case False
    with assms wordy have "ParseAuthorizedKey L (line @ '' '' @ Join '' '' words) = Some (key, Join '' '' words)"
      unfolding ssh_prints_def line_def Let_def by blast
    with False plain_line show ?thesis by simp
  qed
  have chars: "c \<notin> set (Join '' '' words)" if "[c] \<in> set spaces" "c \<noteq> CHR 32" for c
  proof
    assume "c \<in> set (Join '' '' words)"
    from Join_set [OF this] that(2) obtain w where "w \<in> set words" and "c \<in> set w" by auto
    with wordy no_space_char [OF _ that(1)] show False by blast
  qed
  show "newline \<notin> set (keyLineFor L key comment)"
    using nl chars [OF line_spaces(1)] by (cases "words = []") (simp_all add: plain_line)
  show nonempty: "keyLineFor L key comment \<noteq> []" using plain_line ne by auto
  have start: "hd (keyLineFor L key comment) = hd line" using plain_line ne by auto
  have trim: "TrimSpace (keyLineFor L key comment) = keyLineFor L key comment"
  proof (cases "words = []")
    case True
    with plain_line ne h l show ?thesis by simp
  next
    case False
    then obtain x where x: "'' '' @ Join '' '' words = x @ '' '' @ last words" using Join_last by blast
    with False plain_line have "keyLineFor L key comment = (line @ x) @ '' '' @ last words" by simp
    then have "strip_prefix (map rev spaces) (rev (keyLineFor L key comment)) = None"
      using word_not_trimmed [of "last words" "line @ x"] wordy False by simp
    moreover have "trim_left spaces (keyLineFor L key comment) = keyLineFor L key comment"
      using h start by (simp add: trim_left_plain)
    ultimately show ?thesis by (simp add: TrimSpace_def trim_left_id)
  qed
  have "drop_CR (keyLineFor L key comment) = keyLineFor L key comment"
  proof -
    have "\<not> HasSuffix (keyLineFor L key comment) [CHR 13]"
    proof
      assume "HasSuffix (keyLineFor L key comment) [CHR 13]"
      then have cr: "last (keyLineFor L key comment) = CHR 13" by (auto simp: HasSuffix_iff)
      show False
      proof (cases "words = []")
        case True
        with cr l show False by (simp add: plain_line plain_def)
      next
        case False
        with wordy have "Join '' '' words \<noteq> []" using Join_eq_Nil [of words "'' ''"] by blast
        with False cr have "CHR 13 \<in> set (Join '' '' words)" by (metis append_is_Nil_conv last_appendR last_in_set plain_line)
        then show False using chars [OF line_spaces(2)] by simp
      qed
    qed
    then show ?thesis by (simp add: drop_CR_def TrimSuffix_def)
  qed
  with parsed trim nonempty start hash
  show "parseKeyLine L (drop_CR (keyLineFor L key comment)) = IsKey key (Join '' '' (Fields comment))"
    and "parseKeyLine L (keyLineFor L key comment) = IsKey key (Join '' '' (Fields comment))"
    by (simp_all add: parseKeyLine_def words_def)
qed

section \<open>Edits of a key file\<close>

text \<open>\<open>readLines\<close> sees the lines the scanner sees.\<close>

lemma lines_as_scanned:
  assumes "body \<noteq> []"
  shows "Split newline (TrimSuffix body [newline]) = scan_lines body"
proof (cases "HasSuffix body [newline]")
  case True
  then obtain s where "body = s @ [newline]" by (auto simp: HasSuffix_iff)
  then show ?thesis by (simp add: scan_lines_def Split_snoc)
next
  case False
  have "last (Split newline body) \<noteq> []"
  proof
    assume e: "last (Split newline body) = []"
    have "body = Join [newline] (Split newline body)" by (simp add: Join_Split)
    also have "Split newline body = butlast (Split newline body) @ [[]]"
      using e by (metis Split_not_Nil append_butlast_last_id)
    finally have b: "body = Join [newline] (butlast (Split newline body) @ [[]])" .
    have "ls \<noteq> [] \<Longrightarrow> Join [newline] (ls @ [[]]) = Join [newline] ls @ [newline]" for ls
      by (induction "[newline]" ls rule: Join.induct) (auto simp: neq_Nil_conv)
    with b assms False show False by (cases "butlast (Split newline body) = []") (auto simp: HasSuffix_iff)
  qed
  with False show ?thesis by (simp add: scan_lines_def TrimSuffix_def)
qed

lemma scan_body:
  assumes "list_all (\<lambda>l. newline \<notin> set l) ls" and "ls \<noteq> []" and "ls \<noteq> [[]]"
  shows "scan_lines (record_body ls) = ls" and "record_body ls \<noteq> []"
proof -
  from assms have "Join [newline] ls \<noteq> []" by (cases ls; cases "tl ls") auto
  with assms show "scan_lines (record_body ls) = ls"
    by (simp add: scan_lines_def record_body_def Split_snoc Split_Join list_all_iff)
  show "record_body ls \<noteq> []" using \<open>Join [newline] ls \<noteq> []\<close> by (simp add: record_body_def)
qed

lemma readLines_no_newline: "readLines d name = Inr lines \<Longrightarrow> list_all (\<lambda>l. newline \<notin> set l) lines"
  by (auto simp: readLines_def list_all_iff dest: Split_no_sep split: option.splits sum.splits if_splits)

definition no_mark :: "string \<Rightarrow> bool" where
  "no_mark s \<longleftrightarrow> stripBOM s = Inr s"

lemma scan_keys_append:
  assumes "scan_keys L ls = Inr (keys, comments, skipped)" and "scan_keys L ms = Inr (keys', comments', skipped')"
  shows "scan_keys L (ls @ ms) = Inr (keys @ keys', comments @ comments', skipped + skipped')"
  using assms(1)
proof (induction ls arbitrary: keys comments skipped)
  case Nil
  with assms(2) show ?case by simp
next
  case (Cons l ls)
  then obtain ks cs n where "scan_keys L ls = Inr (ks, cs, n)"
    by (auto split: if_splits sum.splits)
  with Cons show ?case by (auto split: if_splits key_line.splits)
qed

lemma withoutKey_kept: "withoutKey L lines fp = (filter (\<lambda>l. \<not> line_has L fp l) lines, list_ex (line_has L fp) lines)"
  by (induction lines) auto

lemma CR_space: "p \<in> set spaces \<Longrightarrow> CHR 13 \<in> set p \<Longrightarrow> p = [CHR 13]"
  unfolding spaces_def bytes_def by (auto simp: eq_char_of char_of_eq_iff take_bit_eq_mod)

lemma CutPrefix_CR: "p \<in> set spaces \<Longrightarrow> s \<noteq> [] \<Longrightarrow> CutPrefix (s @ [CHR 13]) p = map_option (\<lambda>r. r @ [CHR 13]) (CutPrefix s p)"
proof (cases "HasPrefix s p")
  case True
  then show ?thesis by (auto simp: HasPrefix_iff)
next
  case False
  assume p: "p \<in> set spaces" and s: "s \<noteq> []"
  have "\<not> HasPrefix (s @ [CHR 13]) p"
  proof
    assume "HasPrefix (s @ [CHR 13]) p"
    then obtain r where "s @ [CHR 13] = p @ r" by (auto simp: HasPrefix_iff)
    moreover have "r = []"
    proof (rule ccontr)
      assume "r \<noteq> []"
      then obtain r' x where "r = r' @ [x]" by (metis rev_exhaust)
      with calculation have "s = p @ r'" by auto
      with False show False by (simp add: HasPrefix_iff)
    qed
    ultimately have "p = s @ [CHR 13]" by simp
    with CR_space [OF p] s show False by (auto simp: append_eq_Cons_conv)
  qed
  with False show ?thesis by (simp add: CutPrefix_def)
qed

lemma strip_prefix_CR:
  "s \<noteq> [] \<Longrightarrow> strip_prefix spaces (s @ [CHR 13]) = map_option (\<lambda>r. r @ [CHR 13]) (strip_prefix spaces s)"
proof -
  assume s: "s \<noteq> []"
  have "set ps \<subseteq> set spaces \<Longrightarrow>
      strip_prefix ps (s @ [CHR 13]) = map_option (\<lambda>r. r @ [CHR 13]) (strip_prefix ps s)" for ps
    by (induction ps) (auto simp: CutPrefix_CR [OF _ s] split: option.splits)
  then show ?thesis by simp
qed

lemma CR_stripped: "strip_prefix spaces [CHR 13] = Some []" "strip_prefix (map rev spaces) (CHR 13 # s) = Some s"
  by (simp_all add: spaces_def bytes_def CutPrefix_def HasPrefix_def eq_char_of)

lemma trim_left_CR:
  "trim_left spaces (s @ [CHR 13]) = (if trim_left spaces s = [] then [] else trim_left spaces s @ [CHR 13])"
proof (induction spaces s rule: trim_left.induct)
  case (1 s)
  have nil: "trim_left spaces [] = []" by (rule trim_left_plain) simp_all
  show ?case
  proof (cases "s = []")
    case True
    then show ?thesis
      by (subst trim_left.simps) (simp add: CR_stripped nil)
  next
    case False
    show ?thesis
    proof (cases "strip_prefix spaces s")
      case None
      with False show ?thesis by (simp add: trim_left_id strip_prefix_CR)
    next
      case (Some r)
      then have less: "length r < length s"
        using strip_prefix_shorter [OF spaces_not_Nil(1) Some] by auto
      from Some less have "trim_left spaces s = trim_left spaces r" by (subst trim_left.simps) simp
      moreover from Some less False have "trim_left spaces (s @ [CHR 13]) = trim_left spaces (r @ [CHR 13])"
        by (subst trim_left.simps) (simp add: strip_prefix_CR)
      ultimately show ?thesis using 1 [OF Some less] by simp
    qed
  qed
qed

lemma TrimSpace_CR: "TrimSpace (s @ [CHR 13]) = TrimSpace s"
proof -
  have "trim_left (map rev spaces) (CHR 13 # r) = trim_left (map rev spaces) r" for r
    by (subst trim_left.simps) (simp add: CR_stripped)
  then show ?thesis by (simp add: TrimSpace_def trim_left_CR)
qed

lemma TrimSpace_drop_CR: "TrimSpace (drop_CR l) = TrimSpace l"
  by (cases "HasSuffix l [CHR 13]") (auto simp: drop_CR_def TrimSuffix_def HasSuffix_iff TrimSpace_CR)

lemma parseKeyLine_drop_CR: "parseKeyLine L (drop_CR l) = parseKeyLine L l"
  by (simp add: parseKeyLine_def TrimSpace_drop_CR)

text \<open>The keys of lines, with their comments.\<close>

definition key_pairs :: "'k ssh_lib \<Rightarrow> string list \<Rightarrow> ('k \<times> string) list" where
  "key_pairs L ls = concat (map (\<lambda>l. case parseKeyLine L l of IsKey key comment \<Rightarrow> [(key, comment)] | _ \<Rightarrow> []) ls)"

definition bad_lines :: "'k ssh_lib \<Rightarrow> string list \<Rightarrow> nat" where
  "bad_lines L ls = length (filter (\<lambda>l. parseKeyLine L l = NotKey) ls)"

lemma scan_keys_pairs:
  "scan_keys L ls =
     (if list_all (\<lambda>l. length l < max_token) ls
      then Inr (map fst (key_pairs L ls), map snd (key_pairs L ls), bad_lines L ls) else Inl LineTooLong)"
  by (induction ls)
    (auto simp: key_pairs_def bad_lines_def parseKeyLine_drop_CR split: key_line.splits)

lemma key_pairs_append: "key_pairs L (ls @ ms) = key_pairs L ls @ key_pairs L ms"
  by (simp add: key_pairs_def)

lemma key_pairs_without:
  "key_pairs L (filter (\<lambda>l. \<not> line_has L fp l) ls) = filter (\<lambda>(key, comment). FingerprintSHA256 L key \<noteq> fp) (key_pairs L ls)"
  by (induction ls) (auto simp: key_pairs_def line_has_def split: key_line.splits)

lemma bad_lines_without: "bad_lines L (filter (\<lambda>l. \<not> line_has L fp l) ls) = bad_lines L ls"
  by (induction ls) (auto simp: bad_lines_def line_has_def)

lemma line_has_pairs: "list_ex (line_has L fp) ls \<longleftrightarrow> fp \<in> FingerprintSHA256 L ` fst ` set (key_pairs L ls)"
  by (induction ls) (auto simp: key_pairs_def line_has_def split: key_line.splits)

lemma holds_key_pairs: "list_ex (holds_key L) ls \<longleftrightarrow> key_pairs L ls \<noteq> []"
  by (induction ls) (auto simp: key_pairs_def holds_key_def split: key_line.splits)

text \<open>A file as it is written parses as its lines do.\<close>

lemma parseKeys_written:
  assumes "list_all (\<lambda>l. newline \<notin> set l) ls" and "list_all (\<lambda>l. length l < max_token) ls"
    and "no_mark (record_body ls)" and "key_pairs L ls \<noteq> []"
  shows "parseKeys L (Data (record_body ls)) =
    Inr (map fst (key_pairs L ls), map snd (key_pairs L ls), bad_lines L ls)"
proof -
  have "parseKeyLine L [] = BlankLine" by (simp add: parseKeyLine_def)
  with assms(4) have "ls \<noteq> []" and "ls \<noteq> [[]]" by (auto simp: key_pairs_def)
  with assms show ?thesis
    by (simp add: parseKeys_def no_mark_def scan_body scan_keys_pairs)
qed

section \<open>The change of \<open>AppendKey\<close>\<close>

definition appendKeyLine ::
    "'k ssh_lib \<Rightarrow> bool \<Rightarrow> string \<Rightarrow> 'k \<Rightarrow> string \<Rightarrow> directory \<Rightarrow> (key_error option + bool) \<times> directory" where
  "appendKeyLine L disk name key comment d =
     (case readLines d name of
        Inl e \<Rightarrow> (Inl (Some e), d)
      | Inr lines \<Rightarrow>
          if snd (withoutKey L lines (FingerprintSHA256 L key)) then (Inr False, d)
          else case writeKeyFile L disk name (lines @ [keyLineFor L key comment]) d of
                 (True, d') \<Rightarrow> (Inr True, d')
               | (False, d') \<Rightarrow> (Inl None, d'))"


text \<open>Taking a key out leaves the others, in their order, and no file at all when none is left.\<close>

theorem remove_takes_exactly:
  assumes "readLines d name = Inr lines" and "list_all (\<lambda>l. length l < max_token) lines"
    and "removeKeyLine L True name fp d = (Inr True, d')"
    and "no_mark (record_body (filter (\<lambda>l. \<not> line_has L fp l) lines))"
  defines "kept \<equiv> filter (\<lambda>(key, comment). FingerprintSHA256 L key \<noteq> fp) (key_pairs L lines)"
  shows "(\<forall>n. n \<noteq> name \<longrightarrow> mget d' n = mget d n) \<and>
    (if kept = [] then mget d' name = None
     else \<exists>ent. mget d' name = Some ent \<and> parseKeys L ent = Inr (map fst kept, map snd kept, bad_lines L lines))"
proof -
  let ?left = "filter (\<lambda>l. \<not> line_has L fp l) lines"
  have kept: "key_pairs L ?left = kept" by (simp add: kept_def key_pairs_without)
  from assms(1,3) have d': "d' = snd (writeKeyFile L True name ?left d)"
    by (auto simp: removeKeyLine_def withoutKey_kept split: bool.splits prod.splits)
  have "list_all (\<lambda>l. newline \<notin> set l) ?left" "list_all (\<lambda>l. length l < max_token) ?left"
    using readLines_no_newline [OF assms(1)] assms(2) by (auto simp: list_all_iff)
  then have "kept \<noteq> [] \<Longrightarrow> parseKeys L (Data (record_body ?left)) = Inr (map fst kept, map snd kept, bad_lines L lines)"
    using parseKeys_written [OF _ _ assms(4), of L] by (simp add: kept bad_lines_without)
  then show ?thesis
    by (auto simp: d' writeKeyFile_def holds_key_pairs kept)
qed

section \<open>An example\<close>

text \<open>A library whose keys are words, printed as they are, and their own fingerprint.\<close>

definition text_keys :: "string ssh_lib" where
  "text_keys =
     \<lparr>ParseAuthorizedKey = (\<lambda>s. if HasPrefix s ''k''
        then Some (takeWhile (\<lambda>c. c \<noteq> CHR '' '') s, drop 1 (dropWhile (\<lambda>c. c \<noteq> CHR '' '') s)) else None),
      FingerprintSHA256 = (\<lambda>k. k), MarshalAuthorizedKey = (\<lambda>k. k @ [newline])\<rparr>"

lemma trim_k1: "TrimSpace (''k1'' @ [newline]) = ''k1''"
proof -
  have "strip_prefix (map rev spaces) (newline # s) = Some s" for s
    by (simp add: spaces_def bytes_def CutPrefix_def HasPrefix_def eq_char_of)
  then have "trim_left (map rev spaces) (rev (''k1'' @ [newline])) = rev ''k1''"
    by (subst trim_left.simps) (simp add: trim_left_plain plain_def)
  moreover have "trim_left spaces (''k1'' @ [newline]) = ''k1'' @ [newline]" by (rule trim_left_plain) (simp_all add: plain_def)
  ultimately show ?thesis by (simp add: TrimSpace_def)
qed

lemma text_keys_prints: "ssh_prints text_keys ''k1''"
  using trim_k1 by (simp add: ssh_prints_def text_keys_def HasPrefix_def plain_def)

lemma text_fp: "FingerprintSHA256 text_keys k = k"
  by (simp add: text_keys_def)

lemma marks: "no_mark [CHR ''k'', c, newline]"
  by (simp add: no_mark_def stripBOM_def CutPrefix_def HasPrefix_def bytes_def eq_char_of)

lemma text_key_lines:
  "keyLineFor text_keys ''k1'' '''' = ''k1''" "parseKeyLine text_keys ''k1'' = IsKey ''k1'' ''''" "parseKeyLine text_keys ''k2'' = IsKey ''k2'' ''''"
proof -
  have "ssh_prints text_keys ''k1''" by (rule text_keys_prints)
  moreover have "Fields '''' = []" by (simp add: Fields_def fields_from.simps)
  ultimately show "keyLineFor text_keys ''k1'' '''' = ''k1''"
    using trim_k1 by (simp add: keyLineFor_def Let_def text_keys_def)
qed (simp_all add: parseKeyLine_def text_keys_def HasPrefix_def plain_def)


theorem remove_takes_exactly_witness:
  "\<exists>d' ent. removeKeyLine text_keys True ''a.pub'' ''k1'' [(''a.pub'', Data (record_body [''k1'', ''k2'']))] = (Inr True, d') \<and>
     mget d' ''a.pub'' = Some ent \<and> parseKeys text_keys ent = Inr ([''k2''], [''''], 0)"
proof -
  let ?d = "[(''a.pub'', Data (record_body [''k1'', ''k2'']))]"
  have body: "record_body [''k1'', ''k2''] = ''k1'' @ newline # ''k2'' @ [newline]" by (simp add: record_body_def)
  have "stripBOM (record_body [''k1'', ''k2'']) = Inr (record_body [''k1'', ''k2''])"
    by (simp add: body stripBOM_def CutPrefix_def HasPrefix_def bytes_def eq_char_of)
  moreover have "TrimSuffix (record_body [''k1'', ''k2'']) [newline] = ''k1'' @ newline # ''k2''"
    using TrimSuffix_append [of "''k1'' @ newline # ''k2''" "[newline]"] by (simp add: body)
  moreover have "Split newline (''k1'' @ newline # ''k2'') = [''k1'', ''k2'']" by (subst Split_append) simp_all
  ultimately have r: "readLines ?d ''a.pub'' = Inr [''k1'', ''k2'']"
    by (simp add: readLines_def) (simp add: body)
  have has: "line_has text_keys ''k1'' ''k1''" "\<not> line_has text_keys ''k1'' ''k2''"
    by (simp_all add: line_has_def text_key_lines text_fp)
  have pairs: "key_pairs text_keys [''k1'', ''k2''] = [(''k1'', ''''), (''k2'', '''')]" "bad_lines text_keys [''k1'', ''k2''] = 0"
    by (simp_all add: key_pairs_def bad_lines_def text_key_lines)
  have "list_ex (holds_key text_keys) [''k2'']" by (simp add: holds_key_def text_key_lines)
  then obtain d' where d': "removeKeyLine text_keys True ''a.pub'' ''k1'' ?d = (Inr True, d')"
    using r has by (simp add: removeKeyLine_def writeKeyFile_def)
  have "no_mark (record_body (filter (\<lambda>l. \<not> line_has text_keys ''k1'' l) [''k1'', ''k2'']))"
    by (simp add: has record_body_def marks)
  from remove_takes_exactly [OF r _ d' this] d' show ?thesis
    by (simp add: max_token_def pairs text_fp)
qed

end
