(* ===== verification/Account_Store.thy ===== *)
theory Account_Store
  imports Account_Keys
begin

text \<open>
  The account store (\<open>core-agent/accounts/accounts.go\<close>, \<open>unixname.go\<close> and the locked step of
  \<open>purge.go\<close>): the accounts the keys directories enrol, the uids on record for them, and the unix
  users behind them.

  A sync reads every directory, decides the uids, starts the provisioning of new accounts and swaps
  in the accounts it found, all under one lock (\<open>swap\<close>). What it read is its argument, so nothing is
  assumed of who edits the directories meanwhile. Creating the unix user is the environment's; its
  end is the locked steps \<open>provision_succeeded\<close> and \<open>provision_finished\<close>.

  The lemmas reduce a sync to one equation per account (\<open>swap_result\<close>) and show who may log in after
  it: exactly the keys the directories enrol, for accounts that were provisioned. Theory
  \<open>Account_Uids\<close> has the properties of runs of the store.
\<close>

section \<open>Accounts\<close>

record 'k keySource =
  s_Dir :: string
  s_Keys :: "'k list"
  s_Comments :: "string list"

record 'k account =
  a_Name :: string
  a_UID :: int
  a_GID :: int
  a_Home :: string
  a_Keys :: "'k list"
  a_Sources :: "'k keySource list"
  a_Unix :: string

definition no_source :: "'k keySource" where
  "no_source = \<lparr>s_Dir = '''', s_Keys = [], s_Comments = []\<rparr>"

definition source :: "'k account option \<Rightarrow> string \<Rightarrow> 'k keySource" where
  "source a dir =
     (case a of
        None \<Rightarrow> no_source
      | Some acc \<Rightarrow> (case find (\<lambda>src. s_Dir src = dir) (a_Sources acc) of None \<Rightarrow> no_source | Some src \<Rightarrow> src))"

definition Authorized :: "'k ssh_lib \<Rightarrow> 'k account \<Rightarrow> 'k \<Rightarrow> bool" where
  "Authorized L a key = list_ex (\<lambda>k. FingerprintSHA256 L k = FingerprintSHA256 L key) (a_Keys a)"

text \<open>The store: its directories, what \<open>Ensure\<close> settled on for the accounts it succeeded for, the accounts
  being provisioned with the uid they are created with, the published accounts, and the key files
  that held no usable key at the last sync.\<close>

record 'k store =
  st_KeysDirs :: "string list"
  st_EnrolledDir :: string
  st_UIDBase :: int
  st_provisioned :: "(string, string \<times> string) gomap"
  st_provisioning :: "(string, int) gomap"
  st_accounts :: "(string, 'k account) gomap"
  st_unusable :: "(string \<times> string) list"

definition New :: "string list \<Rightarrow> string \<Rightarrow> int \<Rightarrow> 'k store" where
  "New keysDirs enrolled base =
     \<lparr>st_KeysDirs = keysDirs, st_EnrolledDir = enrolled, st_UIDBase = base, st_provisioned = [],
      st_provisioning = [], st_accounts = [], st_unusable = []\<rparr>"

definition Lookup_account :: "'k store \<Rightarrow> string \<Rightarrow> 'k account option" where
  "Lookup_account s name = mget (st_accounts s) name"

definition List_accounts :: "'k store \<Rightarrow> 'k account list" where
  "List_accounts s = sort_key a_Name (map snd (st_accounts s))"

definition dirs :: "'k store \<Rightarrow> string list" where
  "dirs s = (if st_EnrolledDir s = '''' then st_KeysDirs s else st_KeysDirs s @ [st_EnrolledDir s])"

section \<open>The uids\<close>

abbreviation releasedUIDs :: string where
  "releasedUIDs \<equiv> ''-released''"

definition parse_uid_line :: "string \<Rightarrow> (string \<times> int) option" where
  "parse_uid_line line =
     (case Cut CHR '':'' line of
        None \<Rightarrow> None
      | Some (name, v) \<Rightarrow> (case Atoi (TrimSpace v) of None \<Rightarrow> None | Some uid \<Rightarrow> Some (TrimSpace name, uid)))"

definition loadUIDs :: "file_state \<Rightarrow> (string, int) gomap option" where
  "loadUIDs record =
     (case ReadRecord record (\<lambda>line uids. case parse_uid_line line of None \<Rightarrow> uids | Some (name, uid) \<Rightarrow> mput name uid uids) [] of
        (True, uids) \<Rightarrow> Some uids
      | (False, _) \<Rightarrow> None)"

definition uid_line :: "string \<times> int \<Rightarrow> string" where
  "uid_line e = fst e @ '':'' @ Itoa (snd e)"

definition saveUIDs :: "bool \<Rightarrow> (string, int) gomap \<Rightarrow> file_state \<Rightarrow> bool \<times> file_state" where
  "saveUIDs disk uids record =
     WriteRecord disk (map (\<lambda>name. uid_line (name, case mget uids name of None \<Rightarrow> 0 | Some uid \<Rightarrow> uid)) (sort (map fst uids))) record"

definition nextUID :: "(string, int) gomap \<Rightarrow> int \<Rightarrow> int" where
  "nextUID uids base = int64 (fold (\<lambda>(name, uid) highest. max highest uid) uids (int64 (base - 1)) + 1)"

section \<open>A sync\<close>

text \<open>What a sync reads of the directories is its argument \<open>view\<close>: whoever edits them meanwhile, a sync works
  on what it read. A file gone since it was listed reads as an error.\<close>

type_synonym view = "(string, dir_state) gomap"

definition view_dir :: "view \<Rightarrow> string \<Rightarrow> dir_state" where
  "view_dir view dir = (case mget view dir of None \<Rightarrow> NoDir | Some st \<Rightarrow> st)"

definition add_source :: "string \<Rightarrow> 'k keySource \<Rightarrow> (string, 'k account) gomap \<Rightarrow> (string, 'k account) gomap" where
  "add_source name src found =
     (let a = (case mget found name of
                 None \<Rightarrow> \<lparr>a_Name = name, a_UID = 0, a_GID = 0, a_Home = '''', a_Keys = [], a_Sources = [], a_Unix = ''''\<rparr>
               | Some a \<Rightarrow> a)
      in mput name (a\<lparr>a_Sources := a_Sources a @ [src]\<rparr>) found)"

definition file_at :: "directory \<Rightarrow> string \<Rightarrow> dirent" where
  "file_at d name = (case mget d name of None \<Rightarrow> NoRead | Some ent \<Rightarrow> ent)"

definition read_key_file ::
    "'k ssh_lib \<Rightarrow> 'k store \<Rightarrow> string \<Rightarrow> directory \<Rightarrow> namedFile \<Rightarrow>
     (string, 'k account) gomap \<times> (string \<times> string) list \<Rightarrow> (string, 'k account) gomap \<times> (string \<times> string) list" where
  "read_key_file L s dir d f acc =
     (case acc of (found, unusable) \<Rightarrow>
        (case parseKeys L (file_at d (f_file f)) of
           Inr (keys, comments, skipped) \<Rightarrow>
             (add_source (f_account f) \<lparr>s_Dir = dir, s_Keys = keys, s_Comments = comments\<rparr> found, unusable)
         | Inl e \<Rightarrow>
             (let unusable' = (dir, f_account f) # unusable
              in if (dir, f_account f) \<in> set (st_unusable s) then (found, unusable')
                 else let src = source (mget (st_accounts s) (f_account f)) dir
                      in if s_Keys src = [] then (found, unusable')
                         else (add_source (f_account f) src found, unusable'))))"

fun read_dirs ::
    "'k ssh_lib \<Rightarrow> (nat \<Rightarrow> nat) \<Rightarrow> 'k store \<Rightarrow> view \<Rightarrow> string list \<Rightarrow>
     (string, 'k account) gomap \<times> (string \<times> string) list \<Rightarrow> ((string, 'k account) gomap \<times> (string \<times> string) list) option" where
  "read_dirs L other s view [] acc = Some acc"
| "read_dirs L other s view (dir # ds) acc =
     (case keyFiles other (st_EnrolledDir s) dir (view_dir view dir) of
        None \<Rightarrow> None
      | Some files \<Rightarrow>
          read_dirs L other s view ds
            (fold (read_key_file L s dir (case view_dir view dir of Dir d \<Rightarrow> d | _ \<Rightarrow> [])) files acc))"

fun dedup :: "'k ssh_lib \<Rightarrow> 'k list \<Rightarrow> string list \<Rightarrow> 'k list" where
  "dedup L [] seen = []"
| "dedup L (k # ks) seen =
     (let fp = FingerprintSHA256 L k in if fp \<in> set seen then dedup L ks seen else k # dedup L ks (fp # seen))"

definition union_keys :: "'k ssh_lib \<Rightarrow> 'k account \<Rightarrow> 'k account" where
  "union_keys L a = a\<lparr>a_Keys := dedup L (concat (map s_Keys (a_Sources a))) []\<rparr>"

fun decide_uids ::
    "int \<Rightarrow> string list \<Rightarrow> (string, int) gomap \<times> (string, 'k account) gomap \<times> bool \<Rightarrow>
     (string, int) gomap \<times> (string, 'k account) gomap \<times> bool" where
  "decide_uids base [] acc = acc"
| "decide_uids base (name # names) (uids, found, changed) =
     (let (uid, uids', changed') =
            (case mget uids name of
               Some uid \<Rightarrow> (uid, uids, changed)
             | None \<Rightarrow> (let uid = nextUID uids base in (uid, mput name uid uids, True)));
          found' = (case mget found name of None \<Rightarrow> found | Some a \<Rightarrow> mput name (a\<lparr>a_UID := uid, a_GID := uid\<rparr>) found)
      in decide_uids base names (uids', found', changed'))"

definition publish :: "'k store \<Rightarrow> (string, 'k account) gomap \<Rightarrow> string \<Rightarrow> (string, 'k account) gomap \<Rightarrow> (string, 'k account) gomap" where
  "publish s found name nxt =
     (case (mget (st_provisioned s) name, mget found name) of
        (Some (unix, home), Some a) \<Rightarrow> mput name (a\<lparr>a_Unix := unix, a_Home := home\<rparr>) nxt
      | _ \<Rightarrow> nxt)"

definition revoke :: "(string, 'k account) gomap \<Rightarrow> string \<times> 'k account \<Rightarrow> string \<times> 'k account" where
  "revoke found e =
     (if mget found (fst e) \<noteq> None \<or> a_Keys (snd e) = [] then e
      else (fst e, (snd e)\<lparr>a_Keys := [], a_Sources := []\<rparr>))"

definition reconcile ::
    "bool \<Rightarrow> (string, 'k account) gomap \<Rightarrow> (string \<times> string) list \<Rightarrow> (string, int) gomap \<Rightarrow>
     file_state \<times> 'k store \<Rightarrow> string list option \<times> file_state \<times> 'k store" where
  "reconcile disk found unusable uids w =
     (let (record, s) = w;
          names = sort (map fst found);
          (uids', found', changed) = decide_uids (st_UIDBase s) names (uids, found, False);
          (ok, record') = (if changed then saveUIDs disk uids' record else (True, record))
      in if \<not> ok then (None, record', s)
         else let todo = filter (\<lambda>n. mget (st_provisioned s) n = None \<and> mget (st_provisioning s) n = None) names;
                  provisioning = fold (\<lambda>n. mput n (case mget found' n of None \<Rightarrow> 0 | Some a \<Rightarrow> a_UID a)) todo (st_provisioning s);
                  nxt = fold (publish s found') names (st_accounts s)
              in (Some todo, record',
                  s\<lparr>st_provisioning := provisioning, st_accounts := map (revoke found') nxt, st_unusable := unusable\<rparr>))"

text \<open>The result of a sync is the accounts whose provisioning it started, or an error.\<close>

definition swap ::
    "'k ssh_lib \<Rightarrow> (nat \<Rightarrow> nat) \<Rightarrow> bool \<Rightarrow> view \<Rightarrow> file_state \<times> 'k store \<Rightarrow> string list option \<times> file_state \<times> 'k store" where
  "swap L other disk view w =
     (let (record, s) = w
      in case loadUIDs record of
           None \<Rightarrow> (None, w)
         | Some uids \<Rightarrow>
             (case read_dirs L other s view (dirs s) ([], []) of
                None \<Rightarrow> (None, w)
              | Some (found, unusable) \<Rightarrow>
                  reconcile disk (map (\<lambda>(n, a). (n, union_keys L a)) found) unusable uids w))"

section \<open>Provisioning\<close>

text \<open>The two locked steps that end an account's provisioning: its success is noted, which the sync that
  follows publishes, and then it is no longer under way.\<close>

definition provision_succeeded :: "string \<Rightarrow> string \<Rightarrow> string \<Rightarrow> 'k store \<Rightarrow> 'k store" where
  "provision_succeeded name unix home s = s\<lparr>st_provisioned := mput name (unix, home) (st_provisioned s)\<rparr>"

definition provision_finished :: "string \<Rightarrow> 'k store \<Rightarrow> 'k store" where
  "provision_finished name s = s\<lparr>st_provisioning := mdel name (st_provisioning s)\<rparr>"

text \<open>\<open>fileFor\<close>: the file of a directory that enrols an account, or that the directory cannot be read.\<close>

definition fileFor :: "(nat \<Rightarrow> nat) \<Rightarrow> 'k store \<Rightarrow> view \<Rightarrow> string \<Rightarrow> string \<Rightarrow> string option option" where
  "fileFor other s view dir name =
     (case keyFiles other (st_EnrolledDir s) dir (view_dir view dir) of
        None \<Rightarrow> None
      | Some files \<Rightarrow> Some (map_option f_file (find (\<lambda>f. f_account f = name) files)))"

definition releaseName ::
    "(nat \<Rightarrow> nat) \<Rightarrow> bool \<Rightarrow> view \<Rightarrow> string \<Rightarrow> file_state \<times> 'k store \<Rightarrow> file_state \<times> 'k store" where
  "releaseName other disk view name w =
     (let (record, s) = w
      in if mget (st_provisioned s) name \<noteq> None \<or> Lookup_account s name \<noteq> None \<or> mget (st_provisioning s) name \<noteq> None then w
         else if list_ex (\<lambda>dir. fileFor other s view dir name \<noteq> Some None) (dirs s) then w
         else case loadUIDs record of
                None \<Rightarrow> w
              | Some uids \<Rightarrow>
                  (case mget uids name of
                     None \<Rightarrow> w
                   | Some uid \<Rightarrow>
                       let uids' = mdel name uids;
                           spent = (case mget uids' releasedUIDs of None \<Rightarrow> 0 | Some u \<Rightarrow> u)
                       in (snd (saveUIDs disk (mput releasedUIDs (max spent uid) uids') record), s)))"

text \<open>The locked step of \<open>Purge\<close>: an account without keys is provisioned again if it comes back. The result
  is the account whose home and unix user are removed.\<close>

definition Purge :: "string \<Rightarrow> 'k store \<Rightarrow> 'k account option \<times> 'k store" where
  "Purge name s =
     (case Lookup_account s name of
        None \<Rightarrow> (None, s)
      | Some a \<Rightarrow> if a_Keys a = [] then (Some a, s\<lparr>st_provisioned := mdel name (st_provisioned s)\<rparr>) else (None, s))"

section \<open>Unix users\<close>

abbreviation DefaultPrefix :: string where
  "DefaultPrefix \<equiv> ''rd-''"

definition unixName :: "string \<Rightarrow> string \<Rightarrow> string" where
  "unixName px acc =
     (let room = int MaxAccountNameLength - int (length px)
      in if room < 1 then acc
         else px @ (if int (length acc) > room then take (nat room) acc else acc))"

datatype unix_action = createAccount | adoptAccount | refuseAccount

definition claim :: "string \<Rightarrow> string \<Rightarrow> string \<Rightarrow> unix_action" where
  "claim acc px holder =
     (if holder = '''' then createAccount
      else if holder = acc \<or> holder = unixName px acc then adoptAccount
      else refuseAccount)"

text \<open>The unix user to delete, none at all, or the refusal that names the uid and its holder.\<close>

definition removal :: "string \<Rightarrow> string \<Rightarrow> string \<Rightarrow> int \<Rightarrow> (int \<times> string) + string" where
  "removal acc px holder uid =
     (case claim acc px holder of
        createAccount \<Rightarrow> Inr ''''
      | adoptAccount \<Rightarrow> Inr holder
      | refuseAccount \<Rightarrow> Inl (uid, holder))"

lemma unixName_length: "length px < 30 \<Longrightarrow> length acc \<le> 30 \<Longrightarrow> length (unixName px acc) \<le> 30"
  by (auto simp: unixName_def MaxAccountNameLength_def Let_def)

lemma removal_own_only:
  "removal acc px holder uid = Inr user \<Longrightarrow> user \<noteq> '''' \<Longrightarrow> user = holder \<and> (holder = acc \<or> holder = unixName px acc)"
  by (auto simp: removal_def claim_def split: if_splits)

text \<open>Names that agree in what fits behind the prefix have one unix name; a uid of its own makes the second
  a user to create all the same.\<close>

lemma unixName_collides:
  "take 27 a = take 27 b \<Longrightarrow> length a > 27 \<Longrightarrow> length b > 27 \<Longrightarrow>
     unixName DefaultPrefix a = unixName DefaultPrefix b \<and> claim b DefaultPrefix '''' = createAccount"
  by (simp add: unixName_def claim_def MaxAccountNameLength_def)

section \<open>What a sync finds\<close>

definition file_source :: "'k ssh_lib \<Rightarrow> 'k store \<Rightarrow> string \<Rightarrow> directory \<Rightarrow> namedFile \<Rightarrow> 'k keySource option" where
  "file_source L s dir d f =
     (case parseKeys L (file_at d (f_file f)) of
        Inr (keys, comments, skipped) \<Rightarrow> Some \<lparr>s_Dir = dir, s_Keys = keys, s_Comments = comments\<rparr>
      | Inl e \<Rightarrow>
          (let src = source (mget (st_accounts s) (f_account f)) dir
           in if (dir, f_account f) \<in> set (st_unusable s) \<or> s_Keys src = [] then None else Some src))"

definition file_unusable :: "'k ssh_lib \<Rightarrow> directory \<Rightarrow> namedFile \<Rightarrow> bool" where
  "file_unusable L d f = (case parseKeys L (file_at d (f_file f)) of Inl e \<Rightarrow> True | Inr x \<Rightarrow> False)"

lemma read_key_file_alt:
  "read_key_file L s dir d f (found, unusable) =
     ((case file_source L s dir d f of None \<Rightarrow> found | Some src \<Rightarrow> add_source (f_account f) src found),
      if file_unusable L d f then (dir, f_account f) # unusable else unusable)"
  by (auto simp: read_key_file_def file_source_def file_unusable_def Let_def split: sum.splits prod.splits)

definition sources_in :: "(string, 'k account) gomap \<Rightarrow> string \<Rightarrow> 'k keySource list" where
  "sources_in found n = (case mget found n of None \<Rightarrow> [] | Some a \<Rightarrow> a_Sources a)"

text \<open>An account a sync has found so far has its name, and a source.\<close>

definition found_ok :: "(string, 'k account) gomap \<Rightarrow> bool" where
  "found_ok found \<longleftrightarrow> (\<forall>n a. mget found n = Some a \<longrightarrow>
     a_Sources a \<noteq> [] \<and> a_Name a = n)"

lemma sources_add [simp]: "sources_in (add_source m src found) n = sources_in found n @ (if n = m then [src] else [])"
  by (auto simp: sources_in_def add_source_def Let_def split: option.splits)

lemma found_ok_add: "found_ok found \<Longrightarrow> found_ok (add_source m src found)"
  by (auto simp: found_ok_def add_source_def Let_def split: option.splits if_splits)

lemma wfm_add_source: "wfm found \<Longrightarrow> wfm (add_source m src found)"
  by (simp add: add_source_def Let_def)

lemma found_names: "found_ok found \<Longrightarrow> mget found n = None \<longleftrightarrow> sources_in found n = []"
  by (auto simp: found_ok_def sources_in_def split: option.splits)

definition files_of :: "(nat \<Rightarrow> nat) \<Rightarrow> view \<Rightarrow> string \<Rightarrow> namedFile list" where
  "files_of other view dir = (case view_dir view dir of Dir d \<Rightarrow> keyFiles_in other d | _ \<Rightarrow> [])"

abbreviation entries_of :: "view \<Rightarrow> string \<Rightarrow> directory" where
  "entries_of view dir \<equiv> (case view_dir view dir of Dir d \<Rightarrow> d | _ \<Rightarrow> [])"

definition dir_sources :: "'k ssh_lib \<Rightarrow> (nat \<Rightarrow> nat) \<Rightarrow> 'k store \<Rightarrow> view \<Rightarrow> string \<Rightarrow> string \<Rightarrow> 'k keySource list" where
  "dir_sources L other s view dir n =
     concat (map (\<lambda>f. if f_account f = n then (case file_source L s dir (entries_of view dir) f of None \<Rightarrow> [] | Some src \<Rightarrow> [src]) else [])
       (files_of other view dir))"

definition reads_to ::
    "(string, 'k account) gomap \<times> (string \<times> string) list \<Rightarrow> (string, 'k account) gomap \<times> (string \<times> string) list \<Rightarrow>
     (string \<Rightarrow> 'k keySource list) \<Rightarrow> (string \<times> string) set \<Rightarrow> bool" where
  "reads_to acc acc' srcs bad \<longleftrightarrow>
     (\<forall>n. sources_in (fst acc') n = sources_in (fst acc) n @ srcs n) \<and>
     (found_ok (fst acc) \<longrightarrow> found_ok (fst acc')) \<and> (wfm (fst acc) \<longrightarrow> wfm (fst acc')) \<and>
     set (snd acc') = set (snd acc) \<union> bad"

lemma reads_to_refl: "reads_to acc acc (\<lambda>n. []) {}"
  by (simp add: reads_to_def)

lemma reads_to_trans:
  "reads_to acc acc1 srcs bad \<Longrightarrow> reads_to acc1 acc2 srcs' bad' \<Longrightarrow> reads_to acc acc2 (\<lambda>n. srcs n @ srcs' n) (bad \<union> bad')"
  by (auto simp: reads_to_def)

abbreviation file_adds :: "'k ssh_lib \<Rightarrow> 'k store \<Rightarrow> string \<Rightarrow> directory \<Rightarrow> string \<Rightarrow> namedFile \<Rightarrow> 'k keySource list" where
  "file_adds L s dir d n f \<equiv>
     (if f_account f = n then (case file_source L s dir d f of None \<Rightarrow> [] | Some src \<Rightarrow> [src]) else [])"

lemma read_key_file_reads:
  "reads_to acc (read_key_file L s dir d f acc) (\<lambda>n. file_adds L s dir d n f)
     (if file_unusable L d f then {(dir, f_account f)} else {})"
  by (cases acc) (auto simp: reads_to_def read_key_file_alt found_ok_add wfm_add_source split: option.splits)

lemma fold_reads:
  "reads_to acc (fold (read_key_file L s dir d) files acc) (\<lambda>n. concat (map (file_adds L s dir d n) files))
     {(dir, f_account f) |f. f \<in> set files \<and> file_unusable L d f}"
proof (induction files arbitrary: acc)
  case Nil
  then show ?case by (simp add: reads_to_def)
next
  case (Cons f files)
  have "{(dir, f_account g) |g. g \<in> set (f # files) \<and> file_unusable L d g} =
      (if file_unusable L d f then {(dir, f_account f)} else {}) \<union> {(dir, f_account g) |g. g \<in> set files \<and> file_unusable L d g}"
    by auto
  with reads_to_trans [OF read_key_file_reads Cons.IH] show ?case by simp
qed

lemma keyFiles_files: "keyFiles other enrolled dir (view_dir view dir) = Some files \<Longrightarrow> files = files_of other view dir"
  by (auto simp: keyFiles_def files_of_def split: dir_state.splits if_splits)

definition unusable_files :: "'k ssh_lib \<Rightarrow> (nat \<Rightarrow> nat) \<Rightarrow> view \<Rightarrow> string list \<Rightarrow> (string \<times> string) set" where
  "unusable_files L other view ds =
     {(dir, f_account f) |dir f. dir \<in> set ds \<and> f \<in> set (files_of other view dir) \<and> file_unusable L (entries_of view dir) f}"

lemma read_dirs_reads:
  "read_dirs L other s view ds acc = Some acc' \<Longrightarrow>
     reads_to acc acc' (\<lambda>n. concat (map (\<lambda>dir. dir_sources L other s view dir n) ds)) (unusable_files L other view ds)"
proof (induction ds arbitrary: acc)
  case Nil
  then show ?case by (simp add: reads_to_def unusable_files_def)
next
  case (Cons dir ds)
  let ?d = "entries_of view dir"
  let ?acc = "fold (read_key_file L s dir ?d) (files_of other view dir) acc"
  from Cons.prems have "read_dirs L other s view ds ?acc = Some acc'"
    using keyFiles_files [of other "st_EnrolledDir s" dir view] by (auto split: option.splits)
  from reads_to_trans [OF fold_reads Cons.IH [OF this]]
  have "reads_to acc acc' (\<lambda>n. concat (map (file_adds L s dir ?d n) (files_of other view dir)) @
        concat (map (\<lambda>dir. dir_sources L other s view dir n) ds))
      ({(dir, f_account f) |f. f \<in> set (files_of other view dir) \<and> file_unusable L ?d f} \<union> unusable_files L other view ds)" .
  moreover have "{(dir, f_account f) |f. f \<in> set (files_of other view dir) \<and> file_unusable L ?d f} \<union> unusable_files L other view ds
      = unusable_files L other view (dir # ds)"
    by (auto simp: unusable_files_def)
  ultimately show ?case by (simp add: dir_sources_def)
qed

section \<open>What a sync publishes\<close>

lemma mget_map_vals: "mget (map (\<lambda>(k, v). (k, g k v)) m) k = map_option (g k) (mget m k)"
  by (induction m) auto

lemma wfm_map_vals: "wfm (map (\<lambda>(k, v). (k, g k v)) m) = wfm m"
  by (simp add: wfm_def comp_def case_prod_beta)

text \<open>The accounts as found, with the uids the record has for them after the decision.\<close>

lemma decide_uids_found:
  assumes "decide_uids base names (uids, found, changed) = (uids', found', changed')" and "distinct names"
  shows "mget found' n =
      (if n \<in> set names then map_option (\<lambda>a. a\<lparr>a_UID := the (mget uids' n), a_GID := the (mget uids' n)\<rparr>) (mget found n)
       else mget found n) \<and>
    (mget uids n \<noteq> None \<longrightarrow> mget uids' n = mget uids n) \<and> (n \<in> set names \<longrightarrow> mget uids' n \<noteq> None) \<and>
    (mget uids n = None \<longrightarrow> n \<notin> set names \<longrightarrow> mget uids' n = None)"
  using assms
proof (induction names arbitrary: uids found changed)
  case Nil
  then show ?case by simp
next
  case (Cons m names)
  obtain uid uids1 changed1 where choice: "(case mget uids m of
               Some uid \<Rightarrow> (uid, uids, changed)
             | None \<Rightarrow> (let uid = nextUID uids base in (uid, mput m uid uids, True))) = (uid, uids1, changed1)"
    by (metis prod_cases3)
  let ?found = "case mget found m of None \<Rightarrow> found | Some a \<Rightarrow> mput m (a\<lparr>a_UID := uid, a_GID := uid\<rparr>) found"
  from Cons.prems choice have rest: "decide_uids base names (uids1, ?found, changed1) = (uids', found', changed')"
    and "m \<notin> set names" and "distinct names" by auto
  from choice have m: "mget uids1 m = Some uid" and old: "mget uids m \<noteq> None \<Longrightarrow> mget uids1 m = mget uids m"
    by (auto simp: Let_def split: option.splits)
  from choice have others: "k \<noteq> m \<Longrightarrow> mget uids1 k = mget uids k" for k
    by (auto simp: Let_def split: option.splits)
  note IH = Cons.IH [OF rest \<open>distinct names\<close>]
  show ?case
  proof (cases "n = m")
    case True
    with IH \<open>m \<notin> set names\<close> m old show ?thesis by (auto split: option.splits)
  next
    case False
    with IH others [OF False] show ?thesis by (auto split: option.splits)
  qed
qed

lemma fold_publish:
  "mget (fold (publish s found) names nxt) n =
     (if n \<in> set names
      then (case (mget (st_provisioned s) n, mget found n) of
              (Some (unix, home), Some a) \<Rightarrow> Some (a\<lparr>a_Unix := unix, a_Home := home\<rparr>)
            | _ \<Rightarrow> mget nxt n)
      else mget nxt n)"
  by (induction names arbitrary: nxt) (auto simp: publish_def split: option.splits)

lemma mget_revoke:
  "mget (map (revoke found) nxt) n =
     map_option (\<lambda>a. if mget found n \<noteq> None \<or> a_Keys a = [] then a else a\<lparr>a_Keys := [], a_Sources := []\<rparr>) (mget nxt n)"
proof -
  have "revoke found = (\<lambda>(k, a). (k, if mget found k \<noteq> None \<or> a_Keys a = [] then a else a\<lparr>a_Keys := [], a_Sources := []\<rparr>))"
    by (auto simp: revoke_def)
  then show ?thesis by (simp only: mget_map_vals)
qed

lemma dedup_set: "FingerprintSHA256 L ` set (dedup L ks seen) = FingerprintSHA256 L ` set ks - set seen"
  by (induction ks arbitrary: seen) (auto simp: Let_def)

lemma dedup_distinct: "distinct (map (FingerprintSHA256 L) (dedup L ks seen))"
proof (induction ks arbitrary: seen)
  case Nil
  then show ?case by simp
next
  case (Cons k ks)
  have "FingerprintSHA256 L k \<notin> set (map (FingerprintSHA256 L) (dedup L ks (FingerprintSHA256 L k # seen)))"
    using dedup_set [of L ks "FingerprintSHA256 L k # seen"] by auto
  with Cons show ?case by (simp add: Let_def)
qed

definition sources_read :: "'k ssh_lib \<Rightarrow> (nat \<Rightarrow> nat) \<Rightarrow> 'k store \<Rightarrow> view \<Rightarrow> string \<Rightarrow> 'k keySource list" where
  "sources_read L other s view n = concat (map (\<lambda>dir. dir_sources L other s view dir n) (dirs s))"

definition revoked :: "'k account \<Rightarrow> 'k account" where
  "revoked a = (if a_Keys a = [] then a else a\<lparr>a_Keys := [], a_Sources := []\<rparr>)"

text \<open>The account a sync publishes under a name.\<close>

definition synced_account ::
    "'k ssh_lib \<Rightarrow> 'k store \<Rightarrow> (string, int) gomap \<Rightarrow> string \<Rightarrow> 'k keySource list \<Rightarrow> 'k account option" where
  "synced_account L s uids n srcs =
     (if srcs = [] then map_option revoked (mget (st_accounts s) n)
      else case mget (st_provisioned s) n of
             None \<Rightarrow> mget (st_accounts s) n
           | Some (unix, home) \<Rightarrow>
               Some \<lparr>a_Name = n, a_UID = the (mget uids n), a_GID = the (mget uids n), a_Home = home,
                 a_Keys = dedup L (concat (map s_Keys srcs)) [], a_Sources = srcs, a_Unix = unix\<rparr>)"

definition synced_uid :: "'k store \<Rightarrow> (string, int) gomap \<Rightarrow> string \<Rightarrow> 'k keySource list \<Rightarrow> int option" where
  "synced_uid s uids n srcs =
     (if srcs \<noteq> [] \<and> mget (st_provisioned s) n = None \<and> mget (st_provisioning s) n = None
      then mget uids n else mget (st_provisioning s) n)"

lemma published_accounts:
  assumes "found_ok found0" and "\<And>n. sources_in found0 n = srcs n" and "\<And>n. n \<in> set names \<longleftrightarrow> srcs n \<noteq> []"
    and "\<And>n. mget found n = map_option (\<lambda>a. (union_keys L a)\<lparr>a_UID := the (mget uids n), a_GID := the (mget uids n)\<rparr>) (mget found0 n)"
  shows "mget (map (revoke found) (fold (publish s found) names (st_accounts s))) n = synced_account L s uids n (srcs n)"
proof (cases "mget found0 n")
  case None
  with found_names [OF assms(1), of n] assms(2) [of n] have "srcs n = []" by simp
  with None assms(3) [of n] show ?thesis
    by (simp add: mget_revoke fold_publish assms(4) synced_account_def) (simp add: revoked_def [abs_def] cong: map_option_cong)
next
  case (Some a)
  with assms(1) assms(2) [of n] have "a_Name a = n" and a: "a_Sources a = srcs n" "srcs n \<noteq> []"
    by (auto simp: found_ok_def sources_in_def)
  with Some assms(3) [of n] show ?thesis
    by (auto simp: mget_revoke fold_publish assms(4) union_keys_def synced_account_def a option.map_ident split: option.splits)
qed

lemma mget_fold_mput_fun: "mget (fold (\<lambda>n. mput n (g n)) ns m) k = (if k \<in> set ns then Some (g k) else mget m k)"
  by (induction ns arbitrary: m) auto

text \<open>A sync that succeeds: the record it leaves, what it published, and what it is provisioning.\<close>

definition sync_result ::
    "'k ssh_lib \<Rightarrow> (nat \<Rightarrow> nat) \<Rightarrow> view \<Rightarrow> 'k store \<Rightarrow> (string, int) gomap \<Rightarrow> (string, int) gomap \<Rightarrow> bool \<Rightarrow> 'k store \<Rightarrow> bool" where
  "sync_result L other view s uids uids' changed s' \<longleftrightarrow>
     (\<exists>found found'. decide_uids (st_UIDBase s) (sort (map fst found)) (uids, found :: (string, 'k account) gomap, False) = (uids', found', changed) \<and>
        wfm found \<and> (\<forall>n. mget found n = None \<longleftrightarrow> sources_read L other s view n = [])) \<and>
     (\<forall>n. mget (st_accounts s') n = synced_account L s uids' n (sources_read L other s view n)) \<and>
     (\<forall>n. mget (st_provisioning s') n = synced_uid s uids' n (sources_read L other s view n)) \<and>
     set (st_unusable s') = unusable_files L other view (dirs s) \<and> st_provisioned s' = st_provisioned s \<and>
     st_KeysDirs s' = st_KeysDirs s \<and> st_EnrolledDir s' = st_EnrolledDir s \<and> st_UIDBase s' = st_UIDBase s"

lemma sync_result_uids:
  assumes "sync_result L other view s uids uids' changed s'"
  shows "mget uids n \<noteq> None \<Longrightarrow> mget uids' n = mget uids n"
    and "sources_read L other s view n \<noteq> [] \<Longrightarrow> mget uids' n \<noteq> None"
    and "sources_read L other s view n = [] \<Longrightarrow> mget uids n = None \<Longrightarrow> mget uids' n = None"
proof -
  from assms obtain found found' :: "(string, 'a account) gomap" where
    dec: "decide_uids (st_UIDBase s) (sort (map fst found)) (uids, found, False) = (uids', found', changed)"
    and wf: "wfm found" and none: "\<forall>n. mget found n = None \<longleftrightarrow> sources_read L other s view n = []"
    unfolding sync_result_def by blast
  have "distinct (sort (map fst found))" using wf by (simp add: wfm_def)
  note decided = decide_uids_found [OF dec this, of n]
  have "n \<in> set (sort (map fst found)) \<longleftrightarrow> sources_read L other s view n \<noteq> []"
    using none mget_None_iff [of found n] by auto
  with decided show "mget uids n \<noteq> None \<Longrightarrow> mget uids' n = mget uids n"
    and "sources_read L other s view n \<noteq> [] \<Longrightarrow> mget uids' n \<noteq> None"
    and "sources_read L other s view n = [] \<Longrightarrow> mget uids n = None \<Longrightarrow> mget uids' n = None" by blast+
qed

lemma reconcile_result:
  assumes "reconcile disk found unusable uids (rcd, s) = (Some started, rcd', s')"
    and "decide_uids (st_UIDBase s) (sort (map fst found)) (uids, found, False) = (uids', found', changed)"
  shows "rcd' = (if changed then snd (saveUIDs disk uids' rcd) else rcd)"
    and "changed \<Longrightarrow> fst (saveUIDs disk uids' rcd)"
    and "started = filter (\<lambda>n. mget (st_provisioned s) n = None \<and> mget (st_provisioning s) n = None) (sort (map fst found))"
    and "s' = s\<lparr>st_provisioning := fold (\<lambda>n. mput n (case mget found' n of None \<Rightarrow> 0 | Some a \<Rightarrow> a_UID a)) started (st_provisioning s),
      st_accounts := map (revoke found') (fold (publish s found') (sort (map fst found)) (st_accounts s)), st_unusable := unusable\<rparr>"
  using assms unfolding reconcile_def Let_def prod.case assms(2)
  by (cases changed; cases "saveUIDs disk uids' rcd"; auto split: if_splits)+

lemma swap_result:
  assumes "swap L other disk view (rcd, s) = (Some started, rcd', s')"
  obtains uids uids' changed where "loadUIDs rcd = Some uids"
    and "rcd' = (if changed then snd (saveUIDs disk uids' rcd) else rcd)"
    and "changed \<Longrightarrow> fst (saveUIDs disk uids' rcd)" and "sync_result L other view s uids uids' changed s'"
proof -
  from assms obtain uids found0 unusable where load: "loadUIDs rcd = Some uids"
    and read: "read_dirs L other s view (dirs s) ([], []) = Some (found0, unusable)"
    and rec: "reconcile disk (map (\<lambda>(n, a). (n, union_keys L a)) found0) unusable uids (rcd, s) = (Some started, rcd', s')"
    by (auto simp: swap_def split: option.splits)
  let ?found = "map (\<lambda>(n, a). (n, union_keys L a)) found0"
  let ?names = "sort (map fst ?found)"
  let ?srcs = "sources_read L other s view"
  from read_dirs_reads [OF read] have ok: "found_ok found0" and wf: "wfm found0"
    and srcs: "\<And>n. sources_in found0 n = ?srcs n" and un: "set unusable = unusable_files L other view (dirs s)"
    by (auto simp: reads_to_def sources_read_def found_ok_def sources_in_def)
  have found: "mget ?found n = map_option (union_keys L) (mget found0 n)" for n
    by (rule mget_map_vals [of "\<lambda>_. union_keys L"])
  have wf': "wfm ?found" using wf by (simp add: wfm_map_vals [of "\<lambda>_. union_keys L"])
  have absent: "mget ?found n = None \<longleftrightarrow> ?srcs n = []" for n
    using found_names [OF ok, of n] srcs [of n] by (simp add: found)
  have names: "n \<in> set ?names \<longleftrightarrow> ?srcs n \<noteq> []" for n
    using absent [of n] unfolding mget_None_iff by (simp only: set_sort set_map) metis
  obtain uids' found' changed where dec: "decide_uids (st_UIDBase s) ?names (uids, ?found, False) = (uids', found', changed)"
    by (metis prod_cases3)
  have "distinct ?names" using wf' by (simp add: wfm_def)
  note decided = decide_uids_found [OF dec this]
  have found': "mget found' n = map_option (\<lambda>a. (union_keys L a)\<lparr>a_UID := the (mget uids' n), a_GID := the (mget uids' n)\<rparr>) (mget found0 n)" for n
    using decided [of n] names [of n] absent [of n] by (auto simp: found)
  note result = reconcile_result [OF rec dec]
  have uid: "mget found' n = None \<longleftrightarrow> ?srcs n = []" "mget found' n = Some a \<Longrightarrow> mget uids' n = Some (a_UID a)" for n a
    using absent [of n] decided [of n] names [of n] by (auto simp: found found')
  have "mget (st_provisioning s') n = synced_uid s uids' n (?srcs n)" for n
    using names [of n] uid [of n] by (auto simp: result(3,4) mget_fold_mput_fun synced_uid_def)
  moreover have "mget (st_accounts s') n = synced_account L s uids' n (?srcs n)" for n
    using published_accounts [OF ok srcs names found', of s n] by (simp add: result(4))
  ultimately have "sync_result L other view s uids uids' changed s'"
    unfolding sync_result_def
    by (intro conjI exI [of _ ?found] exI [of _ found'] allI dec wf' absent) (simp_all add: result(4) un)
  with that [OF load result(1,2)] show ?thesis by blast
qed

section \<open>Who may log in after a sync\<close>

definition enrols :: "'k ssh_lib \<Rightarrow> 'k store \<Rightarrow> string \<Rightarrow> directory \<Rightarrow> namedFile \<Rightarrow> 'k \<Rightarrow> bool" where
  "enrols L s dir d f key =
     (case parseKeys L (file_at d (f_file f)) of
        Inr (keys, comments, skipped) \<Rightarrow> FingerprintSHA256 L key \<in> FingerprintSHA256 L ` set keys
      | Inl e \<Rightarrow> (dir, f_account f) \<notin> set (st_unusable s) \<and>
          FingerprintSHA256 L key \<in> FingerprintSHA256 L ` set (s_Keys (source (Lookup_account s (f_account f)) dir)))"

lemma enrols_source:
  "enrols L s dir d f key \<longleftrightarrow>
     (\<exists>src. file_source L s dir d f = Some src \<and> FingerprintSHA256 L key \<in> FingerprintSHA256 L ` set (s_Keys src))"
  by (auto simp: enrols_def file_source_def Lookup_account_def Let_def split: sum.splits)

definition keyed_provisioned :: "'k store \<Rightarrow> bool" where
  "keyed_provisioned s \<longleftrightarrow> (\<forall>n a. Lookup_account s n = Some a \<longrightarrow> a_Keys a \<noteq> [] \<longrightarrow> mget (st_provisioned s) n \<noteq> None)"

lemma Authorized_iff: "Authorized L a key \<longleftrightarrow> FingerprintSHA256 L key \<in> FingerprintSHA256 L ` set (a_Keys a)"
  by (auto simp: Authorized_def list_ex_iff image_iff eq_commute)

lemma sources_read_mem:
  "src \<in> set (sources_read L other s view n) \<longleftrightarrow>
     (\<exists>dir \<in> set (dirs s). \<exists>f \<in> set (files_of other view dir). f_account f = n \<and> file_source L s dir (entries_of view dir) f = Some src)"
proof -
  have "src \<in> set (file_adds L s dir d n f) \<longleftrightarrow> f_account f = n \<and> file_source L s dir d f = Some src" for dir d f
    by (cases "f_account f = n"; cases "file_source L s dir d f") auto
  note one = this [unfolded if_distrib [of set]]
  show ?thesis
    unfolding sources_read_def dir_sources_def set_concat set_map image_image UN_iff if_distrib [of set] one by blast
qed

lemma sources_read_keys:
  "FingerprintSHA256 L key \<in> FingerprintSHA256 L ` set (concat (map s_Keys (sources_read L other s view n))) \<longleftrightarrow>
     (\<exists>dir \<in> set (dirs s). \<exists>f \<in> set (files_of other view dir). f_account f = n \<and> enrols L s dir (entries_of view dir) f key)"
proof -
  have "FingerprintSHA256 L key \<in> FingerprintSHA256 L ` set (concat (map s_Keys (sources_read L other s view n))) \<longleftrightarrow>
      (\<exists>src \<in> set (sources_read L other s view n). FingerprintSHA256 L key \<in> FingerprintSHA256 L ` set (s_Keys src))"
    by auto
  also have "\<dots> \<longleftrightarrow> (\<exists>dir \<in> set (dirs s). \<exists>f \<in> set (files_of other view dir). f_account f = n \<and>
      (\<exists>src. file_source L s dir (entries_of view dir) f = Some src \<and> FingerprintSHA256 L key \<in> FingerprintSHA256 L ` set (s_Keys src)))"
    by (simp only: Bex_def sources_read_mem) blast
  finally show ?thesis by (simp only: enrols_source)
qed

text \<open>The fingerprints of the keys that may log in as an account.\<close>

definition login_fps :: "'k ssh_lib \<Rightarrow> 'k store \<Rightarrow> string \<Rightarrow> string set" where
  "login_fps L s n = (case Lookup_account s n of None \<Rightarrow> {} | Some a \<Rightarrow> FingerprintSHA256 L ` set (a_Keys a))"

definition enrolled_fps :: "'k ssh_lib \<Rightarrow> (nat \<Rightarrow> nat) \<Rightarrow> 'k store \<Rightarrow> view \<Rightarrow> string \<Rightarrow> string set" where
  "enrolled_fps L other s view n = FingerprintSHA256 L ` set (concat (map s_Keys (sources_read L other s view n)))"

lemma login_fps_iff: "(\<exists>a. Lookup_account s n = Some a \<and> Authorized L a key) \<longleftrightarrow> FingerprintSHA256 L key \<in> login_fps L s n"
  by (auto simp: login_fps_def Authorized_iff split: option.splits)

lemma login_fps_synced:
  assumes "swap L other disk view (rcd, s) = (Some started, rcd', s')" and "keyed_provisioned s"
  shows "login_fps L s' n = (if mget (st_provisioned s) n = None then {} else enrolled_fps L other s view n)"
proof -
  let ?srcs = "sources_read L other s view n"
  from swap_result [OF assms(1)] obtain uids' where
    a: "Lookup_account s' n = synced_account L s uids' n ?srcs" unfolding sync_result_def Lookup_account_def by metis
  consider "?srcs = []" | "?srcs \<noteq> []" "mget (st_provisioned s) n = None"
    | unix home where "?srcs \<noteq> []" "mget (st_provisioned s) n = Some (unix, home)"
    by (cases "mget (st_provisioned s) n") auto
  then show ?thesis
  proof cases
    case 1
    with a show ?thesis by (auto simp: login_fps_def enrolled_fps_def synced_account_def revoked_def split: option.splits)
  next
    case 2
    with a have "Lookup_account s' n = Lookup_account s n" by (simp add: synced_account_def Lookup_account_def)
    moreover from 2(2) assms(2) have "Lookup_account s n = Some b \<Longrightarrow> a_Keys b = []" for b
      unfolding keyed_provisioned_def by fastforce
    ultimately show ?thesis using 2(2) by (auto simp: login_fps_def split: option.splits)
  next
    case 3
    with a dedup_set [of L "concat (map s_Keys ?srcs)" "[]"] show ?thesis
      by (simp add: login_fps_def enrolled_fps_def synced_account_def)
  qed
qed

text \<open>Claim C10. After a sync a key may log in as an account exactly when the account was provisioned and the file of
  some directory that enrols the account holds the key; a file that cannot be read counts with the
  keys it gave the account before, unless the last sync could not read it either.\<close>

theorem sync_authorizes_exactly:
  assumes "swap L other disk view (rcd, s) = (Some started, rcd', s')" and "keyed_provisioned s"
  shows "(\<exists>a. Lookup_account s' n = Some a \<and> Authorized L a key) \<longleftrightarrow>
    mget (st_provisioned s) n \<noteq> None \<and>
    (\<exists>dir \<in> set (dirs s). \<exists>f \<in> set (files_of other view dir). f_account f = n \<and> enrols L s dir (entries_of view dir) f key)"
  unfolding login_fps_iff login_fps_synced [OF assms] enrolled_fps_def
  using sources_read_keys [of L key other s view n] by simp

end
