(* ===== verification/Account_Uids.thy ===== *)
theory Account_Uids
  imports Account_Store
begin

text \<open>
  The uids of the accounts over the life of a workspace, and revocation.

  \<open>store_step\<close> is any locked step of the account store on its record of uids: a sync of whatever the
  directories held, the steps that end a provisioning, the release of a name, a purge, a restart of
  the agent. \<open>store_run\<close> collects every uid the record ever had for a name. The record reads back as it
  was written by the interpretation \<open>uid_lines\<close> of the locale of record lines (theory
  \<open>State_Records\<close>).

  The lemmas show that no uid is ever given to two names, that published accounts have the uid on
  record and were provisioned by this process before they had keys, and that a key file that
  becomes unusable takes its account's keys away at the second sync and not the first.
\<close>

section \<open>The record of the uids\<close>

definition uid_name :: "string \<Rightarrow> bool" where
  "uid_name n \<longleftrightarrow> account_shape n \<or> n = releasedUIDs"

definition uid_entry_ok :: "string \<times> int \<Rightarrow> bool" where
  "uid_entry_ok e \<longleftrightarrow> uid_name (fst e) \<and> in_int64 (snd e)"

lemma uid_name_chars:
  assumes "uid_name n"
  shows "list_all plain n" and "CHR '':'' \<notin> set n" and "n \<noteq> []" and "hd n \<noteq> CHR ''#''" and "length n \<le> 30"
proof -
  have "list_all plain n \<and> CHR '':'' \<notin> set n \<and> n \<noteq> [] \<and> hd n \<noteq> CHR ''#'' \<and> length n \<le> 30"
  proof (cases "n = releasedUIDs")
    case True
    then show ?thesis by (simp add: plain_def)
  next
    case False
    with assms have s: "account_shape n" by (simp add: uid_name_def)
    have "name_char c \<Longrightarrow> plain c \<and> c \<noteq> CHR '':''" for c by (auto simp: name_char_def plain_def)
    with s show ?thesis by (auto simp: account_shape_def list_all_iff)
  qed
  then show "list_all plain n" and "CHR '':'' \<notin> set n" and "n \<noteq> []" and "hd n \<noteq> CHR ''#''" and "length n \<le> 30"
    by auto
qed

interpretation uid_lines: line_record uid_line parse_uid_line uid_entry_ok
proof
  fix e :: "string \<times> int"
  assume ok: "uid_entry_ok e"
  then have n: "uid_name (fst e)" and u: "in_int64 (snd e)" by (simp_all add: uid_entry_ok_def)
  note c = uid_name_chars [OF n]
  show "record_line (uid_line e)"
  proof (rule record_line_plain)
    show "list_all plain (uid_line e)"
      using c(1) Itoa_plain [of "snd e"] by (auto simp: uid_line_def plain_def list_all_iff)
    show "uid_line e \<noteq> []" by (simp add: uid_line_def)
    show "hd (uid_line e) \<noteq> CHR ''#''" using c(3,4) by (simp add: uid_line_def)
    show "length (uid_line e) < max_token"
      using c(5) Itoa_length [OF u] by (simp add: uid_line_def max_token_def)
  qed
  have "Cut CHR '':'' (uid_line e) = Some (fst e, Itoa (snd e))"
    using c(2) by (simp add: uid_line_def)
  then show "parse_uid_line (uid_line e) = Some e"
    using c(1) Itoa_plain [of "snd e"] u by (simp add: parse_uid_line_def Atoi_Itoa)
qed

text \<open>The record as the agent writes it reads back as the uids it was written from.\<close>

definition uids_ok :: "(string, int) gomap \<Rightarrow> bool" where
  "uids_ok uids \<longleftrightarrow> wfm uids \<and> (\<forall>n u. mget uids n = Some u \<longrightarrow> uid_entry_ok (n, u))"

definition sorted_uids :: "(string, int) gomap \<Rightarrow> (string, int) gomap" where
  "sorted_uids uids = map (\<lambda>n. (n, the (mget uids n))) (sort (map fst uids))"

lemma sorted_uids_facts:
  assumes "uids_ok uids"
  shows "set (sorted_uids uids) = set uids" and "wfm (sorted_uids uids)" and "list_all uid_entry_ok (sorted_uids uids)"
proof -
  have wf: "wfm uids" using assms by (simp add: uids_ok_def)
  then have "(n, the (mget uids n)) = e" if "e \<in> set uids" "n = fst e" for n e
    using that mget_set [OF wf, of "fst e" "snd e"] by (cases e) auto
  then have "(\<lambda>e. (fst e, the (mget uids (fst e)))) ` set uids = (\<lambda>e. e) ` set uids"
    by (intro image_cong) auto
  then show s: "set (sorted_uids uids) = set uids" by (simp add: sorted_uids_def image_image)
  show "wfm (sorted_uids uids)" using wf by (simp add: sorted_uids_def wfm_def comp_def)
  show "list_all uid_entry_ok (sorted_uids uids)"
    using assms mget_set [OF wf] by (auto simp: list_all_iff s uids_ok_def)
qed

lemma saveUIDs_lines:
  assumes "uids_ok uids"
  shows "saveUIDs disk uids record = WriteRecord disk (map uid_line (sorted_uids uids)) record"
proof -
  have "map (\<lambda>name. uid_line (name, case mget uids name of None \<Rightarrow> 0 | Some uid \<Rightarrow> uid)) (sort (map fst uids)) = map uid_line (sorted_uids uids)"
    unfolding sorted_uids_def map_map
    by (rule map_cong [OF refl]) (auto simp: dest: weak_map_of_SomeI)
  then show ?thesis by (simp only: saveUIDs_def)
qed

lemma fold_mput_list: "distinct (map fst (m @ es)) \<Longrightarrow> fold (\<lambda>(name, uid). mput name uid) es m = m @ es"
proof (induction es arbitrary: m)
  case Nil
  then show ?case by simp
next
  case (Cons e es)
  have "mget m (fst e) = None" using Cons.prems by (auto simp: mget_None_iff)
  then have "(\<lambda>(name, uid). mput name uid) e m = m @ [e]"
    by (cases e) (simp add: mput_fresh)
  with Cons.IH [of "m @ [e]"] Cons.prems show ?case by simp
qed

lemma load_save:
  assumes "uids_ok uids"
  shows "loadUIDs (snd (saveUIDs True uids record)) = Some (sorted_uids uids)"
proof -
  note facts = sorted_uids_facts [OF assms]
  have "(\<lambda>line uids. case parse_uid_line line of None \<Rightarrow> uids | Some (name, uid) \<Rightarrow> mput name uid uids) =
      (\<lambda>l s. case parse_uid_line l of None \<Rightarrow> s | Some e \<Rightarrow> (\<lambda>(name, uid). mput name uid) e s)"
    by (intro ext) (simp split: option.splits)
  then have "loadUIDs (snd (saveUIDs True uids record)) = Some (fold (\<lambda>(name, uid). mput name uid) (sorted_uids uids) [])"
    unfolding loadUIDs_def saveUIDs_lines [OF assms] by (simp only: uid_lines.read_back [OF facts(3)]) simp
  with facts(2) show ?thesis by (simp add: fold_mput_list wfm_def)
qed

section \<open>Handing out uids\<close>

definition highest :: "int \<Rightarrow> (string, int) gomap \<Rightarrow> int" where
  "highest base uids = fold (\<lambda>(name, uid) h. max h uid) uids (int64 (base - 1))"

lemma nextUID_highest: "nextUID uids base = int64 (highest base uids + 1)"
  by (simp add: nextUID_def highest_def)

lemma fold_max: "fold (\<lambda>(name, uid) h. max h uid) uids h = Max (insert h (snd ` set uids))"
proof (induction uids arbitrary: h)
  case Nil
  then show ?case by simp
next
  case (Cons e uids)
  have "Max (insert (max h (snd e)) (snd ` set uids)) = Max (insert h (insert (snd e) (snd ` set uids)))"
    by (cases "snd ` set uids = {}") (simp_all add: max.assoc)
  with Cons show ?case by (cases e) (simp add: insert_commute)
qed

lemma highest_Max: "highest base uids = Max (insert (int64 (base - 1)) (snd ` set uids))"
  by (simp add: highest_def fold_max)

lemma highest_ge: "mget uids n = Some u \<Longrightarrow> u \<le> highest base uids"
  unfolding highest_Max using mget_in_vals [of uids n u] by (intro Max_ge) auto

lemma highest_cong: "set uids = set uids' \<Longrightarrow> highest base uids = highest base uids'"
  by (simp add: highest_Max)

lemma highest_in_int64:
  assumes "uids_ok uids"
  shows "in_int64 (highest base uids)"
proof -
  have "highest base uids \<in> insert (int64 (base - 1)) (snd ` set uids)"
    unfolding highest_Max by (intro Max_in) auto
  moreover have "in_int64 u" if "u \<in> snd ` set uids" for u
  proof -
    from that obtain n where "(n, u) \<in> set uids" by auto
    with assms show ?thesis using mget_set [of uids n u] by (auto simp: uids_ok_def uid_entry_ok_def)
  qed
  ultimately show ?thesis using int64_range [of "base - 1"] by auto
qed

lemma highest_mput:
  assumes "wfm uids" and "mget uids n = None"
  shows "highest base (mput n u uids) = max (highest base uids) u"
proof -
  have "snd ` set (mput n u uids) = insert u (snd ` set uids)" using assms by (simp add: mput_fresh)
  then show ?thesis unfolding highest_Max by (simp add: Max_insert insert_commute max.commute)
qed

lemma decide_uids_keeps:
  "decide_uids base names (uids, found, changed) = (uids', found', changed') \<Longrightarrow> mget uids n = Some u \<Longrightarrow> mget uids' n = Some u"
proof (induction names arbitrary: uids found changed)
  case Nil
  then show ?case by simp
next
  case (Cons m names)
  show ?case
  proof (cases "mget uids m")
    case None
    with Cons.prems(2) have "mget (mput m (nextUID uids base) uids) n = Some u" by auto
    with None Cons.prems(1) Cons.IH show ?thesis by (simp add: Let_def)
  next
    case (Some v)
    with Cons.prems Cons.IH show ?thesis by (simp add: Let_def)
  qed
qed

text \<open>What the decision adds to the record: uids above every other, and different ones.\<close>

lemma decide_uids_fresh:
  assumes "decide_uids base names (uids, found, changed) = (uids', found', changed')"
    and "uids_ok uids" and "\<forall>n \<in> set names. account_shape n"
  shows "uids_ok uids' \<and> highest base uids \<le> highest base uids' \<and> (\<not> changed' \<longrightarrow> \<not> changed \<and> uids' = uids) \<and>
    (highest base uids' < 2 ^ 63 - 1 \<longrightarrow>
       (\<forall>n u. mget uids n = None \<longrightarrow> mget uids' n = Some u \<longrightarrow> highest base uids < u) \<and>
       (\<forall>n n' u. mget uids n = None \<longrightarrow> mget uids' n = Some u \<longrightarrow> mget uids n' = None \<longrightarrow> mget uids' n' = Some u \<longrightarrow> n = n'))"
  using assms
proof (induction names arbitrary: uids found changed)
  case Nil
  then show ?case by auto
next
  case (Cons m names)
  show ?case
  proof (cases "mget uids m")
    case (Some uid)
    with Cons.prems(1) obtain found1 where "decide_uids base names (uids, found1, changed) = (uids', found', changed')"
      by (auto simp: Let_def)
    from Cons.IH [OF this Cons.prems(2)] Cons.prems(3) show ?thesis by simp
  next
    case None
    let ?u = "nextUID uids base"
    let ?uids = "mput m ?u uids"
    from None Cons.prems(1) obtain found1 where rest: "decide_uids base names (?uids, found1, True) = (uids', found', changed')"
      by (auto simp: Let_def)
    have wf: "wfm uids" using Cons.prems(2) by (simp add: uids_ok_def)
    have ok: "uids_ok ?uids"
    proof -
      have "uid_entry_ok (m, ?u)"
        using Cons.prems(3) int64_range by (simp add: uid_entry_ok_def uid_name_def nextUID_def)
      with Cons.prems(2) wf show ?thesis by (simp add: uids_ok_def)
    qed
    have top: "highest base ?uids = max (highest base uids) ?u" by (rule highest_mput [OF wf None])
    have "\<forall>n \<in> set names. account_shape n" using Cons.prems(3) by simp
    note all = Cons.IH [OF rest ok this]
    then have IH: "uids_ok uids'" "highest base ?uids \<le> highest base uids'" "changed'"
      and new: "\<And>n u. highest base uids' < 2 ^ 63 - 1 \<Longrightarrow> mget ?uids n = None \<Longrightarrow> mget uids' n = Some u \<Longrightarrow> highest base ?uids < u"
      and apart: "\<And>n n' u. highest base uids' < 2 ^ 63 - 1 \<Longrightarrow> mget ?uids n = None \<Longrightarrow> mget uids' n = Some u \<Longrightarrow>
         mget ?uids n' = None \<Longrightarrow> mget uids' n' = Some u \<Longrightarrow> n = n'"
      by blast+
    have kept: "mget uids' m = Some ?u"
      using decide_uids_keeps [OF rest, of m] by simp
    have bound: "?u = highest base uids + 1" if "highest base uids' < 2 ^ 63 - 1"
    proof -
      from that IH(2) top have "highest base uids < 2 ^ 63 - 1" by simp
      with highest_in_int64 [OF Cons.prems(2), of base] have "in_int64 (highest base uids + 1)" by (simp add: in_int64_def)
      then show ?thesis by (simp add: nextUID_highest)
    qed
    show ?thesis
    proof (intro conjI impI allI)
      show "uids_ok uids'" "highest base uids \<le> highest base uids'" using IH top by auto
      show "\<not> changed" "uids' = uids" if "\<not> changed'" using that IH(3) by blast+
      fix n u
      assume b: "highest base uids' < 2 ^ 63 - 1" and n: "mget uids n = None" "mget uids' n = Some u"
      show "highest base uids < u"
        using new [OF b, of n u] n top bound [OF b] kept by (cases "n = m") auto
      fix n'
      assume n': "mget uids n' = None" "mget uids' n' = Some u"
      show "n = n'"
        using new [OF b, of n u] new [OF b, of n' u] apart [OF b, of n u n'] n n' top bound [OF b] kept
        by (cases "n = m"; cases "n' = m") auto
    qed
  qed
qed

section \<open>The steps of the store\<close>

text \<open>The locked steps of the store and of its record, in any order: syncs of whatever the directories
  held, the two that end a provisioning, the release of a name, the start of a purge, and a restart
  of the agent.\<close>

type_synonym 'k world = "file_state \<times> 'k store"

inductive store_step :: "'k ssh_lib \<Rightarrow> (nat \<Rightarrow> nat) \<Rightarrow> 'k world \<Rightarrow> 'k world \<Rightarrow> bool" for L other where
  step_sync: "store_step L other w (snd (swap L other disk view w))"
| step_succeeded:
    "mget (st_provisioning s) name \<noteq> None \<Longrightarrow> store_step L other (rcd, s) (rcd, provision_succeeded name unix home s)"
| step_finished: "store_step L other (rcd, s) (rcd, provision_finished name s)"
| step_release: "account_shape name \<Longrightarrow> store_step L other w (releaseName other disk view name w)"
| step_purge: "store_step L other (rcd, s) (rcd, snd (Purge name s))"
| step_restart: "store_step L other (rcd, s) (rcd, New keysDirs enrolled (st_UIDBase s))"

text \<open>The names with the uids the record has for them, and all it has ever had in a run.\<close>

definition recorded :: "file_state \<Rightarrow> (string \<times> int) set" where
  "recorded rcd = {(n, u). n \<noteq> releasedUIDs \<and> (\<exists>uids. loadUIDs rcd = Some uids \<and> mget uids n = Some u)}"

inductive store_run :: "'k ssh_lib \<Rightarrow> (nat \<Rightarrow> nat) \<Rightarrow> 'k world \<Rightarrow> (string \<times> int) set \<Rightarrow> 'k world \<Rightarrow> bool" for L other w0 where
  run_start: "store_run L other w0 (recorded (fst w0)) w0"
| run_step: "store_run L other w0 H w \<Longrightarrow> store_step L other w w' \<Longrightarrow> store_run L other w0 (H \<union> recorded (fst w')) w'"

text \<open>A failed sync changes nothing.\<close>

lemma swap_None: "swap L other disk view w = (None, w') \<Longrightarrow> w' = w"
  by (cases w)
    (auto simp: swap_def reconcile_def saveUIDs_def WriteRecord_def Let_def split: option.splits prod.splits if_splits)

definition record_is :: "file_state \<Rightarrow> (string, int) gomap \<Rightarrow> bool" where
  "record_is rcd uids \<longleftrightarrow> uids_ok uids \<and> loadUIDs rcd = Some uids"

lemma recorded_is: "record_is rcd uids \<Longrightarrow> (n, u) \<in> recorded rcd \<longleftrightarrow> n \<noteq> releasedUIDs \<and> mget uids n = Some u"
  by (auto simp: recorded_def record_is_def)

lemma saved_record:
  assumes "uids_ok uids"
  shows "record_is (snd (saveUIDs True uids rcd)) (sorted_uids uids)"
  using load_save [OF assms, of rcd] sorted_uids_facts [OF assms]
  by (auto simp: record_is_def uids_ok_def list_all_iff) (metis mget_set)

lemma sorted_uids_same:
  assumes "uids_ok uids"
  shows "mget (sorted_uids uids) n = mget uids n" and "highest base (sorted_uids uids) = highest base uids"
proof -
  note f = sorted_uids_facts [OF assms]
  show "mget (sorted_uids uids) n = mget uids n"
    using assms by (intro mget_cong_set f) (simp add: uids_ok_def)
  show "highest base (sorted_uids uids) = highest base uids" by (rule highest_cong) (rule f)
qed

lemma sources_read_shape: "sources_read L other s view n \<noteq> [] \<Longrightarrow> account_shape n"
proof -
  assume "sources_read L other s view n \<noteq> []"
  then obtain src where "src \<in> set (sources_read L other s view n)" by (cases "sources_read L other s view n") auto
  then obtain dir f where f: "f \<in> set (files_of other view dir)" "f_account f = n"
    unfolding sources_read_mem by blast
  then obtain d where "f \<in> set (keyFiles_in other d)" by (auto simp: files_of_def split: dir_state.splits)
  then have "account_of other (f_file f) = Some n" using keyFiles_in_first f(2) by blast
  then show ?thesis by (rule AccountName_shape)
qed

text \<open>A successful sync, on a record as the agent writes it: the uids it decided are those on record after it.\<close>

lemma swap_saved:
  assumes "swap L other disk view (rcd, s :: 'k store) = (Some started, rcd', s')" and "record_is rcd uids"
  obtains uids1 uids' changed found found' where "sync_result L other view s uids uids1 changed s'"
    and "decide_uids (st_UIDBase s) (sort (map fst found)) (uids, found :: (string, 'k account) gomap, False) = (uids1, found', changed)"
    and "\<forall>n \<in> set (sort (map fst found)). account_shape n"
    and "record_is rcd' uids'" and "\<And>n. mget uids' n = mget uids1 n" and "highest (st_UIDBase s) uids' = highest (st_UIDBase s) uids1"
proof -
  let ?b = "st_UIDBase s"
  from assms(2) have ok: "uids_ok uids" and load: "loadUIDs rcd = Some uids" by (auto simp: record_is_def)
  from swap_result [OF assms(1)] load obtain uids1 changed where
    rcd': "rcd' = (if changed then snd (saveUIDs disk uids1 rcd) else rcd)"
    and disk: "changed \<Longrightarrow> fst (saveUIDs disk uids1 rcd)"
    and result: "sync_result L other view s uids uids1 changed s'" by (metis option.inject)
  from result obtain found found' :: "(string, 'k account) gomap" where
    dec: "decide_uids ?b (sort (map fst found)) (uids, found, False) = (uids1, found', changed)"
    and none: "\<And>n. mget found n = None \<longleftrightarrow> sources_read L other s view n = []"
    unfolding sync_result_def by blast
  have shape: "\<forall>n \<in> set (sort (map fst found)). account_shape n"
  proof
    fix n
    assume "n \<in> set (sort (map fst found))"
    then have "mget found n \<noteq> None" using mget_None_iff [of found n] by auto
    then have "sources_read L other s view n \<noteq> []" using none [of n] by simp
    then show "account_shape n" by (rule sources_read_shape)
  qed
  note fresh = decide_uids_fresh [OF dec ok shape]
  then have ok1: "uids_ok uids1" by blast
  obtain uids' where rcd'_is: "record_is rcd' uids'" and same: "\<And>n. mget uids' n = mget uids1 n"
    and top: "highest ?b uids' = highest ?b uids1"
  proof (cases changed)
    case True
    with disk have disk by (cases disk) (auto simp: saveUIDs_def WriteRecord_def)
    with True rcd' show ?thesis
      using that [of "sorted_uids uids1"] saved_record [OF ok1, of rcd] sorted_uids_same [OF ok1] by simp
  next
    case False
    with fresh rcd' assms(2) show ?thesis by (intro that [of uids]) auto
  qed
  show ?thesis by (rule that [OF result dec shape rcd'_is same top])
qed

lemma swap_record:
  assumes "swap L other disk view (rcd, s :: 'k store) = (Some started, rcd', s')" and "record_is rcd uids"
  obtains uids' where "record_is rcd' uids'" and "\<And>n u. mget uids n = Some u \<Longrightarrow> mget uids' n = Some u"
    and "\<And>n. sources_read L other s view n \<noteq> [] \<Longrightarrow> mget uids' n \<noteq> None"
    and "\<And>n. mget (st_accounts s') n = synced_account L s uids' n (sources_read L other s view n)"
    and "\<And>n. mget (st_provisioning s') n = synced_uid s uids' n (sources_read L other s view n)"
    and "highest (st_UIDBase s) uids \<le> highest (st_UIDBase s) uids'"
    and "\<And>n u. highest (st_UIDBase s) uids' < 2 ^ 63 - 1 \<Longrightarrow> mget uids n = None \<Longrightarrow> mget uids' n = Some u \<Longrightarrow> highest (st_UIDBase s) uids < u"
    and "\<And>n n' u. highest (st_UIDBase s) uids' < 2 ^ 63 - 1 \<Longrightarrow> mget uids n = None \<Longrightarrow> mget uids' n = Some u \<Longrightarrow>
           mget uids n' = None \<Longrightarrow> mget uids' n' = Some u \<Longrightarrow> n = n'"
    and "st_provisioned s' = st_provisioned s" and "st_UIDBase s' = st_UIDBase s"
  using assms
proof (rule swap_saved)
  let ?b = "st_UIDBase s"
  fix uids1 uids' changed and found found' :: "(string, 'k account) gomap"
  assume result: "sync_result L other view s uids uids1 changed s'"
    and dec: "decide_uids ?b (sort (map fst found)) (uids, found, False) = (uids1, found', changed)"
    and shape: "\<forall>n \<in> set (sort (map fst found)). account_shape n"
    and rcd'_is: "record_is rcd' uids'" and same: "\<And>n. mget uids' n = mget uids1 n" and top: "highest ?b uids' = highest ?b uids1"
  have ok: "uids_ok uids" using assms(2) by (simp add: record_is_def)
  note fresh = decide_uids_fresh [OF dec ok shape]
  have up: "mget uids n = Some u \<Longrightarrow> mget uids1 n = Some u" for n u by (rule decide_uids_keeps [OF dec])
  have alike: "synced_account L s uids' n srcs = synced_account L s uids1 n srcs"
    "synced_uid s uids' n srcs = synced_uid s uids1 n srcs" for n srcs
    by (auto simp: synced_account_def synced_uid_def same split: option.splits)
  show ?thesis
  proof (rule that [OF rcd'_is])
    show "mget uids' n = Some u" if "mget uids n = Some u" for n u using up [OF that] same by simp
    show "mget uids' n \<noteq> None" if "sources_read L other s view n \<noteq> []" for n
      using sync_result_uids(2) [OF result that] same by simp
    show "mget (st_accounts s') n = synced_account L s uids' n (sources_read L other s view n)"
      "mget (st_provisioning s') n = synced_uid s uids' n (sources_read L other s view n)" for n
      using result alike unfolding sync_result_def by metis+
    show "highest ?b uids \<le> highest ?b uids'" using fresh top by simp
    show "highest ?b uids < u" if "highest ?b uids' < 2 ^ 63 - 1" "mget uids n = None" "mget uids' n = Some u" for n u
      using fresh that top same by simp
    show "n = n'" if "highest ?b uids' < 2 ^ 63 - 1" "mget uids n = None" "mget uids' n = Some u" "mget uids n' = None"
        "mget uids' n' = Some u" for n n' u
      using fresh that top same by simp
    show "st_provisioned s' = st_provisioned s" "st_UIDBase s' = st_UIDBase s" using result by (simp_all add: sync_result_def)
  qed
qed

text \<open>A name on record stays there, and one that no directory enrols does not come there.\<close>

lemma swap_record_names:
  assumes "swap L other disk view (rcd, s :: 'k store) = (Some started, rcd', s')" and "record_is rcd uids"
  shows "\<exists>uids'. record_is rcd' uids' \<and> (\<forall>n. mget uids n \<noteq> None \<longrightarrow> mget uids' n = mget uids n) \<and>
    (\<forall>n. sources_read L other s view n = [] \<longrightarrow> mget uids n = None \<longrightarrow> mget uids' n = None)"
  using assms
proof (rule swap_saved)
  fix uids1 uids' changed
  assume result: "sync_result L other view s uids uids1 changed s'"
    and rcd'_is: "record_is rcd' uids'" and same: "\<And>n. mget uids' n = mget uids1 n"
  from rcd'_is sync_result_uids(1,3) [OF result] show ?thesis by (intro exI [of _ uids']) (simp add: same)
qed

lemma highest_mono:
  assumes "wfm uids" and "\<And>n u. mget uids n = Some u \<Longrightarrow> \<exists>n' u'. mget uids' n' = Some u' \<and> u \<le> u'"
  shows "highest base uids \<le> highest base uids'"
proof -
  have "v \<le> highest base uids'" if v: "v \<in> insert (int64 (base - 1)) (snd ` set uids)" for v
  proof (cases "v = int64 (base - 1)")
    case True
    then show ?thesis unfolding highest_Max by (intro Max_ge) auto
  next
    case False
    with v obtain n where "(n, v) \<in> set uids" by auto
    then have "mget uids n = Some v" using mget_set [OF assms(1)] by blast
    with assms(2) highest_ge [of uids' _ _ base] show ?thesis by fastforce
  qed
  then show ?thesis unfolding highest_Max [of base uids] by (intro Max.boundedI) auto
qed

text \<open>Releasing a name keeps its uid spent.\<close>

lemma release_record:
  assumes "releaseName other disk view name (rcd, s) = (rcd', s')" and "record_is rcd uids" and "account_shape name"
  shows "s' = s \<and> (rcd' = rcd \<or>
    (Lookup_account s name = None \<and> mget (st_provisioning s) name = None \<and> mget (st_provisioned s) name = None \<and>
     (\<exists>uids'. record_is rcd' uids' \<and> highest base uids \<le> highest base uids' \<and>
       (\<forall>n. n \<noteq> name \<longrightarrow> n \<noteq> releasedUIDs \<longrightarrow> mget uids' n = mget uids n) \<and> mget uids' name = None)))"
proof -
  from assms(2) have ok: "uids_ok uids" and load: "loadUIDs rcd = Some uids" by (auto simp: record_is_def)
  have ne: "name \<noteq> releasedUIDs" using assms(3) by (auto simp: account_shape_def)
  show ?thesis
  proof (cases "rcd' = rcd")
    case True
    with assms(1) show ?thesis by (auto simp: releaseName_def Let_def split: if_splits option.splits)
  next
    case False
    then have free: "Lookup_account s name = None" "mget (st_provisioning s) name = None" "mget (st_provisioned s) name = None"
      and idle: "\<not> list_ex (\<lambda>dir. fileFor other s view dir name \<noteq> Some None) (dirs s)"
      using assms(1) by (cases "mget (st_provisioned s) name"; auto simp: releaseName_def Let_def split: if_splits)+
    with False assms(1) load obtain uid where uid: "mget uids name = Some uid" and s': "s' = s"
      and rcd': "rcd' = snd (saveUIDs disk (mput releasedUIDs (max (case mget (mdel name uids) releasedUIDs of None \<Rightarrow> 0 | Some u \<Rightarrow> u) uid) (mdel name uids)) rcd)"
      by (cases "mget uids name") (simp_all add: releaseName_def Let_def)
    let ?spent = "max (case mget (mdel name uids) releasedUIDs of None \<Rightarrow> 0 | Some u \<Rightarrow> u) uid"
    let ?uids = "mput releasedUIDs ?spent (mdel name uids)"
    have disk: disk using False rcd' by (cases disk) (auto simp: saveUIDs_def WriteRecord_def)
    have wf: "wfm uids" using ok by (simp add: uids_ok_def)
    have "in_int64 u" if "mget uids n = Some u" for n u using ok that by (auto simp: uids_ok_def uid_entry_ok_def)
    then have "in_int64 ?spent" using uid by (auto simp: max_def in_int64_def split: option.splits)
    then have ok': "uids_ok ?uids" using ok by (auto simp: uids_ok_def uid_entry_ok_def uid_name_def)
    have "\<exists>n' u'. mget ?uids n' = Some u' \<and> u \<le> u'" if "mget uids n = Some u" for n u
    proof (cases "n = name \<or> n = releasedUIDs")
      case True
      with that uid ne have "u \<le> ?spent" by auto
      then show ?thesis by (intro exI [of _ releasedUIDs]) simp
    next
      case False
      with that show ?thesis by (intro exI [of _ n]) simp
    qed
    then have "highest base uids \<le> highest base ?uids" by (rule highest_mono [OF wf])
    moreover have "record_is rcd' (sorted_uids ?uids)" using saved_record [OF ok', of rcd] rcd' disk by simp
    ultimately show ?thesis
      using free s' ne sorted_uids_same [OF ok'] by (intro conjI disjI2 exI [of _ "sorted_uids ?uids"]) auto
  qed
qed

section \<open>The invariant of the store\<close>

text \<open>No two names ever had one uid, every uid ever given out is below the next, a published account and
  one being provisioned have the uid on record for their name, and an account with keys was
  provisioned by this process.\<close>

definition uids_spent :: "(string \<times> int) set \<Rightarrow> int \<Rightarrow> (string, int) gomap \<Rightarrow> bool" where
  "uids_spent H base uids \<longleftrightarrow>
     (\<forall>n u. n \<noteq> releasedUIDs \<longrightarrow> mget uids n = Some u \<longrightarrow> (n, u) \<in> H) \<and>
     (\<forall>n u. (n, u) \<in> H \<longrightarrow> u \<le> highest base uids) \<and>
     (\<forall>n n' u. (n, u) \<in> H \<longrightarrow> (n', u) \<in> H \<longrightarrow> n = n')"

definition published_ok :: "(string, int) gomap \<Rightarrow> 'k store \<Rightarrow> bool" where
  "published_ok uids s \<longleftrightarrow>
     (\<forall>n a. Lookup_account s n = Some a \<longrightarrow>
        account_shape n \<and> mget uids n = Some (a_UID a) \<and> a_GID a = a_UID a \<and> a_Name a = n) \<and>
     (\<forall>n u. mget (st_provisioning s) n = Some u \<longrightarrow> account_shape n \<and> mget uids n = Some u) \<and> keyed_provisioned s"

lemma uids_spent_grow:
  assumes "uids_spent H base uids" and "\<And>n u. mget uids n = Some u \<Longrightarrow> mget uids' n = Some u"
    and "highest base uids \<le> highest base uids'"
    and "\<And>n u. mget uids n = None \<Longrightarrow> mget uids' n = Some u \<Longrightarrow> highest base uids < u"
    and "\<And>n n' u. mget uids n = None \<Longrightarrow> mget uids' n = Some u \<Longrightarrow> mget uids n' = None \<Longrightarrow> mget uids' n' = Some u \<Longrightarrow> n = n'"
    and "\<And>n u. (n, u) \<in> N \<longleftrightarrow> n \<noteq> releasedUIDs \<and> mget uids' n = Some u"
  shows "uids_spent (H \<union> N) base uids'"
proof -
  have H: "n \<noteq> releasedUIDs \<Longrightarrow> mget uids n = Some u \<Longrightarrow> (n, u) \<in> H" "(n, u) \<in> H \<Longrightarrow> u \<le> highest base uids"
    "(n, u) \<in> H \<Longrightarrow> (n', u) \<in> H \<Longrightarrow> n = n'" for n n' u
    using assms(1) unfolding uids_spent_def by blast+
  have new: "(n, u) \<in> H \<or> mget uids n = None \<and> mget uids' n = Some u" if "(n, u) \<in> H \<union> N" for n u
    using that assms(2) [of n] assms(6) [of n u] H(1) [of n u] by (cases "mget uids n") auto
  have "n = n'" if n: "(n, u) \<in> H \<union> N" and n': "(n', u) \<in> H \<union> N" for n n' u
    using new [OF n] new [OF n'] H(2,3) assms(4) [of n u] assms(4) [of n' u] assms(5) [of n u n'] by fastforce
  moreover have "u \<le> highest base uids'" if "(n, u) \<in> H \<union> N" for n u
    using new [OF that] H(2) [of n u] assms(3) highest_ge [of uids' n u base] by fastforce
  ultimately show ?thesis using assms(6) unfolding uids_spent_def by blast
qed

lemma sync_published:
  assumes "published_ok uids s" and "\<And>n u. mget uids n = Some u \<Longrightarrow> mget uids' n = Some u"
    and "\<And>n. srcs n \<noteq> [] \<Longrightarrow> mget uids' n \<noteq> None" and "\<And>n. srcs n \<noteq> [] \<Longrightarrow> account_shape n"
    and "\<And>n. mget (st_accounts s') n = synced_account L s uids' n (srcs n)"
    and "\<And>n. mget (st_provisioning s') n = synced_uid s uids' n (srcs n)" and "st_provisioned s' = st_provisioned s"
  shows "published_ok uids' s'"
proof -
  have P: "Lookup_account s n = Some a \<Longrightarrow> account_shape n \<and> mget uids n = Some (a_UID a) \<and> a_GID a = a_UID a \<and> a_Name a = n"
    "mget (st_provisioning s) n = Some u \<Longrightarrow> account_shape n \<and> mget uids n = Some u"
    "Lookup_account s n = Some a \<Longrightarrow> a_Keys a \<noteq> [] \<Longrightarrow> mget (st_provisioned s) n \<noteq> None" for n a u
    using assms(1) unfolding published_ok_def keyed_provisioned_def by blast+
  have "account_shape n \<and> mget uids' n = Some (a_UID a) \<and> a_GID a = a_UID a \<and> a_Name a = n \<and>
      (a_Keys a \<noteq> [] \<longrightarrow> mget (st_provisioned s') n \<noteq> None)" if a: "Lookup_account s' n = Some a" for n a
  proof (cases "srcs n = [] \<or> mget (st_provisioned s) n = None")
    case True
    with a obtain b where b: "Lookup_account s n = Some b" and "a = b \<and> srcs n \<noteq> [] \<and> mget (st_provisioned s) n = None \<or> a = revoked b"
      by (auto simp: Lookup_account_def assms(5) synced_account_def split: if_splits)
    with P(1) [OF b] P(3) [OF b] assms(2) show ?thesis
      by (auto simp: revoked_def assms(7) split: if_splits)
  next
    case False
    with a obtain unix home where "mget (st_provisioned s) n = Some (unix, home)"
      "a = \<lparr>a_Name = n, a_UID = the (mget uids' n), a_GID = the (mget uids' n), a_Home = home,
         a_Keys = dedup L (concat (map s_Keys (srcs n))) [], a_Sources = srcs n, a_Unix = unix\<rparr>"
      by (auto simp: Lookup_account_def assms(5) synced_account_def)
    with False assms(3) [of n] assms(4) [of n] show ?thesis by (auto simp: assms(7))
  qed
  moreover have "account_shape n \<and> mget uids' n = Some u" if "mget (st_provisioning s') n = Some u" for n u
    using that P(2) [of n u] assms(2) [of n u] assms(4) [of n] by (auto simp: assms(6) synced_uid_def split: if_splits)
  ultimately show ?thesis unfolding published_ok_def keyed_provisioned_def by blast
qed

lemma release_published:
  assumes "published_ok uids s" and "Lookup_account s name = None" and "mget (st_provisioning s) name = None"
    and "\<And>n. n \<noteq> name \<Longrightarrow> n \<noteq> releasedUIDs \<Longrightarrow> mget uids' n = mget uids n"
  shows "published_ok uids' s"
proof -
  have r: "\<not> account_shape releasedUIDs" by (simp add: account_shape_def)
  have same: "mget uids' n = mget uids n" if "account_shape n" "n \<noteq> name" for n
    by (rule assms(4)) (use that r in auto)
  have "account_shape n \<and> mget uids' n = Some (a_UID a) \<and> a_GID a = a_UID a \<and> a_Name a = n" if "Lookup_account s n = Some a" for n a
  proof -
    from that assms(2) have "n \<noteq> name" by auto
    with same [of n] assms(1) that show ?thesis by (simp add: published_ok_def)
  qed
  moreover have "account_shape n \<and> mget uids' n = Some u" if "mget (st_provisioning s) n = Some u" for n u
  proof -
    from that assms(3) have "n \<noteq> name" by auto
    with same [of n] assms(1) that show ?thesis by (simp add: published_ok_def)
  qed
  ultimately show ?thesis using assms(1) unfolding published_ok_def by blast
qed

lemma release_spent:
  assumes "uids_spent H base uids" and "record_is rcd' uids'" and "highest base uids \<le> highest base uids'"
    and "\<And>n. n \<noteq> name \<Longrightarrow> n \<noteq> releasedUIDs \<Longrightarrow> mget uids' n = mget uids n" and "mget uids' name = None"
  shows "uids_spent (H \<union> recorded rcd') base uids'"
proof -
  have old: "(n, u) \<in> H" if "n \<noteq> releasedUIDs" "mget uids' n = Some u" for n u
  proof -
    have "n \<noteq> name" using that assms(5) by auto
    with that assms(4) have "mget uids n = Some u" by simp
    with assms(1) that(1) show ?thesis by (simp add: uids_spent_def)
  qed
  then have "H \<union> recorded rcd' = H" using recorded_is [OF assms(2)] by auto
  moreover have "u \<le> highest base uids'" if "(n, u) \<in> H" for n u
    using assms(1,3) that by (fastforce simp: uids_spent_def)
  moreover have "\<forall>n n' u. (n, u) \<in> H \<longrightarrow> (n', u) \<in> H \<longrightarrow> n = n'" using assms(1) unfolding uids_spent_def by blast
  ultimately show ?thesis using old unfolding uids_spent_def by presburger
qed

lemma step_keeps:
  assumes "store_step L other (rcd, s) (rcd', s')" and "record_is rcd uids"
  shows "\<exists>uids'. record_is rcd' uids' \<and> st_UIDBase s' = st_UIDBase s \<and>
    highest (st_UIDBase s) uids \<le> highest (st_UIDBase s) uids' \<and>
    (published_ok uids s \<longrightarrow> published_ok uids' s') \<and>
    (highest (st_UIDBase s) uids' < 2 ^ 63 - 1 \<longrightarrow> uids_spent H (st_UIDBase s) uids \<longrightarrow>
       uids_spent (H \<union> recorded rcd') (st_UIDBase s) uids')"
proof -
  let ?b = "st_UIDBase s"
  have still: ?thesis if "rcd' = rcd" "st_UIDBase s' = ?b" "published_ok uids s \<Longrightarrow> published_ok uids s'"
  proof -
    have "recorded rcd \<subseteq> H" if "uids_spent H ?b uids"
      using that recorded_is [OF assms(2)] by (auto simp: uids_spent_def)
    then show ?thesis using that assms(2) by (intro exI [of _ uids]) (auto simp: Un_absorb2)
  qed
  from assms(1) show ?thesis
  proof cases
    case (step_sync disk view)
    then obtain r where r: "swap L other disk view (rcd, s) = (r, rcd', s')"
      by (cases "swap L other disk view (rcd, s)") auto
    show ?thesis
    proof (cases r)
      case None
      with r have "(rcd', s') = (rcd, s)" using swap_None by blast
      then show ?thesis by (intro still) auto
    next
      case (Some started)
      with r have swap: "swap L other disk view (rcd, s) = (Some started, rcd', s')" by simp
      show ?thesis
      proof (rule swap_record [OF swap assms(2)])
        fix uids'
        assume u: "record_is rcd' uids'" "\<And>n u. mget uids n = Some u \<Longrightarrow> mget uids' n = Some u"
        and p: "\<And>n. sources_read L other s view n \<noteq> [] \<Longrightarrow> mget uids' n \<noteq> None"
          "\<And>n. mget (st_accounts s') n = synced_account L s uids' n (sources_read L other s view n)"
          "\<And>n. mget (st_provisioning s') n = synced_uid s uids' n (sources_read L other s view n)"
        and h: "highest ?b uids \<le> highest ?b uids'"
        and f: "\<And>n u. highest ?b uids' < 2 ^ 63 - 1 \<Longrightarrow> mget uids n = None \<Longrightarrow> mget uids' n = Some u \<Longrightarrow> highest ?b uids < u"
          "\<And>n n' u. highest ?b uids' < 2 ^ 63 - 1 \<Longrightarrow> mget uids n = None \<Longrightarrow> mget uids' n = Some u \<Longrightarrow>
             mget uids n' = None \<Longrightarrow> mget uids' n' = Some u \<Longrightarrow> n = n'"
        and c: "st_provisioned s' = st_provisioned s" "st_UIDBase s' = ?b"
        have "published_ok uids s \<Longrightarrow> published_ok uids' s'"
          by (rule sync_published [where srcs = "sources_read L other s view" and L = L])
            (use u(2) p c(1) sources_read_shape [of L other s view] in blast)+
        moreover have "uids_spent (H \<union> recorded rcd') ?b uids'" if "highest ?b uids' < 2 ^ 63 - 1" "uids_spent H ?b uids"
          by (rule uids_spent_grow [OF that(2) u(2) h f(1) [OF that(1)] f(2) [OF that(1)] recorded_is [OF u(1)]])
        ultimately show ?thesis using u(1) h c(2) by blast
      qed
    qed
  next
    case (step_succeeded name unix home)
    then show ?thesis
      by (intro still) (auto simp: provision_succeeded_def published_ok_def keyed_provisioned_def Lookup_account_def)
  next
    case (step_finished name)
    then show ?thesis
      by (intro still) (auto simp: provision_finished_def published_ok_def keyed_provisioned_def Lookup_account_def)
  next
    case (step_release name disk view)
    from release_record [OF step_release(1) [symmetric] assms(2) step_release(2), of ?b] have s': "s' = s"
      and "rcd' = rcd \<or> (\<exists>uids'. record_is rcd' uids' \<and> highest ?b uids \<le> highest ?b uids' \<and>
        Lookup_account s name = None \<and> mget (st_provisioning s) name = None \<and>
        (\<forall>n. n \<noteq> name \<longrightarrow> n \<noteq> releasedUIDs \<longrightarrow> mget uids' n = mget uids n) \<and> mget uids' name = None)" by blast+
    then consider "rcd' = rcd" | uids' where "record_is rcd' uids'" "highest ?b uids \<le> highest ?b uids'"
        "Lookup_account s name = None" "mget (st_provisioning s) name = None"
        "\<And>n. n \<noteq> name \<Longrightarrow> n \<noteq> releasedUIDs \<Longrightarrow> mget uids' n = mget uids n" "mget uids' name = None" by blast
    then show ?thesis
    proof cases
      case 1
      with s' show ?thesis by (intro still) auto
    next
      case 2
      have "published_ok uids s \<Longrightarrow> published_ok uids' s'"
        unfolding s' by (rule release_published [OF _ 2(3-5)])
      moreover have "uids_spent H ?b uids \<Longrightarrow> uids_spent (H \<union> recorded rcd') ?b uids'"
        by (rule release_spent [OF _ 2(1,2,5,6)])
      ultimately show ?thesis using 2(1,2) s' by blast
    qed
  next
    case (step_purge name)
    then show ?thesis
      by (intro still) (auto simp: Purge_def published_ok_def keyed_provisioned_def Lookup_account_def split: option.splits if_splits)
  next
    case (step_restart keysDirs enrolled)
    then show ?thesis
      by (intro still) (auto simp: New_def published_ok_def keyed_provisioned_def Lookup_account_def)
  qed
qed

lemma run_keeps:
  assumes "store_run L other (rcd0, s0) H w" and "record_is rcd0 uids0" and "published_ok uids0 s0"
    and "uids_spent (recorded rcd0) (st_UIDBase s0) uids0"
  shows "\<exists>uids. record_is (fst w) uids \<and> st_UIDBase (snd w) = st_UIDBase s0 \<and> published_ok uids (snd w) \<and>
    (highest (st_UIDBase s0) uids < 2 ^ 63 - 1 \<longrightarrow> uids_spent H (st_UIDBase s0) uids)"
  using assms(1)
proof (induction rule: store_run.induct)
  case run_start
  with assms show ?case by auto
next
  case (run_step H w w')
  then obtain uids where u: "record_is (fst w) uids" "st_UIDBase (snd w) = st_UIDBase s0" "published_ok uids (snd w)"
    "highest (st_UIDBase s0) uids < 2 ^ 63 - 1 \<Longrightarrow> uids_spent H (st_UIDBase s0) uids" by blast
  from step_keeps [of L other "fst w" "snd w" "fst w'" "snd w'" uids H] run_step.hyps(2) u(1)
  obtain uids' where u': "record_is (fst w') uids'" "st_UIDBase (snd w') = st_UIDBase s0"
      "highest (st_UIDBase s0) uids \<le> highest (st_UIDBase s0) uids'" "published_ok uids (snd w) \<longrightarrow> published_ok uids' (snd w')"
      "highest (st_UIDBase s0) uids' < 2 ^ 63 - 1 \<longrightarrow> uids_spent H (st_UIDBase s0) uids \<longrightarrow>
         uids_spent (H \<union> recorded (fst w')) (st_UIDBase s0) uids'"
    unfolding u(2) prod.collapse by blast
  show ?case
  proof (intro exI [of _ uids'] conjI impI)
    show "record_is (fst w') uids'" "st_UIDBase (snd w') = st_UIDBase s0" by (fact u')+
    show "published_ok uids' (snd w')" using u'(4) u(3) by blast
    assume "highest (st_UIDBase s0) uids' < 2 ^ 63 - 1"
    with u' u(4) show "uids_spent (H \<union> recorded (fst w')) (st_UIDBase s0) uids'" by force
  qed
qed

text \<open>Claim C9. Over any run of the store, through restarts of the agent and released names, no two names ever had one
  uid; every published account has the uid on record for its name, and its keys only if it was provisioned.\<close>

theorem no_uid_for_two_names:
  assumes "store_run L other (rcd0, New keysDirs enrolled base) H (rcd, s)" and "record_is rcd0 uids0"
    and "\<forall>n n' u. mget uids0 n = Some u \<longrightarrow> mget uids0 n' = Some u \<longrightarrow> n \<noteq> releasedUIDs \<longrightarrow> n' \<noteq> releasedUIDs \<longrightarrow> n = n'"
    and "loadUIDs rcd = Some uids" and "highest base uids < 2 ^ 63 - 1"
  shows "((n, u) \<in> H \<longrightarrow> (n', u) \<in> H \<longrightarrow> n = n') \<and>
    (Lookup_account s n = Some a \<longrightarrow> (n, a_UID a) \<in> H \<and> mget uids n = Some (a_UID a) \<and> a_GID a = a_UID a) \<and>
    keyed_provisioned s"
proof -
  let ?s0 = "New keysDirs enrolled base"
  have base: "st_UIDBase ?s0 = base" by (simp add: New_def)
  have "published_ok uids0 ?s0" by (simp add: published_ok_def keyed_provisioned_def New_def Lookup_account_def)
  moreover have "uids_spent (recorded rcd0) base uids0"
    using assms(3) recorded_is [OF assms(2)] by (auto simp: uids_spent_def intro: highest_ge)
  ultimately obtain uids1 where u: "record_is rcd uids1" "published_ok uids1 s"
    "highest base uids1 < 2 ^ 63 - 1 \<longrightarrow> uids_spent H base uids1"
    using run_keeps [OF assms(1,2)] unfolding base fst_conv snd_conv by blast
  moreover from this assms(4) have "uids1 = uids" by (simp add: record_is_def)
  ultimately have spent: "uids_spent H base uids" and pub: "published_ok uids s" using assms(5) by auto
  from spent have "(n, u) \<in> H \<longrightarrow> (n', u) \<in> H \<longrightarrow> n = n'" unfolding uids_spent_def by blast
  moreover have "(n, a_UID a) \<in> H \<and> mget uids n = Some (a_UID a) \<and> a_GID a = a_UID a" if "Lookup_account s n = Some a"
  proof -
    from pub that have n: "account_shape n" "mget uids n = Some (a_UID a)" "a_GID a = a_UID a" by (auto simp: published_ok_def)
    then have "n \<noteq> releasedUIDs" by (auto simp: account_shape_def)
    with n spent show ?thesis by (simp add: uids_spent_def)
  qed
  ultimately show ?thesis using pub by (simp add: published_ok_def)
qed

section \<open>Revoking\<close>

lemma swap_keyed:
  assumes "swap L other disk view (rcd, s) = (Some started, rcd', s')" and "keyed_provisioned s"
  shows "keyed_provisioned s'"
proof -
  have p: "st_provisioned s' = st_provisioned s"
    using swap_result [OF assms(1)] unfolding sync_result_def by metis
  show ?thesis
    unfolding keyed_provisioned_def p
  proof (intro allI impI)
    fix n acc
    assume "Lookup_account s' n = Some acc" and "a_Keys acc \<noteq> []"
    then have "login_fps L s' n \<noteq> {}" by (simp add: login_fps_def)
    then show "mget (st_provisioned s) n \<noteq> None" by (simp add: login_fps_synced [OF assms] split: if_splits)
  qed
qed

text \<open>Claim C11. An account whose one key file can no longer be read keeps the keys that file gave it through the
  first sync that finds it so, and has none after the second.\<close>

theorem revocation_takes_two_reads:
  assumes "swap L other disk view (rcd, s) = (Some st1, rcd1, s1)" and "swap L other disk' view' (rcd1, s1) = (Some st2, rcd2, s2)"
    and "keyed_provisioned s" and "(dir, n) \<notin> set (st_unusable s)" and "dir \<in> set (dirs s)"
    and "\<forall>d \<in> set (dirs s). \<forall>f \<in> set (files_of other view d). f_account f = n \<longrightarrow> d = dir \<and> file_unusable L (entries_of view d) f"
    and "\<exists>f \<in> set (files_of other view dir). f_account f = n"
    and "\<forall>d \<in> set (dirs s). \<forall>f \<in> set (files_of other view' d). f_account f = n \<longrightarrow> d = dir \<and> file_unusable L (entries_of view' d) f"
  shows "((\<exists>a. Lookup_account s1 n = Some a \<and> Authorized L a key) \<longleftrightarrow>
      mget (st_provisioned s) n \<noteq> None \<and>
      FingerprintSHA256 L key \<in> FingerprintSHA256 L ` set (s_Keys (source (Lookup_account s n) dir))) \<and>
    \<not> (\<exists>a. Lookup_account s2 n = Some a \<and> Authorized L a key)"
proof -
  have enrols: "enrols L t d e f key \<longleftrightarrow> (d, n) \<notin> set (st_unusable t) \<and>
      FingerprintSHA256 L key \<in> FingerprintSHA256 L ` set (s_Keys (source (Lookup_account t n) d))"
    if "file_unusable L e f" "f_account f = n" for t d e f
    using that by (auto simp: enrols_def file_unusable_def split: sum.splits)
  obtain u u' c where "sync_result L other view s u u' c s1"
    by (rule swap_result [OF assms(1)]) (rule that)
  then have dirs: "dirs s1 = dirs s" and un: "set (st_unusable s1) = unusable_files L other view (dirs s)"
    by (simp_all add: sync_result_def dirs_def)
  have "FingerprintSHA256 L key \<in> enrolled_fps L other s view n \<longleftrightarrow>
      FingerprintSHA256 L key \<in> FingerprintSHA256 L ` set (s_Keys (source (Lookup_account s n) dir))" (is "_ \<longleftrightarrow> ?had")
    unfolding enrolled_fps_def sources_read_keys
  proof
    assume "\<exists>d \<in> set (dirs s). \<exists>f \<in> set (files_of other view d). f_account f = n \<and> enrols L s d (entries_of view d) f key"
    then obtain d f where f: "d \<in> set (dirs s)" "f \<in> set (files_of other view d)" "f_account f = n" "enrols L s d (entries_of view d) f key"
      by blast
    with assms(6) have "d = dir" and bad: "file_unusable L (entries_of view d) f" by blast+
    with enrols [OF bad f(3), of s d] f(4) show ?had by blast
  next
    assume had: ?had
    from assms(7) obtain f where f: "f \<in> set (files_of other view dir)" "f_account f = n" by blast
    with assms(5,6) have "file_unusable L (entries_of view dir) f" by blast
    from enrols [OF this f(2), of s dir] had assms(4) have "enrols L s dir (entries_of view dir) f key" by blast
    with f assms(5) show "\<exists>d \<in> set (dirs s). \<exists>f \<in> set (files_of other view d). f_account f = n \<and> enrols L s d (entries_of view d) f key"
      by blast
  qed
  moreover have seen: "(dir, n) \<in> set (st_unusable s1)" unfolding un unusable_files_def using assms(5-7) by blast
  have "FingerprintSHA256 L key \<notin> enrolled_fps L other s1 view' n"
    unfolding enrolled_fps_def sources_read_keys dirs
  proof
    assume "\<exists>d \<in> set (dirs s). \<exists>f \<in> set (files_of other view' d). f_account f = n \<and> enrols L s1 d (entries_of view' d) f key"
    then obtain d f where f: "d \<in> set (dirs s)" "f \<in> set (files_of other view' d)" "f_account f = n" "enrols L s1 d (entries_of view' d) f key"
      by blast
    with assms(8) have "d = dir" and bad: "file_unusable L (entries_of view' d) f" by blast+
    with enrols [OF bad f(3), of s1 d] f(4) seen show False by blast
  qed
  ultimately show ?thesis
    unfolding login_fps_iff login_fps_synced [OF assms(1,3)] login_fps_synced [OF assms(2) swap_keyed [OF assms(1,3)]] by simp
qed

section \<open>An example\<close>

text \<open>A directory with one key file, and the first syncs of a new store over it.\<close>

definition key_view :: "string \<Rightarrow> view" where
  "key_view data = [(''/k'', Dir [(''a.pub'', Data data)])]"

abbreviation one_key :: view where
  "one_key \<equiv> key_view ''k1''"

definition fresh_store :: "string store" where
  "fresh_store = New [''/k''] '''' 1000"

lemma a_pub: "files_of (\<lambda>r. r) (key_view data) ''/k'' = [\<lparr>f_file = ''a.pub'', f_account = ''a''\<rparr>]"
proof -
  have "AccountName (\<lambda>r. r) ''a'' = Some ''a''"
    by (rule AccountName_of_shape) (simp add: account_shape_def name_char_def)
  moreover have "TrimSuffix ''a.pub'' ''.pub'' = ''a''" by (simp add: TrimSuffix_def HasSuffix_def)
  moreover have "key_entry (''a.pub'', Data data)" by (simp add: key_entry_def HasPrefix_def HasSuffix_def)
  ultimately show ?thesis
    by (simp add: files_of_def key_view_def view_dir_def keyFiles_in_def exact_name_def Let_def)
qed

lemma k1_parses: "parseKeys text_keys (Data ''k1'') = Inr ([''k1''], [''''], 0)"
proof -
  have "parseKeyLine text_keys ''k1'' = IsKey ''k1'' ''''"
    by (simp add: parseKeyLine_def text_keys_def HasPrefix_def plain_def)
  then show ?thesis
    by (simp add: parseKeys_def stripBOM_def CutPrefix_def HasPrefix_def bytes_def eq_char_of char_of_eq_iff take_bit_eq_mod
        scan_lines_def max_token_def parseKeyLine_drop_CR)
qed

lemma first_read:
  "read_dirs text_keys (\<lambda>r. r) fresh_store one_key (dirs fresh_store) ([], []) =
     Some ([(''a'', \<lparr>a_Name = ''a'', a_UID = 0, a_GID = 0, a_Home = '''', a_Keys = [],
        a_Sources = [\<lparr>s_Dir = ''/k'', s_Keys = [''k1''], s_Comments = ['''']\<rparr>], a_Unix = ''''\<rparr>)], [])"
proof -
  have "keyFiles (\<lambda>r. r) '''' ''/k'' (view_dir one_key ''/k'') = Some [\<lparr>f_file = ''a.pub'', f_account = ''a''\<rparr>]"
    using a_pub by (simp add: keyFiles_def files_of_def key_view_def view_dir_def)
  then show ?thesis
    by (simp add: fresh_store_def New_def dirs_def read_key_file_def key_view_def view_dir_def file_at_def k1_parses add_source_def)
qed

lemma uids_a: "uids_ok [(''a'', 1000)]" "sorted_uids [(''a'', 1000)] = [(''a'', 1000)]" "nextUID [] 1000 = 1000" "highest 1000 [(''a'', 1000)] = 1000"
  by (auto simp: uids_ok_def uid_entry_ok_def uid_name_def account_shape_def name_char_def in_int64_def wfm_def sorted_uids_def
      nextUID_def int64_def highest_def split: if_splits)

definition record_a :: file_state where
  "record_a = snd (saveUIDs True [(''a'', 1000)] NoFile)"

lemma record_a_is: "record_is NoFile []" "record_is record_a [(''a'', 1000)]"
  using saved_record [OF uids_a(1), of NoFile]
  by (simp_all add: record_is_def record_a_def uids_a(2) uids_ok_def loadUIDs_def)

lemma fresh_facts:
  "st_provisioned fresh_store = []" "st_accounts fresh_store = []" "st_unusable fresh_store = []" "st_UIDBase fresh_store = 1000"
  "st_provisioning fresh_store = []"
  by (simp_all add: fresh_store_def New_def)

lemma first_sync:
  "swap text_keys (\<lambda>r. r) True one_key (NoFile, fresh_store) =
     (Some [''a''], record_a, fresh_store\<lparr>st_provisioning := [(''a'', 1000)]\<rparr>)"
proof -
  have "loadUIDs NoFile = Some []" by (simp add: loadUIDs_def)
  moreover have "fst (saveUIDs True [(''a'', 1000)] NoFile)" by (simp add: saveUIDs_def WriteRecord_def)
  then have "saveUIDs True [(''a'', 1000)] NoFile = (True, record_a)" by (simp add: record_a_def prod_eq_iff)
  ultimately show ?thesis
    by (simp add: swap_def first_read reconcile_def Let_def uids_a(3) union_keys_def fresh_facts publish_def)
qed

definition ready_store :: "string store" where
  "ready_store = provision_succeeded ''a'' ''rd-a'' ''/home/rd-a'' (fresh_store\<lparr>st_provisioning := [(''a'', 1000)]\<rparr>)"

lemma ready_facts:
  "st_provisioned ready_store = [(''a'', (''rd-a'', ''/home/rd-a''))]" "st_accounts ready_store = []" "st_unusable ready_store = []"
  "st_KeysDirs ready_store = [''/k'']" "st_EnrolledDir ready_store = ''''" "st_UIDBase ready_store = 1000"
  "st_provisioning ready_store = [(''a'', 1000)]" "dirs ready_store = [''/k'']" "keyed_provisioned ready_store"
  by (simp_all add: ready_store_def provision_succeeded_def fresh_store_def New_def dirs_def keyed_provisioned_def Lookup_account_def)

definition account_a :: "string account" where
  "account_a = \<lparr>a_Name = ''a'', a_UID = 1000, a_GID = 1000, a_Home = ''/home/rd-a'', a_Keys = [''k1''],
     a_Sources = [\<lparr>s_Dir = ''/k'', s_Keys = [''k1''], s_Comments = ['''']\<rparr>], a_Unix = ''rd-a''\<rparr>"

lemma ready_read:
  "read_dirs text_keys (\<lambda>r. r) ready_store one_key [''/k''] ([], []) =
     Some ([(''a'', \<lparr>a_Name = ''a'', a_UID = 0, a_GID = 0, a_Home = '''', a_Keys = [],
        a_Sources = [\<lparr>s_Dir = ''/k'', s_Keys = [''k1''], s_Comments = ['''']\<rparr>], a_Unix = ''''\<rparr>)], [])"
proof -
  have "keyFiles (\<lambda>r. r) '''' ''/k'' (view_dir one_key ''/k'') = Some [\<lparr>f_file = ''a.pub'', f_account = ''a''\<rparr>]"
    using a_pub by (simp add: keyFiles_def files_of_def key_view_def view_dir_def)
  then show ?thesis
    by (simp add: ready_facts read_key_file_def key_view_def view_dir_def file_at_def k1_parses add_source_def)
qed

lemma second_sync:
  "swap text_keys (\<lambda>r. r) True one_key (record_a, ready_store) =
     (Some [], record_a, ready_store\<lparr>st_accounts := [(''a'', account_a)]\<rparr>)"
proof -
  have "loadUIDs record_a = Some [(''a'', 1000)]" using record_a_is(2) by (simp add: record_is_def)
  then show ?thesis
    by (simp add: swap_def ready_read reconcile_def Let_def union_keys_def ready_facts publish_def revoke_def account_a_def del: read_dirs.simps)
qed

lemma run_a: "store_run text_keys (\<lambda>r. r) (NoFile, fresh_store) {(''a'', 1000)} (record_a, ready_store\<lparr>st_accounts := [(''a'', account_a)]\<rparr>)"
proof -
  let ?w0 = "(NoFile, fresh_store)"
  have none: "recorded NoFile = {}" and a: "recorded record_a = {(''a'', 1000)}"
    using recorded_is [OF record_a_is(1)] recorded_is [OF record_a_is(2)] by (auto split: if_splits)
  have "store_run text_keys (\<lambda>r. r) ?w0 {} ?w0" using store_run.run_start [of text_keys "\<lambda>r. r" ?w0] none by simp
  from store_run.run_step [OF this step_sync [of text_keys "\<lambda>r. r" ?w0 True one_key]]
  have "store_run text_keys (\<lambda>r. r) ?w0 {(''a'', 1000)} (record_a, fresh_store\<lparr>st_provisioning := [(''a'', 1000)]\<rparr>)"
    by (simp add: first_sync a)
  from store_run.run_step [OF this step_succeeded [of _ "''a''" text_keys "\<lambda>r. r" _ "''rd-a''" "''/home/rd-a''"]]
  have "store_run text_keys (\<lambda>r. r) ?w0 {(''a'', 1000)} (record_a, ready_store)"
    by (simp add: a ready_store_def)
  from store_run.run_step [OF this step_sync [of text_keys "\<lambda>r. r" _ True one_key]]
  show ?thesis by (simp add: second_sync a)
qed

theorem no_uid_for_two_names_witness:
  "(''a'', 1000) \<in> {(''a'', 1000 :: int)} \<and> a_GID account_a = a_UID account_a \<and>
   keyed_provisioned (ready_store\<lparr>st_accounts := [(''a'', account_a)]\<rparr>)"
proof -
  have "Lookup_account (ready_store\<lparr>st_accounts := [(''a'', account_a)]\<rparr>) ''a'' = Some account_a" by (simp add: Lookup_account_def)
  moreover have "loadUIDs record_a = Some [(''a'', 1000)]" using record_a_is(2) by (simp add: record_is_def)
  ultimately show ?thesis
    using no_uid_for_two_names [OF run_a [unfolded fresh_store_def] record_a_is(1), of "[(''a'', 1000)]" "''a''" 1000 "''a''" account_a]
    by (simp add: uids_a(4) account_a_def)
qed

theorem sync_authorizes_exactly_witness:
  "\<exists>a. Lookup_account (ready_store\<lparr>st_accounts := [(''a'', account_a)]\<rparr>) ''a'' = Some a \<and> Authorized text_keys a ''k1''"
  unfolding sync_authorizes_exactly [OF second_sync ready_facts(9)]
proof -
  have "view_dir one_key ''/k'' = Dir [(''a.pub'', Data ''k1'')]" by (simp add: key_view_def view_dir_def)
  then show "mget (st_provisioned ready_store) ''a'' \<noteq> None \<and>
    (\<exists>dir \<in> set (dirs ready_store). \<exists>f \<in> set (files_of (\<lambda>r. r) one_key dir). f_account f = ''a'' \<and>
       enrols text_keys ready_store dir (entries_of one_key dir) f ''k1'')"
    by (simp add: ready_facts a_pub enrols_def file_at_def k1_parses)
qed

text \<open>The file of \<open>a\<close> is emptied, and read twice.\<close>

definition live_store :: "string store" where
  "live_store = ready_store\<lparr>st_accounts := [(''a'', account_a)]\<rparr>"

lemma live_facts:
  "st_provisioned live_store = [(''a'', (''rd-a'', ''/home/rd-a''))]" "st_accounts live_store = [(''a'', account_a)]"
  "st_unusable live_store = []" "st_KeysDirs live_store = [''/k'']" "st_EnrolledDir live_store = ''''" "st_UIDBase live_store = 1000"
  "st_provisioning live_store = [(''a'', 1000)]" "dirs live_store = [''/k'']" "keyed_provisioned live_store"
  using ready_facts
  by (auto simp: live_store_def dirs_def keyed_provisioned_def Lookup_account_def split: if_splits)

lemma empty_unusable: "parseKeys text_keys (Data '''') = Inl FileEmpty" "view_dir (key_view '''') ''/k'' = Dir [(''a.pub'', Data '''')]"
  by (simp_all add: parseKeys_def stripBOM_def CutPrefix_def HasPrefix_def bytes_def scan_lines_def key_view_def view_dir_def)

lemma empty_files: "keyFiles (\<lambda>r. r) '''' ''/k'' (view_dir (key_view '''') ''/k'') = Some [\<lparr>f_file = ''a.pub'', f_account = ''a''\<rparr>]"
  using a_pub [of "''''"] by (simp add: keyFiles_def files_of_def empty_unusable)

lemma third_sync:
  "swap text_keys (\<lambda>r. r) True (key_view '''') (record_a, live_store) =
     (Some [], record_a, live_store\<lparr>st_unusable := [(''/k'', ''a'')]\<rparr>)"
proof -
  have "loadUIDs record_a = Some [(''a'', 1000)]" using record_a_is(2) by (simp add: record_is_def)
  moreover have "source (Some account_a) ''/k'' = \<lparr>s_Dir = ''/k'', s_Keys = [''k1''], s_Comments = ['''']\<rparr>"
    by (simp add: source_def account_a_def)
  ultimately show ?thesis
    using empty_files
    by (simp add: swap_def live_facts reconcile_def Let_def union_keys_def publish_def revoke_def read_key_file_def file_at_def
        empty_unusable add_source_def) (simp add: live_store_def account_a_def ready_store_def provision_succeeded_def fresh_store_def New_def)
qed

lemma fourth_sync:
  "\<exists>s2. swap text_keys (\<lambda>r. r) True (key_view '''') (record_a, live_store\<lparr>st_unusable := [(''/k'', ''a'')]\<rparr>) = (Some [], record_a, s2)"
proof -
  have "loadUIDs record_a = Some [(''a'', 1000)]" using record_a_is(2) by (simp add: record_is_def)
  moreover have "dirs (live_store\<lparr>st_unusable := [(''/k'', ''a'')]\<rparr>) = [''/k'']" using live_facts(4,5) by (simp add: dirs_def)
  ultimately show ?thesis
    using empty_files
    by (simp add: swap_def live_facts reconcile_def Let_def read_key_file_def file_at_def empty_unusable)
qed

theorem revocation_takes_two_reads_witness:
  "\<exists>s1 s2. swap text_keys (\<lambda>r. r) True (key_view '''') (record_a, live_store) = (Some [], record_a, s1) \<and>
     swap text_keys (\<lambda>r. r) True (key_view '''') (record_a, s1) = (Some [], record_a, s2) \<and>
     (\<exists>a. Lookup_account s1 ''a'' = Some a \<and> Authorized text_keys a ''k1'') \<and>
     \<not> (\<exists>a. Lookup_account s2 ''a'' = Some a \<and> Authorized text_keys a ''k1'')"
proof -
  obtain s2 where s2: "swap text_keys (\<lambda>r. r) True (key_view '''') (record_a, live_store\<lparr>st_unusable := [(''/k'', ''a'')]\<rparr>) = (Some [], record_a, s2)"
    using fourth_sync by blast
  let ?s1 = "live_store\<lparr>st_unusable := [(''/k'', ''a'')]\<rparr>"
  have "file_unusable text_keys [(''a.pub'', Data '''')] \<lparr>f_file = ''a.pub'', f_account = ''a''\<rparr>"
    by (simp add: file_unusable_def file_at_def empty_unusable)
  then have bad: "\<forall>d \<in> set (dirs live_store). \<forall>f \<in> set (files_of (\<lambda>r. r) (key_view '''') d). f_account f = ''a'' \<longrightarrow>
      d = ''/k'' \<and> file_unusable text_keys (entries_of (key_view '''') d) f"
    by (simp add: live_facts a_pub empty_unusable(2))
  have "\<exists>f \<in> set (files_of (\<lambda>r. r) (key_view '''') ''/k''). f_account f = ''a''" by (simp add: a_pub)
  moreover have "(''/k'', ''a'') \<notin> set (st_unusable live_store)" "''/k'' \<in> set (dirs live_store)" by (simp_all add: live_facts)
  moreover have "s_Keys (source (Lookup_account live_store ''a'') ''/k'') = [''k1'']"
    by (simp add: source_def Lookup_account_def live_facts account_a_def)
  ultimately have "(\<exists>a. Lookup_account ?s1 ''a'' = Some a \<and> Authorized text_keys a ''k1'') \<and>
     \<not> (\<exists>a. Lookup_account s2 ''a'' = Some a \<and> Authorized text_keys a ''k1'')"
    using revocation_takes_two_reads [OF third_sync s2 live_facts(9) _ _ bad _ bad, of "''k1''"] by (simp add: live_facts(1))
  with third_sync s2 show ?thesis by blast
qed

end
