(* ===== verification/Enrol_Policy.thy ===== *)
theory Enrol_Policy
  imports Share_Names
begin

text \<open>
  Who may manage accounts (\<open>agent/internal/sshd/enrolpolicy.go\<close>), the facts that is decided on
  (\<open>checkFor\<close> of \<open>agent/internal/sshd/manage.go\<close>), and the account a token enrols into (\<open>redeemName\<close> of
  \<open>agent/internal/sshd/redeem.go\<close>).

  The accounts are given as the numbers of their keys, by name, and the admins of the workspace as
  the list of their names; the answer of \<open>Accounts.Known\<close> is an argument. A message is its
  constructor with the values it quotes.

  The lemmas state the whole policy: exactly when an operation is allowed, that a removal which
  was allowed leaves an admin with a key when there was one, and which accounts a token can enrol
  into.
\<close>

abbreviation OpWhoami :: string where "OpWhoami \<equiv> ''whoami''"
abbreviation OpTokenCreate :: string where "OpTokenCreate \<equiv> ''token.create''"
abbreviation OpTokenList :: string where "OpTokenList \<equiv> ''token.ls''"
abbreviation OpTokenRemove :: string where "OpTokenRemove \<equiv> ''token.rm''"
abbreviation OpUserList :: string where "OpUserList \<equiv> ''user.ls''"
abbreviation OpUserRemove :: string where "OpUserRemove \<equiv> ''user.rm''"
abbreviation OpKeyList :: string where "OpKeyList \<equiv> ''key.ls''"
abbreviation OpKeyAdd :: string where "OpKeyAdd \<equiv> ''key.add''"
abbreviation OpKeyRemove :: string where "OpKeyRemove \<equiv> ''key.rm''"

record check =
  k_Op :: string
  k_Caller :: string
  k_Admin :: bool
  k_Target :: string
  k_TargetAdmin :: bool
  k_TargetKeys :: int
  k_KeysLeft :: int
  k_OtherAdmins :: int
  k_OperatorDir :: string
  k_LiveTokens :: int
  k_AdminOnlyTokens :: bool
  k_Connected :: bool
  k_Force :: bool

definition denials :: "(string, string) gomap" where
  "denials =
     [(OpTokenCreate, ''create a token for another account''),
      (OpTokenList, ''list another account's tokens''),
      (OpTokenRemove, ''remove another account's token''),
      (OpUserList, ''list the accounts''),
      (OpUserRemove, ''remove an account''),
      (OpKeyList, ''list another account's keys''),
      (OpKeyAdd, ''add a key to another account''),
      (OpKeyRemove, ''remove another account's key'')]"

definition maxSelfTokens :: int where
  "maxSelfTokens = 10"

text \<open>\<open>enrol.Error\<close>: the code, and the message with what it quotes.\<close>

datatype enrol_code = CodeDenied | CodeForce | CodeName | CodeFailed

datatype enrol_msg =
  OnlyAdminCan string string string
| OnlyAdminsCreateTokens string
| TooManyTokens int
| CannotRemoveSelf
| OperatorKeys string string
| LastAdmin string
| ConnectedKey
| LastKey
| NotAName string
| OtherAccount string string
| NoNameGiven
| ReservedName string
| CannotReadAccounts
| NameTaken string

type_synonym enrol_error = "enrol_code \<times> enrol_msg"

definition denied :: "check \<Rightarrow> enrol_error" where
  "denied c =
     (let what = (case mget denials (k_Op c) of None \<Rightarrow> '''' | Some w \<Rightarrow> w)
      in (CodeDenied,
          if k_Op c = OpTokenCreate then
            (if k_Target c = '''' then
               OnlyAdminCan ''create a token for a new account'' (k_Caller c)
                 ''ask an admin, or the operator: `remote-dockerd token create --unbound`''
             else OnlyAdminCan what (k_Caller c)
                 (''ask an admin, or the operator: `remote-dockerd token create --account '' @ k_Target c @ ''`''))
          else OnlyAdminCan what (k_Caller c) ''ask an admin''))"

definition authorize_removal :: "check \<Rightarrow> enrol_error option" where
  "authorize_removal c =
     (if k_TargetAdmin c \<and> k_TargetKeys c > 0 \<and> k_KeysLeft c = 0 \<and> k_OtherAdmins c = 0
      then Some (CodeDenied, LastAdmin (k_Target c))
      else if k_Op c = OpKeyRemove \<and> k_Target c = k_Caller c \<and> \<not> k_Force c then
        (if k_Connected c then Some (CodeForce, ConnectedKey)
         else if k_KeysLeft c = 0 then Some (CodeForce, LastKey)
         else None)
      else None)"

definition authorize :: "check \<Rightarrow> enrol_error option" where
  "authorize c =
     (if k_Op c = OpWhoami then None
      else if \<not> k_Admin c \<and> ((k_Op c = OpUserList \<or> k_Op c = OpUserRemove) \<or> k_Target c \<noteq> k_Caller c)
      then Some (denied c)
      else if k_Op c = OpTokenCreate \<and> \<not> k_Admin c \<and> k_AdminOnlyTokens c
      then Some (CodeDenied, OnlyAdminsCreateTokens (k_Caller c))
      else if k_Op c = OpTokenCreate \<and> \<not> k_Admin c \<and> k_LiveTokens c \<ge> maxSelfTokens
      then Some (CodeDenied, TooManyTokens (k_LiveTokens c))
      else if k_Op c = OpUserRemove then
        (if k_Target c = k_Caller c then Some (CodeDenied, CannotRemoveSelf)
         else if k_OperatorDir c \<noteq> '''' then Some (CodeDenied, OperatorKeys (k_Target c) (k_OperatorDir c))
         else authorize_removal c)
      else if k_Op c = OpKeyRemove then
        (if k_OperatorDir c \<noteq> '''' then Some (CodeDenied, OperatorKeys '''' (k_OperatorDir c))
         else authorize_removal c)
      else None)"

section \<open>The facts\<close>

text \<open>\<open>checkFor\<close>: \<open>keys\<close> is how many keys \<open>Accounts.Lookup\<close> finds for a name, \<open>None\<close> for no account.\<close>

definition checkFor :: "string list \<Rightarrow> bool \<Rightarrow> (string \<Rightarrow> nat option) \<Rightarrow> string \<Rightarrow> string \<Rightarrow> string \<Rightarrow> check" where
  "checkFor admins adminOnlyTokens keys op caller target =
     \<lparr>k_Op = op, k_Caller = caller, k_Admin = (caller \<in> set admins), k_Target = target,
      k_TargetAdmin = (target \<in> set admins),
      k_TargetKeys = (case keys target of None \<Rightarrow> 0 | Some n \<Rightarrow> int n), k_KeysLeft = 0,
      k_OtherAdmins = int (length (filter (\<lambda>name. name \<noteq> target \<and>
         (case keys name of None \<Rightarrow> False | Some n \<Rightarrow> 0 < n)) (remdups admins))),
      k_OperatorDir = '''', k_LiveTokens = 0, k_AdminOnlyTokens = adminOnlyTokens, k_Connected = False, k_Force = False\<rparr>"

section \<open>The account of a token\<close>

definition reservedNames :: "string list" where
  "reservedNames = [''root'', ''admin'', ''administrator'', ''nobody'', ''operator'', ''docker'', ''workspace'']"

definition redeemName ::
    "(nat \<Rightarrow> nat) \<Rightarrow> string list \<Rightarrow> (string \<Rightarrow> bool option) \<Rightarrow> string \<Rightarrow> string \<Rightarrow> enrol_error + string \<times> bool" where
  "redeemName other admins known bound asked =
     (case (if asked = '''' then Some '''' else AccountName other asked) of
        None \<Rightarrow> Inl (CodeName, NotAName asked)
      | Some name \<Rightarrow>
          if bound \<noteq> '''' then
            (if name \<noteq> '''' \<and> name \<noteq> bound then Inl (CodeName, OtherAccount bound name) else Inr (bound, False))
          else if name = '''' then Inl (CodeName, NoNameGiven)
          else if name \<in> set reservedNames \<or> name \<in> set admins then Inl (CodeName, ReservedName name)
          else case known name of
                 None \<Rightarrow> Inl (CodeFailed, CannotReadAccounts)
               | Some True \<Rightarrow> Inl (CodeName, NameTaken name)
               | Some False \<Rightarrow> Inr (name, True))"

section \<open>The policy\<close>

text \<open>Exactly these operations are allowed. Anybody may ask who they are. Anyone else than an admin acts
  only on their own account, and neither lists nor removes accounts; makes a token only where that is
  open to them, with fewer than ten of theirs unused. Nobody removes keys an operator placed, an
  account removes another and not itself, the last admin with a key stays, and only with force does
  someone remove the key they are connected with, or their last.\<close>

theorem authorize_policy:
  "authorize c = None \<longleftrightarrow>
     k_Op c = OpWhoami \<or>
     (k_Admin c \<or> k_Target c = k_Caller c \<and> k_Op c \<noteq> OpUserList \<and> k_Op c \<noteq> OpUserRemove) \<and>
     (k_Op c = OpTokenCreate \<longrightarrow> k_Admin c \<or> \<not> k_AdminOnlyTokens c \<and> k_LiveTokens c < 10) \<and>
     (k_Op c = OpUserRemove \<longrightarrow> k_Target c \<noteq> k_Caller c) \<and>
     (k_Op c = OpUserRemove \<or> k_Op c = OpKeyRemove \<longrightarrow>
        k_OperatorDir c = '''' \<and>
        \<not> (k_TargetAdmin c \<and> 0 < k_TargetKeys c \<and> k_KeysLeft c = 0 \<and> k_OtherAdmins c = 0)) \<and>
     (k_Op c = OpKeyRemove \<longrightarrow> k_Target c = k_Caller c \<longrightarrow> \<not> k_Force c \<longrightarrow> \<not> k_Connected c \<and> k_KeysLeft c \<noteq> 0)"
  by (cases "k_Op c = OpUserRemove"; cases "k_Op c = OpKeyRemove"; cases "k_Op c = OpTokenCreate"; cases "k_Op c = OpWhoami")
    (auto simp: authorize_def authorize_removal_def maxSelfTokens_def)

definition admins_with_keys :: "string list \<Rightarrow> (string \<Rightarrow> nat option) \<Rightarrow> string set" where
  "admins_with_keys admins keys = {name \<in> set admins. \<exists>n. keys name = Some n \<and> 0 < n}"

text \<open>Claim C8. An allowed removal never leaves a workspace without an admin who holds a key, when it had one: the
  facts are those of the moment, and the removal leaves the target the number of keys it was judged by.\<close>

theorem removal_leaves_an_admin:
  assumes "op = OpUserRemove \<or> op = OpKeyRemove"
    and "c = (checkFor admins adminOnly keys op caller target)\<lparr>k_KeysLeft := int left, k_OperatorDir := dir, k_Connected := conn, k_Force := force\<rparr>"
    and "authorize c = None" and "admins_with_keys admins keys \<noteq> {}"
  shows "admins_with_keys admins (keys(target := Some left)) \<noteq> {}"
proof -
  let ?others = "filter (\<lambda>name. name \<noteq> target \<and> (case keys name of None \<Rightarrow> False | Some n \<Rightarrow> 0 < n)) (remdups admins)"
  have ok: "\<not> (target \<in> set admins \<and> 0 < (case keys target of None \<Rightarrow> 0 | Some n \<Rightarrow> int n) \<and> left = 0 \<and> ?others = [])"
    using assms(1,3) unfolding assms(2) by (auto simp: authorize_def authorize_removal_def checkFor_def split: if_splits)
  show ?thesis
  proof (cases "?others = []")
    case False
    then obtain name where "name \<in> set ?others" by (metis hd_in_set)
    then have "name \<in> admins_with_keys admins (keys(target := Some left))"
      by (auto simp: admins_with_keys_def split: option.splits)
    then show ?thesis by blast
  next
    case True
    from assms(4) obtain name n where n: "name \<in> set admins" "keys name = Some n" "0 < n"
      by (auto simp: admins_with_keys_def)
    have "name = target"
    proof (rule ccontr)
      assume "name \<noteq> target"
      with n have "name \<in> set ?others" by simp
      with True show False by (metis empty_iff empty_set)
    qed
    with ok n True have "target \<in> admins_with_keys admins (keys(target := Some left))"
      by (auto simp: admins_with_keys_def)
    then show ?thesis by blast
  qed
qed

text \<open>Claim C37. A token bound to an account enrols into that account and no other; an unbound one only creates,
  under a name that is a valid account name, is nobody's yet, and is neither reserved nor an admin's.\<close>

theorem redeemName_safe:
  assumes "redeemName other admins known bound asked = Inr (name, create)"
  shows "(bound \<noteq> '''' \<longrightarrow> name = bound \<and> \<not> create) \<and>
    (bound = '''' \<longrightarrow> create \<and> AccountName other asked = Some name \<and> known name = Some False \<and>
       name \<notin> set admins \<and> name \<notin> set reservedNames)"
  using assms by (auto simp: redeemName_def split: if_splits option.splits bool.splits)

section \<open>Witnesses\<close>

theorem authorize_policy_witness:
  "authorize (checkFor [''root''] False (\<lambda>_. Some 1) OpKeyList ''dev'' ''dev'') = None"
  unfolding authorize_policy by (simp add: checkFor_def)

theorem removal_leaves_an_admin_witness:
  "admins_with_keys [''a'', ''b''] ((\<lambda>_. Some 1)(''b'' := Some 0)) \<noteq> {}"
proof -
  let ?c = "(checkFor [''a'', ''b''] False (\<lambda>_. Some 1) OpUserRemove ''a'' ''b'')\<lparr>k_KeysLeft := int 0, k_OperatorDir := '''', k_Connected := False, k_Force := False\<rparr>"
  have "authorize ?c = None" by (simp add: authorize_def authorize_removal_def checkFor_def)
  moreover have "admins_with_keys [''a'', ''b''] (\<lambda>_. Some 1) \<noteq> {}" by (auto simp: admins_with_keys_def)
  ultimately show ?thesis
    using removal_leaves_an_admin [of OpUserRemove, OF _ refl, where left = 0 and target = "''b''"] by simp
qed

theorem redeemName_safe_witness:
  "redeemName id [] (\<lambda>_. Some False) ''dev'' '''' = Inr (''dev'', False)"
proof -
  have r: "redeemName id [] (\<lambda>_. Some False) ''dev'' '''' = Inr (''dev'', False)" by (simp add: redeemName_def)
  from redeemName_safe [OF r] r show ?thesis by blast
qed

end
