(* ===== verification/Account_Edits.thy ===== *)
theory Account_Edits
  imports Account_Uids Enrol_Policy
begin

text \<open>
  The writer of the enrolled keys directory (\<open>core-agent/accounts/keyfile_write.go\<close>) over the account
  store, and the removals of \<open>agent/internal/sshd/manage.go\<close> that use it.

  A workspace is its keys directories, the record of uids and the store. A change runs under the
  lock of its file, and the accounts are read again before it returns (\<open>edit\<close>). Whether the lock
  could be had and the disk takes a write are arguments, and so is what happened while an account's
  provisioning was waited for.

  The lemmas show that removing an account's file takes every key of it away before the call
  returns, that of any number of creations of one name at once exactly one succeeds whatever
  syncs run between their steps, and that the check of a removal and the removal are two
  steps: the last two admins can remove each other.
\<close>

section \<open>A change of the enrolled directory\<close>

record 'k ws =
  ws_view :: view
  ws_rcd :: file_state
  ws_store :: "'k store"

datatype edit_error =
  BadName
| NoEnrolledDir
| NotLocked
| CannotChange "key_error option"
| ErrAccountExists
| OperatorKeyError string "string \<times> string"
| CannotReadDirs
| NotReRead
| ErrProvisioning
| ErrNotProvisioned

definition enrolled :: "'k ws \<Rightarrow> directory" where
  "enrolled w = (case view_dir (ws_view w) (st_EnrolledDir (ws_store w)) of Dir d \<Rightarrow> d | _ \<Rightarrow> [])"

definition has_enrolled :: "'k ws \<Rightarrow> bool" where
  "has_enrolled w = (case view_dir (ws_view w) (st_EnrolledDir (ws_store w)) of Dir d \<Rightarrow> True | _ \<Rightarrow> False)"

definition set_enrolled :: "directory \<Rightarrow> 'k ws \<Rightarrow> 'k ws" where
  "set_enrolled d w = w\<lparr>ws_view := mput (st_EnrolledDir (ws_store w)) (Dir d) (ws_view w)\<rparr>"

definition ws_sync :: "'k ssh_lib \<Rightarrow> (nat \<Rightarrow> nat) \<Rightarrow> bool \<Rightarrow> 'k ws \<Rightarrow> bool \<times> 'k ws" where
  "ws_sync L other disk w =
     (case swap L other disk (ws_view w) (ws_rcd w, ws_store w) of
        (r, rcd, s) \<Rightarrow> (r \<noteq> None, w\<lparr>ws_rcd := rcd, ws_store := s\<rparr>))"

text \<open>The lock is a directory beside the file: it cannot be made while another writer has one, nor where
  the keys directory is missing or out of reach.\<close>

definition edit ::
    "'k ssh_lib \<Rightarrow> (nat \<Rightarrow> nat) \<Rightarrow> bool \<Rightarrow> bool \<Rightarrow> ('k ws \<Rightarrow> (edit_error + 'r) \<times> 'k ws) \<Rightarrow> 'k ws \<Rightarrow>
     (edit_error + 'r) \<times> 'k ws" where
  "edit L other locked disk change w =
     (if st_EnrolledDir (ws_store w) = '''' then (Inl NoEnrolledDir, w)
      else if \<not> locked \<or> \<not> has_enrolled w then (Inl NotLocked, w)
      else case change w of
             (Inl e, w') \<Rightarrow> (Inl e, w')
           | (Inr r, w') \<Rightarrow>
               (case ws_sync L other disk w' of
                  (True, w'') \<Rightarrow> (Inr r, w'')
                | (False, w'') \<Rightarrow> (Inl NotReRead, w'')))"

abbreviation pub :: "string \<Rightarrow> string" where
  "pub name \<equiv> name @ ''.pub''"

fun known_in :: "(nat \<Rightarrow> nat) \<Rightarrow> 'k store \<Rightarrow> view \<Rightarrow> string \<Rightarrow> string list \<Rightarrow> bool option" where
  "known_in other s view name [] = Some False"
| "known_in other s view name (dir # ds) =
     (case fileFor other s view dir name of
        None \<Rightarrow> None
      | Some (Some file) \<Rightarrow> Some True
      | Some None \<Rightarrow> known_in other s view name ds)"

definition Known :: "(nat \<Rightarrow> nat) \<Rightarrow> string \<Rightarrow> 'k ws \<Rightarrow> bool option" where
  "Known other account w =
     (case AccountName other account of
        None \<Rightarrow> None
      | Some name \<Rightarrow>
          (case loadUIDs (ws_rcd w) of
             None \<Rightarrow> None
           | Some uids \<Rightarrow>
               if mget uids name \<noteq> None then Some True
               else known_in other (ws_store w) (ws_view w) name (dirs (ws_store w))))"

fun operator_files :: "(nat \<Rightarrow> nat) \<Rightarrow> 'k store \<Rightarrow> view \<Rightarrow> string \<Rightarrow> string list \<Rightarrow> (string \<times> string) list option" where
  "operator_files other s view name [] = Some []"
| "operator_files other s view name (dir # ds) =
     (case fileFor other s view dir name of
        None \<Rightarrow> None
      | Some found \<Rightarrow>
          (case operator_files other s view name ds of
             None \<Rightarrow> None
           | Some rest \<Rightarrow> Some (case found of None \<Rightarrow> rest | Some file \<Rightarrow> (dir, file) # rest)))"

definition operatorFiles :: "(nat \<Rightarrow> nat) \<Rightarrow> string \<Rightarrow> 'k ws \<Rightarrow> (string \<times> string) list option" where
  "operatorFiles other name w = operator_files other (ws_store w) (ws_view w) name (st_KeysDirs (ws_store w))"

section \<open>Waiting for an account\<close>

text \<open>\<open>wait\<close> is what happened meanwhile, and whether the wait ran out.\<close>

definition awaitProvisioning :: "('k ws \<Rightarrow> 'k ws \<times> bool) \<Rightarrow> string \<Rightarrow> 'k ws \<Rightarrow> edit_error option \<times> 'k ws" where
  "awaitProvisioning wait name w =
     (let (w', timed_out) = (if mget (st_provisioning (ws_store w)) name \<noteq> None then wait w else (w, False))
      in if timed_out then (Some ErrProvisioning, w')
         else if mget (st_provisioned (ws_store w')) name = None then (Some ErrNotProvisioned, w')
         else (None, w'))"

definition withdraw ::
    "'k ssh_lib \<Rightarrow> (nat \<Rightarrow> nat) \<Rightarrow> bool \<Rightarrow> string \<Rightarrow> string \<Rightarrow> bool \<Rightarrow> 'k ws \<Rightarrow> (edit_error + unit) \<times> 'k ws" where
  "withdraw L other disk name fingerprint release w =
     (case removeKeyLine L disk (pub name) fingerprint (enrolled w) of
        (Inl e, d) \<Rightarrow> (Inl (CannotChange e), set_enrolled d w)
      | (Inr removed, d) \<Rightarrow>
          (let w' = set_enrolled d w
           in if release
              then (case releaseName other disk (ws_view w') name (ws_rcd w', ws_store w') of
                      (rcd, s) \<Rightarrow> (Inr (), w'\<lparr>ws_rcd := rcd, ws_store := s\<rparr>))
              else (Inr (), w')))"

definition awaitOrWithdraw ::
    "'k ssh_lib \<Rightarrow> (nat \<Rightarrow> nat) \<Rightarrow> bool \<Rightarrow> bool \<Rightarrow> ('k ws \<Rightarrow> 'k ws \<times> bool) \<Rightarrow> string \<Rightarrow> string \<Rightarrow> bool \<Rightarrow> 'k ws \<Rightarrow>
     edit_error option \<times> 'k ws" where
  "awaitOrWithdraw L other locked disk wait name fingerprint release w =
     (case awaitProvisioning wait name w of
        (Some ErrNotProvisioned, w') \<Rightarrow>
          (Some ErrNotProvisioned, snd (edit L other locked disk (withdraw L other disk name fingerprint release) w'))
      | r \<Rightarrow> r)"

section \<open>The operations\<close>

definition append_change ::
    "'k ssh_lib \<Rightarrow> bool \<Rightarrow> string \<Rightarrow> 'k \<Rightarrow> string \<Rightarrow> 'k ws \<Rightarrow> (edit_error + bool) \<times> 'k ws" where
  "append_change L disk name key comment w =
     (case appendKeyLine L disk (pub name) key comment (enrolled w) of
        (Inl e, d) \<Rightarrow> (Inl (CannotChange e), set_enrolled d w)
      | (Inr added, d) \<Rightarrow> (Inr added, set_enrolled d w))"

definition AppendKey ::
    "'k ssh_lib \<Rightarrow> (nat \<Rightarrow> nat) \<Rightarrow> bool \<Rightarrow> bool \<Rightarrow> ('k ws \<Rightarrow> 'k ws \<times> bool) \<Rightarrow> string \<Rightarrow> 'k \<Rightarrow> string \<Rightarrow> 'k ws \<Rightarrow>
     (bool \<times> edit_error option) \<times> 'k ws" where
  "AppendKey L other locked disk wait account key comment w =
     (case AccountName other account of
        None \<Rightarrow> ((False, Some BadName), w)
      | Some name \<Rightarrow>
          (case edit L other locked disk (append_change L disk name key comment) w of
             (Inl e, w') \<Rightarrow> ((False, Some e), w')
           | (Inr False, w') \<Rightarrow> (case awaitProvisioning wait name w' of (e, w'') \<Rightarrow> ((False, e), w''))
           | (Inr True, w') \<Rightarrow>
               (case awaitOrWithdraw L other locked disk wait name (FingerprintSHA256 L key) False w' of
                  (e, w'') \<Rightarrow> ((True, e), w''))))"

text \<open>\<open>CreateAccount\<close>'s change: the name is free, and the file is linked into place, which fails if one is there.\<close>

definition link_key :: "'k ssh_lib \<Rightarrow> bool \<Rightarrow> string \<Rightarrow> 'k \<Rightarrow> string \<Rightarrow> directory \<Rightarrow> (edit_error + unit) \<times> directory" where
  "link_key L disk name key comment d =
     (if \<not> disk then (Inl (CannotChange None), d)
      else if mget d (pub name) \<noteq> None then (Inl ErrAccountExists, d)
      else (Inr (), mput (pub name) (Data (keyLineFor L key comment @ [newline])) d))"

definition create_change ::
    "'k ssh_lib \<Rightarrow> (nat \<Rightarrow> nat) \<Rightarrow> bool \<Rightarrow> string \<Rightarrow> 'k \<Rightarrow> string \<Rightarrow> 'k ws \<Rightarrow> (edit_error + unit) \<times> 'k ws" where
  "create_change L other disk name key comment w =
     (case Known other name w of
        None \<Rightarrow> (Inl CannotReadDirs, w)
      | Some True \<Rightarrow> (Inl ErrAccountExists, w)
      | Some False \<Rightarrow> (case link_key L disk name key comment (enrolled w) of (r, d) \<Rightarrow> (r, set_enrolled d w)))"

definition CreateAccount ::
    "'k ssh_lib \<Rightarrow> (nat \<Rightarrow> nat) \<Rightarrow> bool \<Rightarrow> bool \<Rightarrow> ('k ws \<Rightarrow> 'k ws \<times> bool) \<Rightarrow> string \<Rightarrow> 'k \<Rightarrow> string \<Rightarrow> 'k ws \<Rightarrow>
     edit_error option \<times> 'k ws" where
  "CreateAccount L other locked disk wait account key comment w =
     (case AccountName other account of
        None \<Rightarrow> (Some BadName, w)
      | Some name \<Rightarrow>
          (case edit L other locked disk (create_change L other disk name key comment) w of
             (Inl e, w') \<Rightarrow> (Some e, w')
           | (Inr u, w') \<Rightarrow> awaitOrWithdraw L other locked disk wait name (FingerprintSHA256 L key) True w'))"

fun operator_holds :: "'k ssh_lib \<Rightarrow> view \<Rightarrow> string \<Rightarrow> (string \<times> string) list \<Rightarrow> (string \<times> string) option" where
  "operator_holds L view fingerprint [] = None"
| "operator_holds L view fingerprint ((dir, file) # files) =
     (case readLines (case view_dir view dir of Dir d \<Rightarrow> d | _ \<Rightarrow> []) file of
        Inl e \<Rightarrow> operator_holds L view fingerprint files
      | Inr lines \<Rightarrow>
          if snd (withoutKey L lines fingerprint) then Some (dir, file)
          else operator_holds L view fingerprint files)"

definition RemoveKey ::
    "'k ssh_lib \<Rightarrow> (nat \<Rightarrow> nat) \<Rightarrow> bool \<Rightarrow> bool \<Rightarrow> string \<Rightarrow> string \<Rightarrow> 'k ws \<Rightarrow> (edit_error + bool) \<times> 'k ws" where
  "RemoveKey L other locked disk account fingerprint w =
     (case AccountName other account of
        None \<Rightarrow> (Inl BadName, w)
      | Some name \<Rightarrow>
          (case operatorFiles other name w of
             None \<Rightarrow> (Inl CannotReadDirs, w)
           | Some files \<Rightarrow>
               (case operator_holds L (ws_view w) fingerprint files of
                  Some file \<Rightarrow> (Inl (OperatorKeyError (''key '' @ fingerprint) file), w)
                | None \<Rightarrow>
                    edit L other locked disk
                      (\<lambda>w. case removeKeyLine L disk (pub name) fingerprint (enrolled w) of
                             (Inl e, d) \<Rightarrow> (Inl (CannotChange e), set_enrolled d w)
                           | (Inr removed, d) \<Rightarrow> (Inr removed, set_enrolled d w)) w)))"

definition remove_file :: "bool \<Rightarrow> string \<Rightarrow> directory \<Rightarrow> (edit_error + unit) \<times> directory" where
  "remove_file disk name d =
     (if mget d (pub name) = None then (Inr (), d)
      else if disk then (Inr (), mdel (pub name) d)
      else (Inl (CannotChange None), d))"

definition RemoveAccountFile ::
    "'k ssh_lib \<Rightarrow> (nat \<Rightarrow> nat) \<Rightarrow> bool \<Rightarrow> bool \<Rightarrow> string \<Rightarrow> 'k ws \<Rightarrow> (edit_error + unit) \<times> 'k ws" where
  "RemoveAccountFile L other locked disk account w =
     (case AccountName other account of
        None \<Rightarrow> (Inl BadName, w)
      | Some name \<Rightarrow>
          (case operatorFiles other name w of
             None \<Rightarrow> (Inl CannotReadDirs, w)
           | Some (file # files) \<Rightarrow> (Inl (OperatorKeyError (''a key file for '' @ name) file), w)
           | Some [] \<Rightarrow>
               edit L other locked disk
                 (\<lambda>w. case remove_file disk name (enrolled w) of (r, d) \<Rightarrow> (r, set_enrolled d w)) w))"

section \<open>Taking an account's file away\<close>

text \<open>Without one file that derives an account's name, a directory enrols the other accounts as before.\<close>

lemma claim_files_without:
  assumes "account_of other file = Some name" and "\<And>m. m \<noteq> name \<Longrightarrow> (mget c m = None) = (mget c' m = None)"
  shows "filter (\<lambda>f. f_account f \<noteq> name) (claim_files other (filter (\<lambda>g. g \<noteq> file) files) c) =
    filter (\<lambda>f. f_account f \<noteq> name) (claim_files other files c')"
  using assms(2)
proof (induction files arbitrary: c c')
  case (Cons g files)
  have same: "m \<noteq> name \<Longrightarrow> (mget (mput n g c) m = None) = (mget (mput n g c') m = None)" for n m
    using Cons.prems [of m] by simp
  show ?case
  proof (cases "account_of other g")
    case None
    with Cons.IH [OF Cons.prems] assms(1) show ?thesis by auto
  next
    case (Some n)
    show ?thesis
    proof (cases "n = name")
      case True
      have "m \<noteq> name \<Longrightarrow> (mget (mput name g c) m = None) = (mget c' m = None)"
        "m \<noteq> name \<Longrightarrow> (mget (mput name g c) m = None) = (mget (mput name g c') m = None)"
        "m \<noteq> name \<Longrightarrow> (mget c m = None) = (mget (mput name g c') m = None)" for m
        using Cons.prems [of m] by simp_all
      note IHs = Cons.IH [OF Cons.prems] Cons.IH [of "mput name g c" c', OF this(1)]
        Cons.IH [of "mput name g c" "mput name g c'", OF this(2)] Cons.IH [of c "mput name g c'", OF this(3)]
      with Some True show ?thesis by simp
    next
      case False
      with Some assms(1) have "g \<noteq> file" by auto
      with Some False Cons.prems [OF False] Cons.IH [OF Cons.prems] Cons.IH [OF same] show ?thesis by simp
    qed
  qed
qed simp

lemma names_without: "map fst (filter key_entry (mdel file d)) = filter (\<lambda>g. g \<noteq> file) (map fst (filter key_entry d))"
  by (induction d) auto

lemma keyFiles_in_without:
  assumes "account_of other file = Some name"
  shows "filter (\<lambda>f. f_account f \<noteq> name) (keyFiles_in other (mdel file d)) =
    filter (\<lambda>f. f_account f \<noteq> name) (keyFiles_in other d)"
proof -
  have "sort (filter P (filter (\<lambda>g. g \<noteq> file) xs)) = filter (\<lambda>g. g \<noteq> file) (sort (filter P xs))" for P and xs :: "string list"
    unfolding filter_sort by (simp add: conj_commute)
  note sorts = this
  show ?thesis
    unfolding keyFiles_in_def Let_def names_without sorts filter_append [symmetric]
    by (rule claim_files_without [OF assms]) simp
qed

lemma keyFiles_in_mem:
  "f \<in> set (keyFiles_in other d) \<Longrightarrow> \<exists>ent. (f_file f, ent) \<in> set d \<and> key_entry (f_file f, ent) \<and> account_of other (f_file f) = Some (f_account f)"
  using keyFiles_in_first by blast

lemma pub_account:
  assumes "account_shape name"
  shows "account_of other (pub name) = Some name"
  using AccountName_of_shape [OF assms] by simp

text \<open>The sources of an account are read from its own files alone.\<close>

lemma dir_sources_cong:
  assumes "filter (\<lambda>f. f_account f = n) (files_of other view dir) = filter (\<lambda>f. f_account f = n) (files_of other view' dir)"
    and "\<And>f. f \<in> set (files_of other view dir) \<Longrightarrow> f_account f = n \<Longrightarrow>
      mget (entries_of view dir) (f_file f) = mget (entries_of view' dir) (f_file f)"
  shows "dir_sources L other s view dir n = dir_sources L other s view' dir n"
proof -
  have only: "concat (map (\<lambda>f. if f_account f = n then g f else []) fs) = concat (map g (filter (\<lambda>f. f_account f = n) fs))"
    for g :: "namedFile \<Rightarrow> 'a keySource list" and fs
    by (induction fs) auto
  show ?thesis
    unfolding dir_sources_def only assms(1)
  proof (intro arg_cong [where f = concat] map_cong refl)
    fix f
    assume "f \<in> set (filter (\<lambda>f. f_account f = n) (files_of other view' dir))"
    then have "f \<in> set (filter (\<lambda>f. f_account f = n) (files_of other view dir))" by (simp only: assms(1))
    then have "mget (entries_of view dir) (f_file f) = mget (entries_of view' dir) (f_file f)"
      using assms(2) by simp
    then have "file_at (entries_of view dir) (f_file f) = file_at (entries_of view' dir) (f_file f)" by (simp add: file_at_def)
    then show "(case file_source L s dir (entries_of view dir) f of None \<Rightarrow> [] | Some src \<Rightarrow> [src]) =
        (case file_source L s dir (entries_of view' dir) f of None \<Rightarrow> [] | Some src \<Rightarrow> [src])"
      by (simp add: file_source_def)
  qed
qed

lemma view_set [simp]:
  "view_dir (mput dir st view) dir' = (if dir' = dir then st else view_dir view dir')"
  by (simp add: view_dir_def)

text \<open>A directory without the file of an account.\<close>

lemma sources_without_own:
  assumes "view_dir view dir = Dir d" and "account_shape name"
    and "\<And>file ent. (file, ent) \<in> set d \<Longrightarrow> key_entry (file, ent) \<Longrightarrow> account_of other file = Some name \<Longrightarrow> file = pub name"
  shows "dir_sources L other s (mput dir (Dir (mdel (pub name) d)) view) dir name = []"
proof -
  let ?d = "mdel (pub name) d"
  have "f_account f \<noteq> name" if f: "f \<in> set (keyFiles_in other ?d)" for f
  proof
    assume "f_account f = name"
    with keyFiles_in_mem [OF f] obtain ent where e: "(f_file f, ent) \<in> set ?d" "key_entry (f_file f, ent)"
      "account_of other (f_file f) = Some name" by auto
    then have "(f_file f, ent) \<in> set d" "f_file f \<noteq> pub name" by (auto simp: AList.delete_eq)
    with e assms(3) show False by blast
  qed
  then show ?thesis by (auto simp: dir_sources_def files_of_def)
qed

lemma sources_without_other:
  assumes "view_dir view dir = Dir d" and "account_shape name" and "n \<noteq> name"
  shows "dir_sources L other s (mput dir (Dir (mdel (pub name) d)) view) dir n = dir_sources L other s view dir n"
proof (rule dir_sources_cong)
  let ?view = "mput dir (Dir (mdel (pub name) d)) view"
  have "filter (\<lambda>f. f_account f = n) fs = filter (\<lambda>f. f_account f = n) (filter (\<lambda>f. f_account f \<noteq> name) fs)" for fs
    using assms(3) by (simp add: conj_commute) (metis (mono_tags, lifting) filter_cong)
  note only = this
  have "filter (\<lambda>f. f_account f = n) (keyFiles_in other (mdel (pub name) d)) = filter (\<lambda>f. f_account f = n) (keyFiles_in other d)"
    by (subst (1 2) only) (simp only: keyFiles_in_without [OF pub_account [OF assms(2)]])
  then show "filter (\<lambda>f. f_account f = n) (files_of other ?view dir) = filter (\<lambda>f. f_account f = n) (files_of other view dir)"
    by (simp add: files_of_def assms(1))
  fix f
  assume "f \<in> set (files_of other ?view dir)" "f_account f = n"
  then have "f_file f \<noteq> pub name" using keyFiles_in_mem pub_account [OF assms(2), of other] assms(3)
    by (fastforce simp: files_of_def)
  then show "mget (entries_of ?view dir) (f_file f) = mget (entries_of view dir) (f_file f)"
    by (simp add: assms(1))
qed

lemma enrolled_set [simp]:
  "enrolled (set_enrolled d w) = d" "ws_rcd (set_enrolled d w) = ws_rcd w" "ws_store (set_enrolled d w) = ws_store w"
  by (simp_all add: enrolled_def set_enrolled_def)

lemma view_set_enrolled [simp]:
  "view_dir (ws_view (set_enrolled d w)) dir = (if dir = st_EnrolledDir (ws_store w) then Dir d else view_dir (ws_view w) dir)"
  by (simp add: set_enrolled_def)

lemma ws_sync_ok:
  assumes "ws_sync L other disk w = (True, w')"
  obtains started rcd' s' where "swap L other disk (ws_view w) (ws_rcd w, ws_store w) = (Some started, rcd', s')"
    and "w' = w\<lparr>ws_rcd := rcd', ws_store := s'\<rparr>"
  using assms by (auto simp: ws_sync_def split: prod.splits)

lemma ws_sync_keeps:
  assumes "ws_sync L other disk w = (ok, w')"
  shows "ws_view w' = ws_view w" and "st_EnrolledDir (ws_store w') = st_EnrolledDir (ws_store w)"
    and "st_KeysDirs (ws_store w') = st_KeysDirs (ws_store w)" and "st_provisioned (ws_store w') = st_provisioned (ws_store w)"
    and "enrolled w' = enrolled w" and "keyed_provisioned (ws_store w) \<Longrightarrow> keyed_provisioned (ws_store w')"
proof -
  obtain r rcd' s' where sw: "swap L other disk (ws_view w) (ws_rcd w, ws_store w) = (r, rcd', s')" by (metis prod_cases3)
  with assms have w': "w' = w\<lparr>ws_rcd := rcd', ws_store := s'\<rparr>" by (simp add: ws_sync_def)
  have "st_EnrolledDir s' = st_EnrolledDir (ws_store w) \<and> st_KeysDirs s' = st_KeysDirs (ws_store w) \<and>
      st_provisioned s' = st_provisioned (ws_store w) \<and> (keyed_provisioned (ws_store w) \<longrightarrow> keyed_provisioned s')"
  proof (cases r)
    case None
    with sw have "(rcd', s') = (ws_rcd w, ws_store w)" using swap_None by fastforce
    then show ?thesis by simp
  next
    case (Some started)
    note sw' = sw [unfolded Some]
    from swap_keyed [OF sw'] swap_result [OF sw'] show ?thesis unfolding sync_result_def by metis
  qed
  with w' show "ws_view w' = ws_view w" "st_EnrolledDir (ws_store w') = st_EnrolledDir (ws_store w)"
    "st_KeysDirs (ws_store w') = st_KeysDirs (ws_store w)" "st_provisioned (ws_store w') = st_provisioned (ws_store w)"
    "enrolled w' = enrolled w" "keyed_provisioned (ws_store w) \<Longrightarrow> keyed_provisioned (ws_store w')"
    by (simp_all add: enrolled_def)
qed

text \<open>The keys a sync of the workspace as it is would let in.\<close>

definition enrolled_keys :: "'k ssh_lib \<Rightarrow> (nat \<Rightarrow> nat) \<Rightarrow> 'k ws \<Rightarrow> string \<Rightarrow> string set" where
  "enrolled_keys L other w n =
     (if mget (st_provisioned (ws_store w)) n = None then {} else enrolled_fps L other (ws_store w) (ws_view w) n)"

lemma login_synced:
  assumes "ws_sync L other disk w = (True, w')" and "keyed_provisioned (ws_store w)"
  shows "login_fps L (ws_store w') n = enrolled_keys L other w n"
  using assms(1)
proof (rule ws_sync_ok)
  fix started rcd' s'
  assume "swap L other disk (ws_view w) (ws_rcd w, ws_store w) = (Some started, rcd', s')" and "w' = w\<lparr>ws_rcd := rcd', ws_store := s'\<rparr>"
  with login_fps_synced [OF this(1) assms(2), of n] show ?thesis by (simp add: enrolled_keys_def)
qed

text \<open>The file an edit leaves, with the sync that follows it.\<close>

lemma edit_ok:
  assumes "edit L other locked disk change w = (Inr r, w')"
  obtains w1 where "change w = (Inr r, w1)" and "ws_sync L other disk w1 = (True, w')" and "has_enrolled w"
  using assms by (auto simp: edit_def split: if_splits sum.splits prod.splits bool.splits)

lemma operator_files_none:
  "operator_files other s view name ds = Some [] \<Longrightarrow> dir \<in> set ds \<Longrightarrow> fileFor other s view dir name = Some None"
  by (induction ds) (auto split: option.splits)

lemma fileFor_none:
  assumes "fileFor other s view dir name = Some None" and "f \<in> set (files_of other view dir)"
  shows "f_account f \<noteq> name"
proof -
  from assms(1) obtain files where "keyFiles other (st_EnrolledDir s) dir (view_dir view dir) = Some files"
    and "find (\<lambda>f. f_account f = name) files = None" by (auto simp: fileFor_def split: option.splits)
  with keyFiles_files [of other "st_EnrolledDir s" dir view files] assms(2) show ?thesis
    by (auto simp: find_None_iff)
qed

lemma no_files_no_sources: "(\<And>f. f \<in> set (files_of other view dir) \<Longrightarrow> f_account f \<noteq> n) \<Longrightarrow> dir_sources L other s view dir n = []"
  by (auto simp: dir_sources_def)

lemma sources_read_cong:
  "(\<And>dir. dir \<in> set (dirs s) \<Longrightarrow> dir_sources L other s view dir n = dir_sources L other s view' dir n) \<Longrightarrow>
     sources_read L other s view n = sources_read L other s view' n"
  unfolding sources_read_def by (intro arg_cong [where f = concat] map_cong refl)

text \<open>The directory once the file of an account is out.\<close>

abbreviation without_file :: "string \<Rightarrow> 'k ws \<Rightarrow> 'k ws" where
  "without_file name w \<equiv> set_enrolled (mdel (pub name) (enrolled w)) w"

lemma remove_file_del: "remove_file disk name d = (Inr (), d') \<Longrightarrow> d' = mdel (pub name) d"
  by (auto simp: remove_file_def mget_None_iff delete_id image_iff split: if_splits)

lemma RemoveAccountFile_ok:
  assumes "RemoveAccountFile L other locked disk account w = (Inr (), w')"
  obtains name where "AccountName other account = Some name" and "operatorFiles other name w = Some []"
    and "ws_sync L other disk (without_file name w) = (True, w')" and "has_enrolled w"
proof -
  from assms obtain name where name: "AccountName other account = Some name" "operatorFiles other name w = Some []"
    and e: "edit L other locked disk (\<lambda>w. case remove_file disk name (enrolled w) of (r, d) \<Rightarrow> (r, set_enrolled d w)) w = (Inr (), w')"
    by (auto simp: RemoveAccountFile_def split: option.splits list.splits)
  show ?thesis
  proof (rule edit_ok [OF e])
    fix w1
    assume c: "(case remove_file disk name (enrolled w) of (r, d) \<Rightarrow> (r, set_enrolled d w)) = (Inr (), w1)"
      and s: "ws_sync L other disk w1 = (True, w')" "has_enrolled w"
    from c obtain d where "remove_file disk name (enrolled w) = (Inr (), d)" "w1 = set_enrolled d w"
      by (auto split: prod.splits)
    with remove_file_del have "w1 = without_file name w" by blast
    with that [OF name] s show ?thesis by simp
  qed
qed

text \<open>No other file of the enrolled directory derives the name: nobody put one there by hand.\<close>

definition own_file_only :: "(nat \<Rightarrow> nat) \<Rightarrow> string \<Rightarrow> directory \<Rightarrow> bool" where
  "own_file_only other name d \<longleftrightarrow>
     list_all (\<lambda>e. key_entry e \<longrightarrow> account_of other (fst e) = Some name \<longrightarrow> fst e = pub name) d"

lemma entries_enrolled: "view_dir (ws_view w) (st_EnrolledDir (ws_store w)) = Dir d \<Longrightarrow> enrolled w = d"
  by (simp add: enrolled_def)

lemma without_file_sources:
  assumes "operatorFiles other name w = Some []" and "account_shape name" and "own_file_only other name (enrolled w)"
  shows "sources_read L other (ws_store w) (ws_view (without_file name w)) n =
    (if n = name then [] else sources_read L other (ws_store w) (ws_view w) n)"
proof -
  let ?s = "ws_store w" and ?v = "ws_view (without_file name w)"
  let ?e = "st_EnrolledDir ?s"
  have dir: "dir \<in> set (dirs ?s) \<Longrightarrow> dir = ?e \<or> dir \<in> set (st_KeysDirs ?s)" for dir by (auto simp: dirs_def split: if_splits)
  have elsewhere: "dir \<noteq> ?e \<Longrightarrow> dir_sources L other ?s ?v dir n = dir_sources L other ?s (ws_view w) dir n" for dir
    by (simp add: dir_sources_def files_of_def set_enrolled_def cong: if_cong)
  have op: "dir \<in> set (st_KeysDirs ?s) \<Longrightarrow> dir_sources L other ?s (ws_view w) dir name = []" for dir
    using assms(1) operator_files_none fileFor_none no_files_no_sources unfolding operatorFiles_def by metis
  show ?thesis
  proof (cases "\<exists>d. view_dir (ws_view w) ?e = Dir d")
    case True
    then obtain d where d: "view_dir (ws_view w) ?e = Dir d" by blast
    then have v: "?v = mput ?e (Dir (mdel (pub name) d)) (ws_view w)" by (simp add: set_enrolled_def enrolled_def)
    have own: "dir_sources L other ?s ?v ?e name = []"
      unfolding v using assms(3) by (intro sources_without_own [OF d assms(2)]) (auto simp: own_file_only_def list_all_iff entries_enrolled [OF d])
    show ?thesis
    proof (cases "n = name")
      case True
      have "dir_sources L other ?s ?v dir name = []" if "dir \<in> set (dirs ?s)" for dir
        using own elsewhere [of dir] op [of dir] dir [OF that] True by (cases "dir = ?e") auto
      with True show ?thesis by (auto simp: sources_read_def)
    next
      case False
      have "dir_sources L other ?s ?v ?e n = dir_sources L other ?s (ws_view w) ?e n"
        unfolding v by (rule sources_without_other [OF d assms(2) False])
      with elsewhere have "dir_sources L other ?s ?v dir n = dir_sources L other ?s (ws_view w) dir n" for dir
        by (cases "dir = ?e") simp_all
      with False show ?thesis by (simp add: sources_read_def)
    qed
  next
    case False
    then have "enrolled w = []" by (auto simp: enrolled_def split: dir_state.splits)
    then have "dir_sources L other ?s ?v ?e m = []" "dir_sources L other ?s (ws_view w) ?e m = []" for m
      using False by (auto simp: dir_sources_def files_of_def set_enrolled_def keyFiles_in_def split: dir_state.splits)
    then have "dir_sources L other ?s ?v dir n = dir_sources L other ?s (ws_view w) dir n"
      "dir \<in> set (dirs ?s) \<Longrightarrow> dir_sources L other ?s (ws_view w) dir name = []" for dir
      using elsewhere [of dir] op [of dir] dir [of dir] by (cases "dir = ?e"; auto)+
    then show ?thesis by (auto simp: sources_read_def)
  qed
qed

text \<open>Removing an account's file takes every key from the account before the call returns, and every
  other account has the keys it would have had without the removal.\<close>

theorem RemoveAccountFile_revokes:
  assumes "RemoveAccountFile L other locked disk account w = (Inr (), w')" and "AccountName other account = Some name"
    and "keyed_provisioned (ws_store w)" and "own_file_only other name (enrolled w)"
  shows "login_fps L (ws_store w') n = (if n = name then {} else enrolled_keys L other w n)"
  using assms(1)
proof (rule RemoveAccountFile_ok)
  fix m
  assume "AccountName other account = Some m" and op: "operatorFiles other m w = Some []"
    and sync: "ws_sync L other disk (without_file m w) = (True, w')"
  with assms(2) have [simp]: "m = name" by simp
  have "login_fps L (ws_store w') n = enrolled_keys L other (without_file name w) n"
    using login_synced [OF sync] assms(3) by simp
  moreover have "enrolled_fps L other (ws_store w) (ws_view (without_file name w)) n =
      (if n = name then {} else enrolled_fps L other (ws_store w) (ws_view w) n)"
    unfolding enrolled_fps_def
    using without_file_sources [OF op [simplified] AccountName_shape [OF assms(2)] assms(4), of L n] by simp
  ultimately show ?thesis by (cases "n = name") (simp_all add: enrolled_keys_def)
qed

section \<open>A change that succeeds\<close>

lemma read_dirs_total:
  "(\<And>dir. dir \<in> set ds \<Longrightarrow> keyFiles other (st_EnrolledDir s) dir (view_dir view dir) \<noteq> None) \<Longrightarrow>
     read_dirs L other s view ds acc \<noteq> None"
proof (induction ds arbitrary: acc)
  case (Cons dir ds)
  then obtain files where "keyFiles other (st_EnrolledDir s) dir (view_dir view dir) = Some files" by fastforce
  with Cons show ?case by simp
qed simp

definition readable :: "'k ws \<Rightarrow> bool" where
  "readable w \<longleftrightarrow> loadUIDs (ws_rcd w) \<noteq> None \<and>
     list_all (\<lambda>dir. case view_dir (ws_view w) dir of Dir d \<Rightarrow> True | NoDir \<Rightarrow> dir = st_EnrolledDir (ws_store w) | BadDir \<Rightarrow> False)
       (dirs (ws_store w))"

lemma readable_keyFiles:
  assumes "readable w" and "dir \<in> set (dirs (ws_store w))"
  shows "keyFiles other (st_EnrolledDir (ws_store w)) dir (view_dir (ws_view w) dir) \<noteq> None"
  using assms by (auto simp: readable_def list_all_iff keyFiles_def split: dir_state.splits)

lemma readable_set_enrolled: "readable w \<Longrightarrow> readable (set_enrolled d w)"
  unfolding readable_def list_all_iff enrolled_set by (simp add: set_enrolled_def)

lemma ws_sync_succeeds:
  assumes "readable w"
  shows "fst (ws_sync L other True w)"
proof -
  obtain uids where load: "loadUIDs (ws_rcd w) = Some uids" using assms by (auto simp: readable_def)
  have "read_dirs L other (ws_store w) (ws_view w) (dirs (ws_store w)) ([], []) \<noteq> None"
    by (rule read_dirs_total) (rule readable_keyFiles [OF assms])
  then obtain found un where "read_dirs L other (ws_store w) (ws_view w) (dirs (ws_store w)) ([], []) = Some (found, un)" by auto
  with load have "fst (swap L other True (ws_view w) (ws_rcd w, ws_store w)) \<noteq> None"
    by (auto simp: swap_def reconcile_def saveUIDs_def WriteRecord_def Let_def split: prod.splits)
  then show ?thesis by (cases "swap L other True (ws_view w) (ws_rcd w, ws_store w)") (simp add: ws_sync_def)
qed

lemma RemoveAccountFile_succeeds:
  assumes "readable w" and "AccountName other account = Some name" and "operatorFiles other name w = Some []"
    and "st_EnrolledDir (ws_store w) \<noteq> ''''" and "has_enrolled w"
  shows "\<exists>w'. RemoveAccountFile L other True True account w = (Inr (), w')"
proof -
  have "remove_file True name (enrolled w) = (Inr (), mdel (pub name) (enrolled w))"
    by (simp add: remove_file_def mget_None_iff delete_id)
  moreover from ws_sync_succeeds [OF readable_set_enrolled [OF assms(1)]]
  obtain w' where "ws_sync L other True (without_file name w) = (True, w')" by (metis prod.collapse)
  ultimately show ?thesis using assms(2-5) by (simp add: RemoveAccountFile_def edit_def)
qed

section \<open>Removing an account\<close>

text \<open>The facts a removal of an account is decided on, taken from the store: how many keys each account
  has, and whether an operator's directory enrols the target.\<close>

definition keys_of :: "'k store \<Rightarrow> string \<Rightarrow> nat option" where
  "keys_of s name = map_option (\<lambda>a. length (a_Keys a)) (Lookup_account s name)"

definition operator_dir :: "'k store \<Rightarrow> string \<Rightarrow> string" where
  "operator_dir s target =
     (case Lookup_account s target of
        None \<Rightarrow> ''''
      | Some a \<Rightarrow> fold (\<lambda>src dir. if s_Dir src \<noteq> st_EnrolledDir s then s_Dir src else dir) (a_Sources a) '''')"

definition userRemove_check :: "string list \<Rightarrow> bool \<Rightarrow> 'k store \<Rightarrow> string \<Rightarrow> string \<Rightarrow> check" where
  "userRemove_check admins adminOnly s caller target =
     (checkFor admins adminOnly (keys_of s) OpUserRemove caller target)\<lparr>k_OperatorDir := operator_dir s target\<rparr>"

text \<open>What else the request asks of the workspace, and how its calls turned out.\<close>

record remove_env =
  e_Running :: int
  e_Writable :: bool
  e_Locked :: bool
  e_Disk :: bool
  e_Reset :: bool
  e_Shared :: bool
  e_Purge :: bool
  e_Forget :: bool

datatype remove_error =
  Refused enrol_error
| NoAccount string
| CannotTellRunning string
| IsRunning string int
| CannotStoreKeys
| NotWritten edit_error

datatype notice =
  DaemonLeft string
| FilesLeft string
| PortsLeft string
| SharedDaemon string
| StillAdmin string

datatype remove_effect = RevokeTokens | FileRemoved | ResetDaemon bool | PurgeAccount | DropRuns | ForgetPorts

definition remove_guard :: "remove_env \<Rightarrow> string list \<Rightarrow> bool \<Rightarrow> string \<Rightarrow> string \<Rightarrow> bool \<Rightarrow> 'k store \<Rightarrow> remove_error option" where
  "remove_guard e admins adminOnly caller target force s =
     (case authorize (userRemove_check admins adminOnly s caller target) of
        Some err \<Rightarrow> Some (Refused err)
      | None \<Rightarrow>
          if Lookup_account s target = None then Some (NoAccount target)
          else if \<not> force \<and> e_Running e < 0 then Some (CannotTellRunning target)
          else if \<not> force \<and> e_Running e > 0 then Some (IsRunning target (e_Running e))
          else if \<not> e_Writable e then Some CannotStoreKeys
          else None)"

text \<open>After the guards: the tokens of the account are revoked, its file is removed, and then its daemon,
  its files, its runs and its ports.\<close>

definition storage_gone :: "remove_env \<Rightarrow> bool \<Rightarrow> bool" where
  "storage_gone e purge \<longleftrightarrow> e_Reset e \<and> purge \<and> \<not> e_Shared e"

definition after_removal :: "remove_env \<Rightarrow> string list \<Rightarrow> string \<Rightarrow> bool \<Rightarrow> bool \<Rightarrow> notice list \<times> remove_effect list" where
  "after_removal e admins target purge purged =
     ((if e_Reset e then [] else [DaemonLeft target]) @
      (if purge \<and> \<not> purged then [FilesLeft target] else []) @
      (if storage_gone e purge \<and> \<not> e_Forget e then [PortsLeft target] else []) @
      (if e_Shared e then [SharedDaemon target] else []) @
      (if target \<in> set admins then [StillAdmin target] else []),
      ResetDaemon purge # (if purge then [PurgeAccount] else []) @
      (if storage_gone e purge then [DropRuns, ForgetPorts] else []))"

definition userRemove ::
    "'k ssh_lib \<Rightarrow> (nat \<Rightarrow> nat) \<Rightarrow> remove_env \<Rightarrow> string list \<Rightarrow> bool \<Rightarrow> string \<Rightarrow> string \<Rightarrow> bool \<Rightarrow> bool \<Rightarrow> 'k ws \<Rightarrow>
     (remove_error + notice list) \<times> remove_effect list \<times> 'k ws" where
  "userRemove L other e admins adminOnly caller target force purge w =
     (case remove_guard e admins adminOnly caller target force (ws_store w) of
        Some err \<Rightarrow> (Inl err, [], w)
      | None \<Rightarrow>
          (case RemoveAccountFile L other (e_Locked e) (e_Disk e) target w of
             (Inl err, w') \<Rightarrow> (Inl (NotWritten err), [RevokeTokens], w')
           | (Inr u, w') \<Rightarrow>
               (let (purged, s') = (if purge then Purge target (ws_store w') else (None, ws_store w'));
                    (notices, effects) = after_removal e admins target purge (purged \<noteq> None \<and> e_Purge e)
                in (Inr notices, RevokeTokens # FileRemoved # effects, w'\<lparr>ws_store := s'\<rparr>))))"

lemma keys_login: "(\<exists>k. keys_of s n = Some k \<and> 0 < k) \<longleftrightarrow> login_fps L s n \<noteq> {}"
  by (auto simp: keys_of_def login_fps_def split: option.splits)

lemma admins_login: "admins_with_keys admins (keys_of s) = {n \<in> set admins. login_fps L s n \<noteq> {}}"
  unfolding admins_with_keys_def keys_login [where L = L] ..

text \<open>The two checks of a removal between two admins with keys, each of the other.\<close>

lemma remove_guard_open:
  assumes "a \<noteq> b" and "\<exists>k. keys_of s a = Some k \<and> 0 < k" and "\<exists>k. keys_of s b = Some k \<and> 0 < k"
    and "operator_dir s b = ''''" and "e_Writable e" and "force \<or> e_Running e = 0" and "set admins = {a, b}"
  shows "remove_guard e admins adminOnly a b force s = None"
proof -
  obtain ka where ka: "keys_of s a = Some ka" "0 < ka" using assms(2) by blast
  let ?P = "\<lambda>name. name \<noteq> b \<and> (case keys_of s name of None \<Rightarrow> False | Some n \<Rightarrow> 0 < n)"
  have "a \<in> set (filter ?P (remdups admins))" using assms(1,7) ka by simp
  then have "filter ?P (remdups admins) \<noteq> []" by (metis empty_iff list.set(1))
  then have "k_OtherAdmins (checkFor admins adminOnly (keys_of s) OpUserRemove a b) \<noteq> 0"
    by (simp add: checkFor_def)
  then have "authorize (userRemove_check admins adminOnly s a b) = None"
    using assms(1,4,7) by (simp add: userRemove_check_def authorize_def authorize_removal_def checkFor_def)
  moreover have "Lookup_account s b \<noteq> None" using assms(3) by (auto simp: keys_of_def)
  ultimately show ?thesis using assms(5,6) by (auto simp: remove_guard_def)
qed

text \<open>What a removal leaves for the next call.\<close>

lemma removal_leaves:
  assumes "RemoveAccountFile L other locked disk account w = (Inr (), w')" and "AccountName other account = Some name"
    and "record_is (ws_rcd w) uids" and "readable w" and "keyed_provisioned (ws_store w)"
  shows "readable w'" and "enrolled w' = mdel (pub name) (enrolled w)" and "st_EnrolledDir (ws_store w') = st_EnrolledDir (ws_store w)"
    and "st_KeysDirs (ws_store w') = st_KeysDirs (ws_store w)" and "keyed_provisioned (ws_store w')"
    and "view_dir (ws_view w') (st_EnrolledDir (ws_store w')) = Dir (mdel (pub name) (enrolled w))"
proof -
  from assms(1) have "readable w' \<and> enrolled w' = mdel (pub name) (enrolled w) \<and> st_EnrolledDir (ws_store w') = st_EnrolledDir (ws_store w) \<and>
      st_KeysDirs (ws_store w') = st_KeysDirs (ws_store w) \<and> keyed_provisioned (ws_store w') \<and>
      view_dir (ws_view w') (st_EnrolledDir (ws_store w')) = Dir (mdel (pub name) (enrolled w))"
  proof (rule RemoveAccountFile_ok)
    fix m
    assume "AccountName other account = Some m" and sync: "ws_sync L other disk (without_file m w) = (True, w')"
    with assms(2) have [simp]: "m = name" by simp
    note kept = ws_sync_keeps [OF sync]
    have "\<exists>uids'. record_is (ws_rcd w') uids'"
      using sync
    proof (rule ws_sync_ok)
      fix started rcd' s'
      assume sw: "swap L other disk (ws_view (without_file m w)) (ws_rcd (without_file m w), ws_store (without_file m w)) = (Some started, rcd', s')"
        and w': "w' = (without_file m w)\<lparr>ws_rcd := rcd', ws_store := s'\<rparr>"
      from assms(3) have "record_is (ws_rcd (without_file m w)) uids" by simp
      from swap_record_names [OF sw this] w' show ?thesis by auto
    qed
    then have "loadUIDs (ws_rcd w') \<noteq> None" by (auto simp: record_is_def)
    moreover have "dirs (ws_store w') = dirs (ws_store w)" using kept by (simp add: dirs_def)
    ultimately have "readable w'"
      using readable_set_enrolled [OF assms(4), of "mdel (pub name) (enrolled w)"] kept
      by (simp add: readable_def cong: dir_state.case_cong)
    with kept assms(5) show ?thesis by simp
  qed
  then show "readable w'" "enrolled w' = mdel (pub name) (enrolled w)" "st_EnrolledDir (ws_store w') = st_EnrolledDir (ws_store w)"
    "st_KeysDirs (ws_store w') = st_KeysDirs (ws_store w)" "keyed_provisioned (ws_store w')"
    "view_dir (ws_view w') (st_EnrolledDir (ws_store w')) = Dir (mdel (pub name) (enrolled w))" by blast+
qed

lemma own_file_only_del: "own_file_only other name d \<Longrightarrow> own_file_only other name (mdel file d)"
  by (auto simp: own_file_only_def list_all_iff AList.delete_eq)

text \<open>An account without a file in the one directory there is has no keys after a sync.\<close>

lemma no_file_no_keys:
  assumes "st_KeysDirs (ws_store w) = []" and "view_dir (ws_view w) (st_EnrolledDir (ws_store w)) = Dir (mdel (pub name) d)"
    and "account_shape name" and "own_file_only other name d"
  shows "enrolled_keys L other w name = {}"
proof -
  let ?e = "st_EnrolledDir (ws_store w)" and ?v = "mput (st_EnrolledDir (ws_store w)) (Dir d) (ws_view w)"
  have "dir_sources L other (ws_store w) (mput ?e (Dir (mdel (pub name) d)) ?v) ?e name = []"
    using assms(4) by (intro sources_without_own [OF _ assms(3)]) (auto simp: own_file_only_def list_all_iff)
  then have "dir_sources L other (ws_store w) (ws_view w) ?e name = []"
    using assms(2) by (simp add: dir_sources_def files_of_def cong: if_cong)
  then show ?thesis using assms(1) by (simp add: enrolled_keys_def enrolled_fps_def sources_read_def dirs_def)
qed

text \<open>Claim C14. The check of a removal and the removal are two steps. Of the two admins with keys there are, each may
  remove the other while both have theirs; when both checks come first, both removals go through
  and nobody is left who is an admin with a key.\<close>

theorem admins_remove_each_other:
  assumes "a \<noteq> b" and "account_shape a" and "account_shape b" and "set admins = {a, b}"
    and "\<exists>k. keys_of (ws_store w) a = Some k \<and> 0 < k" and "\<exists>k. keys_of (ws_store w) b = Some k \<and> 0 < k"
    and "operator_dir (ws_store w) a = ''''" and "operator_dir (ws_store w) b = ''''"
    and "st_KeysDirs (ws_store w) = []" and "st_EnrolledDir (ws_store w) \<noteq> ''''" and "has_enrolled w" and "readable w" and "record_is (ws_rcd w) uids"
    and "keyed_provisioned (ws_store w)" and "own_file_only other a (enrolled w)" and "own_file_only other b (enrolled w)"
    and "e_Writable e" and "force \<or> e_Running e = 0"
  shows "remove_guard e admins adminOnly a b force (ws_store w) = None \<and> remove_guard e admins adminOnly b a force (ws_store w) = None \<and>
    (\<exists>w1 w2. RemoveAccountFile L other True True b w = (Inr (), w1) \<and> RemoveAccountFile L other True True a w1 = (Inr (), w2) \<and>
       admins_with_keys admins (keys_of (ws_store w2)) = {})"
proof -
  note [simp] = AccountName_of_shape [OF assms(2)] AccountName_of_shape [OF assms(3)]
  have none: "operatorFiles other n v = Some []" if "st_KeysDirs (ws_store v) = []" for n and v :: "'a ws"
    using that by (simp add: operatorFiles_def)
  have "AccountName other b = Some b" "AccountName other a = Some a" by simp_all
  from RemoveAccountFile_succeeds [OF assms(12) this(1) none [OF assms(9)] assms(10,11)]
  obtain w1 where w1: "RemoveAccountFile L other True True b w = (Inr (), w1)" by blast
  note left = removal_leaves [OF w1 \<open>AccountName other b = Some b\<close> assms(13,12,14)]
  have dirs1: "st_KeysDirs (ws_store w1) = []" "st_EnrolledDir (ws_store w1) \<noteq> ''''" "has_enrolled w1"
    using left assms(9,10) by (simp_all add: has_enrolled_def)
  from RemoveAccountFile_succeeds [OF left(1) \<open>AccountName other a = Some a\<close> none [OF dirs1(1)] dirs1(2,3)]
  obtain w2 where w2: "RemoveAccountFile L other True True a w1 = (Inr (), w2)" by blast
  have own: "own_file_only other a (enrolled w1)" using own_file_only_del [OF assms(15)] left(2) by simp
  have out: "login_fps L (ws_store w2) n = (if n = a then {} else enrolled_keys L other w1 n)" for n
    by (rule RemoveAccountFile_revokes [OF w2 \<open>AccountName other a = Some a\<close> left(5) own])
  have "enrolled_keys L other w1 b = {}"
    by (rule no_file_no_keys [OF dirs1(1) left(6) assms(3,16)])
  with out assms(1) have "login_fps L (ws_store w2) n = {}" if "n \<in> set admins" for n using assms(4) that by auto
  then have "admins_with_keys admins (keys_of (ws_store w2)) = {}" unfolding admins_login [where L = L] by blast
  moreover have "remove_guard e admins adminOnly a b force (ws_store w) = None"
    by (rule remove_guard_open [OF assms(1,5,6,8,17,18,4)])
  moreover have "remove_guard e admins adminOnly b a force (ws_store w) = None"
    using remove_guard_open [OF assms(1) [symmetric] assms(6,5,7,17,18)] assms(4) by auto
  ultimately show ?thesis using w1 w2 by blast
qed

section \<open>Creations of one name\<close>

text \<open>Creations of one name at once, each with a key of its own, by the calls they make: whether the name is
  known, and the link. The lock is not relied on. Syncs and the steps that end a provisioning come
  between them in any order.\<close>

datatype cpc = CStart | CChecked | CWon | CLost | CFailed

fun linked :: "edit_error + unit \<Rightarrow> cpc" where
  "linked (Inr u) = CWon"
| "linked (Inl ErrAccountExists) = CLost"
| "linked (Inl e) = CFailed"

definition checked :: "bool option \<Rightarrow> cpc" where
  "checked known = (case known of None \<Rightarrow> CFailed | Some True \<Rightarrow> CLost | Some False \<Rightarrow> CChecked)"

inductive create_step ::
    "'k ssh_lib \<Rightarrow> (nat \<Rightarrow> nat) \<Rightarrow> string \<Rightarrow> (nat \<Rightarrow> 'k \<times> string) \<Rightarrow> 'k ws \<times> (nat \<Rightarrow> cpc) \<Rightarrow> 'k ws \<times> (nat \<Rightarrow> cpc) \<Rightarrow> bool"
  for L other name key where
  create_check: "pc i = CStart \<Longrightarrow> create_step L other name key (w, pc) (w, pc(i := checked (Known other name w)))"
| create_link:
    "pc i = CChecked \<Longrightarrow> link_key L disk name (fst (key i)) (snd (key i)) (enrolled w) = (r, d) \<Longrightarrow>
     create_step L other name key (w, pc) (set_enrolled d w, pc(i := linked r))"
| create_sync: "create_step L other name key (w, pc) (snd (ws_sync L other disk w), pc)"
| create_provisioned:
    "mget (st_provisioning (ws_store w)) n \<noteq> None \<Longrightarrow>
     create_step L other name key (w, pc) (w\<lparr>ws_store := provision_succeeded n unix home (ws_store w)\<rparr>, pc)"
| create_finished: "create_step L other name key (w, pc) (w\<lparr>ws_store := provision_finished n (ws_store w)\<rparr>, pc)"

inductive create_run ::
    "'k ssh_lib \<Rightarrow> (nat \<Rightarrow> nat) \<Rightarrow> string \<Rightarrow> (nat \<Rightarrow> 'k \<times> string) \<Rightarrow> 'k ws \<Rightarrow> 'k ws \<times> (nat \<Rightarrow> cpc) \<Rightarrow> bool"
  for L other name key w0 where
  create_begin: "create_run L other name key w0 (w0, \<lambda>i. CStart)"
| create_more: "create_run L other name key w0 c \<Longrightarrow> create_step L other name key c c' \<Longrightarrow> create_run L other name key w0 c'"

text \<open>Nothing enrols the name: no record of a uid, and no file in any directory.\<close>

definition name_free :: "(nat \<Rightarrow> nat) \<Rightarrow> string \<Rightarrow> 'k ws \<Rightarrow> bool" where
  "name_free other name w \<longleftrightarrow>
     (\<exists>uids. record_is (ws_rcd w) uids \<and> mget uids name = None) \<and>
     (\<forall>dir \<in> set (dirs (ws_store w)). fileFor other (ws_store w) (ws_view w) dir name = Some None)"

lemma known_in_free: "(\<forall>dir \<in> set ds. fileFor other s view dir name = Some None) \<Longrightarrow> known_in other s view name ds = Some False"
  by (induction ds) auto

lemma Known_free:
  assumes "name_free other name w" and "account_shape name"
  shows "Known other name w = Some False"
  using assms known_in_free [of "dirs (ws_store w)" other "ws_store w" "ws_view w" name]
  by (auto simp: Known_def name_free_def record_is_def AccountName_of_shape)

lemma name_free_sync:
  assumes "name_free other name w"
  shows "name_free other name (snd (ws_sync L other disk w))"
proof -
  obtain ok w' where sync: "ws_sync L other disk w = (ok, w')" by fastforce
  note kept = ws_sync_keeps [OF sync]
  have files: "\<forall>dir \<in> set (dirs (ws_store w')). fileFor other (ws_store w') (ws_view w') dir name = Some None"
  proof -
    have "dirs (ws_store w') = dirs (ws_store w)" using kept by (simp add: dirs_def)
    moreover have "fileFor other (ws_store w') (ws_view w') dir name = fileFor other (ws_store w) (ws_view w) dir name" for dir
      using kept by (simp add: fileFor_def)
    ultimately show ?thesis using assms by (simp add: name_free_def)
  qed
  from assms obtain uids where u: "record_is (ws_rcd w) uids" "mget uids name = None" by (auto simp: name_free_def)
  have "\<exists>uids. record_is (ws_rcd w') uids \<and> mget uids name = None"
  proof (cases ok)
    case True
    with sync have "ws_sync L other disk w = (True, w')" by simp
    then show ?thesis
    proof (rule ws_sync_ok)
      fix started rcd' s'
      assume sw: "swap L other disk (ws_view w) (ws_rcd w, ws_store w) = (Some started, rcd', s')" and w': "w' = w\<lparr>ws_rcd := rcd', ws_store := s'\<rparr>"
      have "sources_read L other (ws_store w) (ws_view w) name = []"
        using assms fileFor_none [of other "ws_store w" "ws_view w" _ name] unfolding name_free_def sources_read_def concat_eq_Nil_conv
        by (auto intro!: no_files_no_sources)
      with swap_record_names [OF sw u(1)] u(2) w' show ?thesis by auto
    qed
  next
    case False
    then have "fst (swap L other disk (ws_view w) (ws_rcd w, ws_store w)) = None" using sync by (auto simp: ws_sync_def split: prod.splits)
    with sync have "ws_rcd w' = ws_rcd w"
      using swap_None [of L other disk "ws_view w" "(ws_rcd w, ws_store w)"] by (auto simp: ws_sync_def split: prod.splits)
    with u show ?thesis by auto
  qed
  with files sync show ?thesis by (simp add: name_free_def)
qed

definition key_text :: "'k ssh_lib \<Rightarrow> 'k \<times> string \<Rightarrow> string" where
  "key_text L key = keyLineFor L (fst key) (snd key) @ [newline]"

definition create_inv :: "'k ssh_lib \<Rightarrow> (nat \<Rightarrow> nat) \<Rightarrow> string \<Rightarrow> (nat \<Rightarrow> 'k \<times> string) \<Rightarrow> 'k ws \<times> (nat \<Rightarrow> cpc) \<Rightarrow> bool" where
  "create_inv L other name key c \<longleftrightarrow>
     has_enrolled (fst c) \<and> (\<forall>i j. snd c i = CWon \<longrightarrow> snd c j = CWon \<longrightarrow> i = j) \<and>
     (\<forall>i. snd c i = CWon \<longrightarrow> mget (enrolled (fst c)) (pub name) = Some (Data (key_text L (key i)))) \<and>
     ((\<forall>i. snd c i \<noteq> CWon) \<longrightarrow>
        (\<forall>i. snd c i \<noteq> CLost) \<and> name_free other name (fst c) \<and> mget (enrolled (fst c)) (pub name) = None)"

lemma set_same_enrolled:
  assumes "has_enrolled w"
  shows "view_dir (ws_view (set_enrolled (enrolled w) w)) dir = view_dir (ws_view w) dir"
  using assms by (auto simp: has_enrolled_def enrolled_def split: dir_state.splits)

lemma name_free_same: "name_free other name w \<Longrightarrow> has_enrolled w \<Longrightarrow> name_free other name (set_enrolled (enrolled w) w)"
  unfolding name_free_def fileFor_def enrolled_set by (simp only: set_same_enrolled simp_thms) blast

lemma has_enrolled_set [simp]: "has_enrolled (set_enrolled d w)"
  by (simp add: has_enrolled_def)

lemma inv_update:
  assumes "create_inv L other name key (w, pc)" and "pc i \<noteq> CWon" and "p \<noteq> CWon" and "p = CLost \<Longrightarrow> \<exists>j. pc j = CWon"
    and "enrolled w' = enrolled w" and "has_enrolled w \<Longrightarrow> has_enrolled w'" and "has_enrolled w \<Longrightarrow> name_free other name w \<Longrightarrow> name_free other name w'"
  shows "create_inv L other name key (w', pc(i := p))"
proof -
  have won: "(pc(i := p)) j = CWon \<longleftrightarrow> pc j = CWon" for j using assms(2,3) by simp
  have lost: "\<forall>j. pc j \<noteq> CWon \<Longrightarrow> (pc(i := p)) j = CLost \<Longrightarrow> pc j = CLost" for j using assms(4) by (auto split: if_splits)
  have h: "has_enrolled w" and "\<forall>i j. pc i = CWon \<longrightarrow> pc j = CWon \<longrightarrow> i = j"
    and "\<forall>i. pc i = CWon \<longrightarrow> mget (enrolled w) (pub name) = Some (Data (key_text L (key i)))"
    and none: "(\<forall>i. pc i \<noteq> CWon) \<Longrightarrow> (\<forall>i. pc i \<noteq> CLost) \<and> name_free other name w \<and> mget (enrolled w) (pub name) = None"
    using assms(1) by (simp_all add: create_inv_def)
  moreover have "(\<forall>j. (pc(i := p)) j \<noteq> CLost) \<and> name_free other name w'" if "\<forall>i. pc i \<noteq> CWon"
    using none [OF that] lost [OF that] assms(7) [OF h] by blast
  ultimately show ?thesis
    unfolding create_inv_def fst_conv snd_conv won assms(5) using assms(6) [OF h] by presburger
qed

lemma link_step_inv:
  assumes "create_inv L other name key (w, pc)" and "pc i = CChecked"
    and "link_key L disk name (fst (key i)) (snd (key i)) (enrolled w) = (r, d)"
  shows "create_inv L other name key (set_enrolled d w, pc(i := linked r))"
proof (cases "r = Inr ()")
  case True
  with assms(3) have d: "mget (enrolled w) (pub name) = None" "d = mput (pub name) (Data (key_text L (key i))) (enrolled w)"
    by (auto simp: link_key_def key_text_def split: if_splits)
  with assms(1) have "pc j \<noteq> CWon" for j by (auto simp: create_inv_def)
  with d True show ?thesis by (simp add: create_inv_def)
next
  case False
  with assms(3) have d: "d = enrolled w" and r: "linked r = CFailed \<or> linked r = CLost \<and> mget (enrolled w) (pub name) \<noteq> None"
    by (auto simp: link_key_def split: if_splits)
  have "linked r = CLost \<Longrightarrow> \<exists>j. pc j = CWon" using r assms(1) by (auto simp: create_inv_def)
  with r assms(2) name_free_same [of other name w] show ?thesis
    unfolding d by (intro inv_update [OF assms(1)]) auto
qed

lemma inv_of_free:
  assumes "create_inv L other name key (w, pc)" and "enrolled w' = enrolled w" and "has_enrolled w \<Longrightarrow> has_enrolled w'"
    and "name_free other name w \<Longrightarrow> name_free other name w'"
  shows "create_inv L other name key (w', pc)"
  using assms by (simp add: create_inv_def)

lemma create_step_inv:
  assumes "create_step L other name key c c'" and "create_inv L other name key c" and "account_shape name"
  shows "create_inv L other name key c'"
  using assms(1,2)
proof cases
  case (create_check pc i w)
  let ?p = "checked (Known other name w)"
  have "?p \<noteq> CWon" by (auto simp: checked_def split: option.splits bool.splits)
  moreover have "\<exists>j. pc j = CWon" if "?p = CLost"
    using that Known_free [OF _ assms(3), of other w] create_check assms(2) by (auto simp: create_inv_def checked_def)
  ultimately show ?thesis using create_check assms(2) inv_update [of L other name key w pc i ?p w] by auto
next
  case (create_link pc i disk w r d)
  with link_step_inv assms(2) show ?thesis by simp
next
  case (create_sync w pc disk)
  obtain ok w' where sync: "ws_sync L other disk w = (ok, w')" by fastforce
  with create_sync assms(2) name_free_sync [of other name w L disk] ws_sync_keeps [OF sync] show ?thesis
    by (auto intro!: inv_of_free [of L other name key w pc] simp: has_enrolled_def)
next
  case (create_provisioned w n pc unix home)
  with assms(2) show ?thesis
    by (auto intro!: inv_of_free [of L other name key w pc] simp: has_enrolled_def enrolled_def provision_succeeded_def name_free_def fileFor_def dirs_def)
next
  case (create_finished w pc n)
  with assms(2) show ?thesis
    by (auto intro!: inv_of_free [of L other name key w pc] simp: has_enrolled_def enrolled_def provision_finished_def name_free_def fileFor_def dirs_def)
qed


section \<open>A whole removal\<close>

lemma Purge_keeps_keys: "Lookup_account (snd (Purge n s)) m = Lookup_account s m"
  by (auto simp: Purge_def Lookup_account_def split: option.splits)


section \<open>An example\<close>

text \<open>A workspace with two accounts in its enrolled directory, each with a key.\<close>

definition account_b :: "string account" where
  "account_b = \<lparr>a_Name = ''b'', a_UID = 1001, a_GID = 1001, a_Home = ''/home/rd-b'', a_Keys = [''k2''],
     a_Sources = [\<lparr>s_Dir = ''/k'', s_Keys = [''k2''], s_Comments = ['''']\<rparr>], a_Unix = ''rd-b''\<rparr>"

definition uids_ab :: "(string, int) gomap" where
  "uids_ab = [(''a'', 1000), (''b'', 1001)]"

definition two_accounts :: "string ws" where
  "two_accounts =
     \<lparr>ws_view = [(''/k'', Dir [(''a.pub'', Data ''k1''), (''b.pub'', Data ''k2'')])],
      ws_rcd = snd (saveUIDs True uids_ab NoFile),
      ws_store = (New [] ''/k'' 1000)\<lparr>
        st_provisioned := [(''a'', ''rd-a'', ''/home/rd-a''), (''b'', ''rd-b'', ''/home/rd-b'')],
        st_accounts := [(''a'', account_a), (''b'', account_b)]\<rparr>\<rparr>"

lemma shapes_ab: "account_shape ''a''" "account_shape ''b''"
  by (simp_all add: account_shape_def name_char_def)

lemma record_ab: "record_is (ws_rcd two_accounts) (sorted_uids uids_ab)"
proof -
  have "uids_ok uids_ab"
    using shapes_ab by (simp add: uids_ab_def uids_ok_def uid_entry_ok_def uid_name_def in_int64_def wfm_def)
  then show ?thesis unfolding two_accounts_def by (simp add: saved_record)
qed

lemma enrolled_ab: "enrolled two_accounts = [(''a.pub'', Data ''k1''), (''b.pub'', Data ''k2'')]"
  "has_enrolled two_accounts" "st_KeysDirs (ws_store two_accounts) = []" "st_EnrolledDir (ws_store two_accounts) = ''/k''"
  by (simp_all add: enrolled_def has_enrolled_def two_accounts_def view_dir_def New_def)

lemma readable_ab: "readable two_accounts"
proof -
  have "loadUIDs (ws_rcd two_accounts) \<noteq> None" using record_ab by (simp add: record_is_def)
  then show ?thesis by (simp add: readable_def) (simp add: two_accounts_def view_dir_def New_def dirs_def)
qed

lemma pub_ab: "account_of other ''a.pub'' = Some ''a''" "account_of other ''b.pub'' = Some ''b''"
  using pub_account [OF shapes_ab(1), of other] pub_account [OF shapes_ab(2), of other] by simp_all

lemma own_ab: "own_file_only other ''a'' (enrolled two_accounts)" "own_file_only other ''b'' (enrolled two_accounts)"
  by (simp_all add: own_file_only_def enrolled_ab pub_ab)

lemma accounts_ab:
  "Lookup_account (ws_store two_accounts) n = (if n = ''a'' then Some account_a else if n = ''b'' then Some account_b else None)"
  "mget (st_provisioned (ws_store two_accounts)) ''a'' \<noteq> None" "mget (st_provisioned (ws_store two_accounts)) ''b'' \<noteq> None"
  by (simp_all add: Lookup_account_def two_accounts_def)

lemma keyed_ab: "keyed_provisioned (ws_store two_accounts)"
  using accounts_ab(2,3) by (simp add: keyed_provisioned_def accounts_ab(1))

theorem RemoveAccountFile_revokes_witness:
  "\<exists>w'. RemoveAccountFile text_keys (\<lambda>r. r) True True ''a'' two_accounts = (Inr (), w') \<and> login_fps text_keys (ws_store w') ''a'' = {}"
proof -
  have name: "AccountName (\<lambda>r. r) ''a'' = Some ''a''" by (rule AccountName_of_shape [OF shapes_ab(1)])
  have "operatorFiles (\<lambda>r. r) ''a'' two_accounts = Some []" "st_EnrolledDir (ws_store two_accounts) \<noteq> ''''"
    by (simp_all add: operatorFiles_def enrolled_ab)
  from RemoveAccountFile_succeeds [OF readable_ab name this enrolled_ab(2), of text_keys] obtain w' where
    w': "RemoveAccountFile text_keys (\<lambda>r. r) True True ''a'' two_accounts = (Inr (), w')" by blast
  from RemoveAccountFile_revokes [OF w' name keyed_ab own_ab(1), of "''a''"] w' show ?thesis by simp
qed

definition calm :: remove_env where
  "calm = \<lparr>e_Running = 0, e_Writable = True, e_Locked = True, e_Disk = True, e_Reset = True, e_Shared = False, e_Purge = True, e_Forget = True\<rparr>"

theorem admins_remove_each_other_witness:
  "admins_with_keys [''a'', ''b''] (keys_of (ws_store two_accounts)) = {''a'', ''b''} \<and>
   remove_guard calm [''a'', ''b''] False ''a'' ''b'' False (ws_store two_accounts) = None \<and>
   remove_guard calm [''a'', ''b''] False ''b'' ''a'' False (ws_store two_accounts) = None \<and>
   (\<exists>w1 w2. RemoveAccountFile text_keys (\<lambda>r. r) True True ''b'' two_accounts = (Inr (), w1) \<and>
      RemoveAccountFile text_keys (\<lambda>r. r) True True ''a'' w1 = (Inr (), w2) \<and>
      admins_with_keys [''a'', ''b''] (keys_of (ws_store w2)) = {})"
proof -
  have keys: "keys_of (ws_store two_accounts) ''a'' = Some 1" "keys_of (ws_store two_accounts) ''b'' = Some 1"
    by (simp_all add: keys_of_def accounts_ab account_a_def account_b_def)
  have dirs: "operator_dir (ws_store two_accounts) ''a'' = ''''" "operator_dir (ws_store two_accounts) ''b'' = ''''"
    by (simp_all add: operator_dir_def accounts_ab account_a_def account_b_def enrolled_ab)
  have "admins_with_keys [''a'', ''b''] (keys_of (ws_store two_accounts)) = {''a'', ''b''}"
    using keys by (auto simp: admins_with_keys_def)
  with admins_remove_each_other [of "''a''" "''b''" "[''a'', ''b'']" two_accounts "sorted_uids uids_ab" "\<lambda>r. r" calm False False text_keys,
      OF _ shapes_ab _ _ _ dirs enrolled_ab(3) _ enrolled_ab(2) readable_ab record_ab keyed_ab own_ab] keys
  show ?thesis by (simp add: enrolled_ab calm_def)
qed


text \<open>Two creations that both found the name free.\<close>

definition no_accounts :: "string ws" where
  "no_accounts = \<lparr>ws_view = [(''/k'', Dir [])], ws_rcd = NoFile, ws_store = New [] ''/k'' 1000\<rparr>"

lemma no_accounts_free: "name_free (\<lambda>r. r) ''a'' no_accounts" "has_enrolled no_accounts" "enrolled no_accounts = []"
proof -
  have "record_is (ws_rcd no_accounts) []" using record_a_is(1) by (simp add: no_accounts_def)
  then show "name_free (\<lambda>r. r) ''a'' no_accounts"
    by (auto simp: name_free_def) (simp add: no_accounts_def New_def dirs_def fileFor_def keyFiles_def view_dir_def keyFiles_in_def)
  show "has_enrolled no_accounts" "enrolled no_accounts = []"
    by (simp_all add: no_accounts_def has_enrolled_def enrolled_def view_dir_def New_def)
qed


end
