(* ===== verification/Enrol_Tokens.thy ===== *)
theory Enrol_Tokens
  imports Share_Names
begin

text \<open>
  Single-use enrolment tokens.

  \<^item> \<open>core/enrol/enrol.go\<close>: the shape of a token's id and of a whole token.
  \<^item> \<open>core-agent/tokens/tokens.go\<close>: the store, a directory with a file per token; redeeming one claims
    its file by renaming it.

  The directory maps file names to contents. A file's contents are the token without its id, or
  \<open>None\<close> for anything that does not decode as one; that JSON gives back the token it was given is
  the only thing used of it. A random draw is an argument, and so is the clock. An operation the
  kernel performs as one (link, rename, remove) is one step; \<open>Consume\<close> is the steps \<open>Consume_take\<close>
  and \<open>Consume_check\<close>, \<open>Revoke\<close> and \<open>Sweep\<close> go file by file. \<open>token_step\<close> interleaves the operations of
  any number of agents sharing the directory, each of which may stop at any point.

  The lemmas show that a minted token is accepted until it expires, and that under every interleaving
  a token is redeemed at most as often as it was minted, by someone who had its secret.
\<close>

section \<open>Ids and tokens\<close>

definition idAlphabet :: string where
  "idAlphabet = ''abcdefghijklmnopqrstuvwxyz234567''"

text \<open>\<open>base32\<close> decoding without padding of at most eight characters: line breaks are dropped, and a byte
  255, the padding character's value when there is none, ends the input as padding would.\<close>

definition no_breaks :: "string \<Rightarrow> string" where
  "no_breaks s = filter (\<lambda>c. c \<noteq> CHR 10 \<and> c \<noteq> CHR 13) s"

fun base32_quantum :: "nat \<Rightarrow> string \<Rightarrow> bool" where
  "base32_quantum j [] = True"
| "base32_quantum j (c # src) =
     (if c = CHR 0xFF \<and> 2 \<le> j
      then 7 \<le> length src + j \<and> list_all (\<lambda>x. x = CHR 0xFF) (take (7 - j) src) \<and> j \<noteq> 3 \<and> j \<noteq> 6
      else c \<in> set idAlphabet \<and> base32_quantum (Suc j) src)"

definition ValidID :: "string \<Rightarrow> bool" where
  "ValidID s \<longleftrightarrow> length s = 8 \<and> base32_quantum 0 (no_breaks s)"

definition secretAlphabet :: string where
  "secretAlphabet = ''ABCDEFGHIJKLMNOPQRSTUVWXYZabcdefghijklmnopqrstuvwxyz0123456789-_''"

text \<open>A secret decodes to 16 bytes: 22 characters of the strict unpadded URL alphabet, the last of which
  carries two bits.\<close>

definition secret_decodes :: "string \<Rightarrow> bool" where
  "secret_decodes s \<longleftrightarrow>
     (let t = no_breaks s in length t = 22 \<and> set t \<subseteq> set secretAlphabet \<and> last t \<in> set ''AQgw'')"

definition ParseToken :: "string \<Rightarrow> (string \<times> string) option" where
  "ParseToken token =
     (case Cut CHR ''.'' token of
        None \<Rightarrow> None
      | Some (i, secret) \<Rightarrow> if \<not> ValidID i then None else if \<not> secret_decodes secret then None else Some (i, secret))"

section \<open>The store\<close>

definition DefaultTTL :: duration where "DefaultTTL = 24 * 3600 * second"
definition MaxTTL :: duration where "MaxTTL = 7 * 24 * 3600 * second"
definition claimStale :: duration where "claimStale = 600 * second"
abbreviation token_suffix :: string where "token_suffix \<equiv> ''.json''"
abbreviation claimPrefix :: string where "claimPrefix \<equiv> ''.redeeming-''"

record Token =
  t_ID :: string
  t_Hash :: string
  t_Account :: string
  t_Created :: time
  t_Expires :: time
  t_Creator :: string
  t_Note :: string

type_synonym tokens_dir = "(string, Token option) gomap"

datatype token_error = TTLRange duration | TokenIO | TokenExists | ErrRefused | NotATokenID string | NoToken string

definition token_path :: "string \<Rightarrow> string" where
  "token_path i = i @ token_suffix"

definition read_token :: "tokens_dir \<Rightarrow> string \<Rightarrow> Token option" where
  "read_token dir name = (case mget dir name of None \<Rightarrow> None | Some f \<Rightarrow> f)"

definition token_hash :: "string \<Rightarrow> string" where
  "token_hash secret = hex_digest secret"

definition create_token :: "bool \<Rightarrow> Token \<Rightarrow> tokens_dir \<Rightarrow> token_error + tokens_dir" where
  "create_token stored t dir =
     (if \<not> stored then Inl TokenIO
      else if mget dir (token_path (t_ID t)) \<noteq> None then Inl TokenExists
      else Inr (mput (token_path (t_ID t)) (Some (t\<lparr>t_ID := ''''\<rparr>)) dir))"

definition truncate_second :: "time \<Rightarrow> time" where
  "truncate_second t = t - t mod second"

text \<open>One round of \<open>Mint\<close>'s loop, with the id and secret it drew; and the loop, over the draws it makes,
  which ends with \<open>None\<close> if every draw collides.\<close>

definition mint_ttl :: "duration \<Rightarrow> token_error + duration" where
  "mint_ttl ttl = (if ttl = 0 then Inr DefaultTTL else if ttl < 0 \<or> ttl > MaxTTL then Inl (TTLRange ttl) else Inr ttl)"

definition mint_one ::
    "bool \<Rightarrow> time \<Rightarrow> string \<times> string \<Rightarrow> string \<Rightarrow> string \<Rightarrow> string \<Rightarrow> duration \<Rightarrow> tokens_dir \<Rightarrow>
     token_error + Token \<times> tokens_dir" where
  "mint_one stored now draw account creator note ttl dir =
     (let created = truncate_second now;
          t = \<lparr>t_ID = fst draw, t_Hash = token_hash (snd draw), t_Account = account, t_Created = created,
            t_Expires = created + ttl, t_Creator = creator, t_Note = note\<rparr>
      in case create_token stored t dir of Inl e \<Rightarrow> Inl e | Inr dir' \<Rightarrow> Inr (t, dir'))"

fun mint_loop ::
    "bool \<Rightarrow> time \<Rightarrow> (string \<times> string) list \<Rightarrow> string \<Rightarrow> string \<Rightarrow> string \<Rightarrow> duration \<Rightarrow> tokens_dir \<Rightarrow>
     (token_error + string \<times> Token \<times> tokens_dir) option" where
  "mint_loop stored now [] account creator note ttl dir = None"
| "mint_loop stored now (draw # draws) account creator note ttl dir =
     (case mint_one stored now draw account creator note ttl dir of
        Inl TokenExists \<Rightarrow> mint_loop stored now draws account creator note ttl dir
      | Inl e \<Rightarrow> Some (Inl e)
      | Inr (t, dir') \<Rightarrow> Some (Inr (fst draw @ ''.'' @ snd draw, t, dir')))"

definition Mint ::
    "bool \<Rightarrow> time \<Rightarrow> (string \<times> string) list \<Rightarrow> string \<Rightarrow> string \<Rightarrow> string \<Rightarrow> duration \<Rightarrow> tokens_dir \<Rightarrow>
     (token_error + string \<times> Token \<times> tokens_dir) option" where
  "Mint stored now draws account creator note ttl dir =
     (case mint_ttl ttl of
        Inl e \<Rightarrow> Some (Inl e)
      | Inr ttl' \<Rightarrow> mint_loop stored now draws account creator note ttl' dir)"

definition tokenID :: "string \<Rightarrow> string option" where
  "tokenID name =
     (let found = (case CutPrefix name claimPrefix of
                     Some rest \<Rightarrow> map_option fst (Cut CHR ''-'' rest)
                   | None \<Rightarrow> CutSuffix name token_suffix)
      in case found of None \<Rightarrow> None | Some i \<Rightarrow> if ValidID i then Some i else None)"

text \<open>\<open>List\<close> reads the directory in the order of the names and sorts by the time of creation.\<close>

fun list_tokens :: "tokens_dir \<Rightarrow> string list \<Rightarrow> string list \<Rightarrow> Token list" where
  "list_tokens dir [] seen = []"
| "list_tokens dir (name # names) seen =
     (case tokenID name of
        None \<Rightarrow> list_tokens dir names seen
      | Some i \<Rightarrow>
          if i \<in> set seen then list_tokens dir names seen
          else case read_token dir name of
                 None \<Rightarrow> list_tokens dir names seen
               | Some t \<Rightarrow> t\<lparr>t_ID := i\<rparr> # list_tokens dir names (i # seen))"

definition List_tokens :: "tokens_dir \<Rightarrow> Token list" where
  "List_tokens dir = sort_key t_Created (list_tokens dir (sort (map fst dir)) [])"

definition matches :: "time \<Rightarrow> Token \<Rightarrow> string \<Rightarrow> bool" where
  "matches now t secret \<longleftrightarrow> hex_DecodeString (t_Hash t) = Some (Sum256 secret) \<and> now < t_Expires t"

definition Live :: "time \<Rightarrow> string \<Rightarrow> tokens_dir \<Rightarrow> bool" where
  "Live now i dir \<longleftrightarrow> ValidID i \<and> (case read_token dir (token_path i) of None \<Rightarrow> False | Some t \<Rightarrow> now < t_Expires t)"

definition Check :: "time \<Rightarrow> string \<Rightarrow> string \<Rightarrow> tokens_dir \<Rightarrow> token_error + Token" where
  "Check now i secret dir =
     (if \<not> ValidID i then Inl ErrRefused
      else case read_token dir (token_path i) of
             None \<Rightarrow> Inl ErrRefused
           | Some t \<Rightarrow> if \<not> matches now t secret then Inl ErrRefused else Inr (t\<lparr>t_ID := i\<rparr>))"

record Claim =
  cl_id :: string
  cl_from :: string
  cl_at :: string

definition os_Rename :: "string \<Rightarrow> string \<Rightarrow> tokens_dir \<Rightarrow> bool \<times> tokens_dir" where
  "os_Rename from to dir =
     (case mget dir from of None \<Rightarrow> (False, dir) | Some f \<Rightarrow> (True, mput to f (mdel from dir)))"

definition os_Remove :: "string \<Rightarrow> tokens_dir \<Rightarrow> bool \<times> tokens_dir" where
  "os_Remove name dir = (case mget dir name of None \<Rightarrow> (False, dir) | Some _ \<Rightarrow> (True, mdel name dir))"

definition claim_name :: "string \<Rightarrow> time \<Rightarrow> nat list \<Rightarrow> string" where
  "claim_name i now nonce = claimPrefix @ i @ ''-'' @ Itoa now @ ''-'' @ EncodeToString nonce"

definition Consume_take :: "time \<Rightarrow> nat list \<Rightarrow> string \<Rightarrow> tokens_dir \<Rightarrow> token_error + Claim \<times> tokens_dir" where
  "Consume_take now nonce i dir =
     (if \<not> ValidID i then Inl ErrRefused
      else let c = \<lparr>cl_id = i, cl_from = token_path i, cl_at = claim_name i now nonce\<rparr>;
               (ok, dir') = os_Rename (cl_from c) (cl_at c) dir
           in if \<not> ok then Inl ErrRefused else Inr (c, dir'))"

definition Claim_Restore :: "Claim \<Rightarrow> tokens_dir \<Rightarrow> bool \<times> tokens_dir" where
  "Claim_Restore c dir = os_Rename (cl_at c) (cl_from c) dir"

definition Claim_Done :: "Claim \<Rightarrow> tokens_dir \<Rightarrow> bool \<times> tokens_dir" where
  "Claim_Done c dir = os_Remove (cl_at c) dir"

definition Consume_check :: "time \<Rightarrow> Claim \<Rightarrow> string \<Rightarrow> tokens_dir \<Rightarrow> token_error + Token" where
  "Consume_check now c secret dir =
     (case read_token dir (cl_at c) of
        None \<Rightarrow> Inl ErrRefused
      | Some t \<Rightarrow> if \<not> matches now t secret then Inl ErrRefused else Inr (t\<lparr>t_ID := cl_id c\<rparr>))"

definition Consume :: "time \<Rightarrow> nat list \<Rightarrow> string \<Rightarrow> string \<Rightarrow> tokens_dir \<Rightarrow> (token_error + Claim \<times> Token) \<times> tokens_dir" where
  "Consume now nonce i secret dir =
     (case Consume_take now nonce i dir of
        Inl e \<Rightarrow> (Inl e, dir)
      | Inr (c, dir') \<Rightarrow>
          (case Consume_check now c secret dir' of
             Inl e \<Rightarrow> (Inl e, snd (Claim_Restore c dir'))
           | Inr t \<Rightarrow> (Inr (c, t), dir')))"

definition is_claim_of :: "string \<Rightarrow> string \<Rightarrow> bool" where
  "is_claim_of i name \<longleftrightarrow> HasPrefix name (claimPrefix @ i @ ''-'')"

definition Revoke :: "string \<Rightarrow> tokens_dir \<Rightarrow> token_error option \<times> tokens_dir" where
  "Revoke i dir =
     (if \<not> ValidID i then (Some (NotATokenID i), dir)
      else let (found, dir') = os_Remove (token_path i) dir;
               claims = filter (is_claim_of i) (map fst dir');
               dir'' = fold (\<lambda>name d. snd (os_Remove name d)) claims dir'
           in (if \<not> (found \<or> claims \<noteq> []) then Some (NoToken i) else None, dir''))"

definition claimedAt :: "string \<Rightarrow> time option" where
  "claimedAt rest =
     (case Split CHR ''-'' rest of
        [a, ns, r] \<Rightarrow> Atoi ns
      | _ \<Rightarrow> None)"

definition sweep_due :: "time \<Rightarrow> string \<Rightarrow> tokens_dir \<Rightarrow> bool" where
  "sweep_due now name dir =
     (case CutPrefix name claimPrefix of
        Some rest \<Rightarrow> (case claimedAt rest of None \<Rightarrow> False | Some at \<Rightarrow> time_Sub now at > claimStale)
      | None \<Rightarrow>
          (case CutSuffix name token_suffix of
             None \<Rightarrow> False
           | Some i \<Rightarrow> ValidID i \<and>
               (case read_token dir name of None \<Rightarrow> False | Some t \<Rightarrow> \<not> now < t_Expires t)))"

definition sweep_one :: "time \<Rightarrow> string \<Rightarrow> tokens_dir \<Rightarrow> bool \<times> tokens_dir" where
  "sweep_one now name dir = (if sweep_due now name dir then os_Remove name dir else (False, dir))"

definition Sweep_tokens :: "time \<Rightarrow> tokens_dir \<Rightarrow> nat \<times> tokens_dir" where
  "Sweep_tokens now dir =
     fold (\<lambda>name (n, d). let (removed, d') = sweep_one now name d in (if removed then n + 1 else n, d'))
       (sort (map fst dir)) (0, dir)"

section \<open>Names\<close>

lemma base32_quantum_chars: "base32_quantum j s \<Longrightarrow> c \<in> set s \<Longrightarrow> length s \<le> 8 - j \<Longrightarrow> c \<in> set idAlphabet \<or> c = CHR 0xFF"
proof (induction j s rule: base32_quantum.induct)
  case (2 j x src)
  show ?case
  proof (cases "x = CHR 0xFF \<and> 2 \<le> j")
    case True
    with 2 have "list_all (\<lambda>x. x = CHR 0xFF) (take (7 - j) src)" "length src \<le> 7 - j" by auto
    then show ?thesis using 2(3) True by (auto simp: list_all_iff)
  next
    case False
    with 2 show ?thesis by auto
  qed
qed simp

lemma ValidID_chars:
  assumes "ValidID i" and "c \<in> set i"
  shows "c \<in> set idAlphabet \<or> c = CHR 0xFF \<or> c = CHR 10 \<or> c = CHR 13"
proof -
  have "base32_quantum 0 (no_breaks i)" "length (no_breaks i) \<le> 8 - 0"
    using assms(1) length_filter_le [of _ i] by (auto simp: ValidID_def no_breaks_def)
  moreover have "c = CHR 10 \<or> c = CHR 13 \<or> c \<in> set (no_breaks i)" using assms(2) by (auto simp: no_breaks_def)
  ultimately show ?thesis using base32_quantum_chars by blast
qed

lemma ValidID_no: "ValidID i \<Longrightarrow> CHR ''-'' \<notin> set i \<and> CHR ''.'' \<notin> set i"
  using ValidID_chars [of i "CHR ''-''"] ValidID_chars [of i "CHR ''.''"] by (auto simp: idAlphabet_def)

text \<open>The decoder drops line breaks, so an id need not be eight characters of the alphabet.\<close>

lemma ValidID_takes_line_breaks: "ValidID (''abcdefg'' @ [CHR 10])"
  by (simp add: ValidID_def no_breaks_def idAlphabet_def)

lemma tokenID_path: "ValidID i \<Longrightarrow> tokenID (token_path i) = Some i"
proof -
  assume i: "ValidID i"
  have "\<not> HasPrefix (token_path i) claimPrefix"
  proof
    assume "HasPrefix (token_path i) claimPrefix"
    then obtain r where r: "i @ token_suffix = claimPrefix @ r" by (auto simp: HasPrefix_iff token_path_def)
    have "i \<noteq> []" using i by (auto simp: ValidID_def)
    then obtain x where "i = CHR ''.'' # x" using r by (cases i) auto
    with ValidID_no [OF i] show False by simp
  qed
  then have "CutPrefix (token_path i) claimPrefix = None" by (simp add: CutPrefix_def)
  moreover have "CutSuffix (token_path i) token_suffix = Some i"
    by (simp add: CutSuffix_def token_path_def HasSuffix_iff)
  ultimately show ?thesis using i by (simp add: tokenID_def)
qed

lemma tokenID_claim: "ValidID i \<Longrightarrow> tokenID (claim_name i now nonce) = Some i"
proof -
  assume i: "ValidID i"
  have "CutPrefix (claim_name i now nonce) claimPrefix = Some (i @ CHR ''-'' # Itoa now @ ''-'' @ EncodeToString nonce)"
    unfolding CutPrefix_Some by (simp add: claim_name_def)
  with i ValidID_no [OF i] show ?thesis by (simp add: tokenID_def)
qed

section \<open>A token is accepted until it expires\<close>

lemma matches_hash: "t_Hash t = token_hash secret \<Longrightarrow> matches now t secret \<longleftrightarrow> now < t_Expires t"
  by (simp add: matches_def token_hash_def hex_digest_def hex_DecodeString_Encode Sum256_range)

lemma mint_loop_Some:
  assumes "mint_loop stored now draws account creator note ttl dir = Some (Inr (token, t, dir'))"
  shows "\<exists>draw \<in> set draws. mint_one stored now draw account creator note ttl dir = Inr (t, dir') \<and>
    token = fst draw @ ''.'' @ snd draw"
  using assms
proof (induction draws)
  case (Cons draw draws)
  then show ?case by (auto split: sum.splits token_error.splits)
qed simp

lemma mint_one_Inr:
  assumes "mint_one stored now draw account creator note ttl dir = Inr (t, dir')"
  shows "mget dir (token_path (fst draw)) = None \<and>
    t = \<lparr>t_ID = fst draw, t_Hash = token_hash (snd draw), t_Account = account, t_Created = truncate_second now,
      t_Expires = truncate_second now + ttl, t_Creator = creator, t_Note = note\<rparr> \<and>
    dir' = mput (token_path (fst draw)) (Some (t\<lparr>t_ID := ''''\<rparr>)) dir"
  using assms by (auto simp: mint_one_def create_token_def Let_def split: sum.splits if_splits)

text \<open>Claim C36. The token a mint returns names an id the store did not have and is accepted with its secret, and
  no other, until it expires, at most seven days after it was minted.\<close>

theorem Mint_then_Check:
  assumes "Mint stored now draws account creator note ttl dir = Some (Inr (token, t, dir'))"
    and "\<And>draw. draw \<in> set draws \<Longrightarrow> ValidID (fst draw)"
  shows "\<exists>draw \<in> set draws. token = fst draw @ ''.'' @ snd draw \<and> mget dir (token_path (fst draw)) = None \<and>
    t_Expires t \<le> now + MaxTTL \<and>
    Check later (fst draw) (snd draw) dir' = (if later < t_Expires t then Inr t else Inl ErrRefused) \<and>
    (Sum256 secret \<noteq> Sum256 (snd draw) \<longrightarrow> Check later (fst draw) secret dir' = Inl ErrRefused)"
proof -
  from assms(1) obtain ttl' where ttl: "mint_ttl ttl = Inr ttl'"
    and l: "mint_loop stored now draws account creator note ttl' dir = Some (Inr (token, t, dir'))"
    by (auto simp: Mint_def split: sum.splits)
  from mint_loop_Some [OF l] obtain draw where d: "draw \<in> set draws" "token = fst draw @ ''.'' @ snd draw"
    "mint_one stored now draw account creator note ttl' dir = Inr (t, dir')" by blast
  note m = mint_one_Inr [OF d(3)]
  have "ttl' \<le> MaxTTL" using ttl by (auto simp: mint_ttl_def DefaultTTL_def MaxTTL_def second_def split: if_splits)
  moreover have "truncate_second now \<le> now" by (simp add: truncate_second_def second_def)
  ultimately have "t_Expires t \<le> now + MaxTTL" using m by simp
  moreover have r: "read_token dir' (token_path (fst draw)) = Some (t\<lparr>t_ID := ''''\<rparr>)" using m by (simp add: read_token_def)
  moreover have "t_Hash t = token_hash (snd draw)" "t_ID t = fst draw" using m by simp_all
  moreover from this have "matches later (t\<lparr>t_ID := ''''\<rparr>) (snd draw) \<longleftrightarrow> later < t_Expires t" by (simp add: matches_hash)
  moreover have "matches later (t\<lparr>t_ID := ''''\<rparr>) secret \<Longrightarrow> Sum256 secret = Sum256 (snd draw)"
    using \<open>t_Hash t = token_hash (snd draw)\<close>
    by (simp add: matches_def token_hash_def hex_digest_def hex_DecodeString_Encode Sum256_range)
  ultimately show ?thesis using d m assms(2) [OF d(1)] by (intro bexI [of _ draw]) (auto simp: Check_def)
qed

section \<open>Agents sharing the directory\<close>

text \<open>A redemption between \<open>Consume_take\<close> and its end: the claim, the secret that was presented, and whether
  \<open>Consume_check\<close> accepted it. The world keeps what was minted, and what was redeemed with which secret.\<close>

record redeemer =
  rd_claim :: Claim
  rd_secret :: string
  rd_checked :: bool

record world =
  w_dir :: tokens_dir
  w_claims :: "redeemer list"
  w_minted :: "(string \<times> Token) list"
  w_redeemed :: "(string \<times> string) list"

inductive token_step :: "world \<Rightarrow> world \<Rightarrow> bool" where
  mint: "mint_one stored now draw account creator note ttl (w_dir w) = Inr (t, d) \<Longrightarrow> ValidID (fst draw) \<Longrightarrow>
    token_step w (w\<lparr>w_dir := d, w_minted := (fst draw, t\<lparr>t_ID := ''''\<rparr>) # w_minted w\<rparr>)"
| take_token: "Consume_take now nonce i (w_dir w) = Inr (c, d) \<Longrightarrow>
    token_step w (w\<lparr>w_dir := d, w_claims := \<lparr>rd_claim = c, rd_secret = secret, rd_checked = False\<rparr> # w_claims w\<rparr>)"
| accept: "r \<in> set (w_claims w) \<Longrightarrow> Consume_check now (rd_claim r) (rd_secret r) (w_dir w) = Inr t \<Longrightarrow>
    token_step w (w\<lparr>w_claims := r\<lparr>rd_checked := True\<rparr> # remove1 r (w_claims w)\<rparr>)"
| restore: "r \<in> set (w_claims w) \<Longrightarrow>
    token_step w (w\<lparr>w_dir := snd (Claim_Restore (rd_claim r) (w_dir w)), w_claims := remove1 r (w_claims w)\<rparr>)"
| redeem: "r \<in> set (w_claims w) \<Longrightarrow> rd_checked r \<Longrightarrow> Claim_Done (rd_claim r) (w_dir w) = (True, d) \<Longrightarrow>
    token_step w (w\<lparr>w_dir := d, w_claims := remove1 r (w_claims w),
      w_redeemed := (cl_id (rd_claim r), rd_secret r) # w_redeemed w\<rparr>)"
| stop: "r \<in> set (w_claims w) \<Longrightarrow> token_step w (w\<lparr>w_claims := remove1 r (w_claims w)\<rparr>)"
| revoke: "ValidID i \<Longrightarrow> name = token_path i \<or> is_claim_of i name \<Longrightarrow>
    token_step w (w\<lparr>w_dir := snd (os_Remove name (w_dir w))\<rparr>)"
| sweep: "token_step w (w\<lparr>w_dir := snd (sweep_one now name (w_dir w))\<rparr>)"

definition empty_store :: world where
  "empty_store = \<lparr>w_dir = [], w_claims = [], w_minted = [], w_redeemed = []\<rparr>"

definition holders :: "string \<Rightarrow> tokens_dir \<Rightarrow> nat" where
  "holders i d = card {n \<in> dom (map_of d). tokenID n = Some i}"

lemma holders_put:
  "holders i (mput n f d) = holders i d + (if mget d n = None \<and> tokenID n = Some i then 1 else 0)"
proof -
  let ?S = "{x \<in> dom (map_of d). tokenID x = Some i}"
  have "{x \<in> dom (map_of (mput n f d)). tokenID x = Some i} = (if tokenID n = Some i then insert n ?S else ?S)"
    by (auto simp: update_conv' split: if_splits)
  moreover have "finite ?S" using finite_dom_map_of [of d] by simp
  ultimately show ?thesis by (auto simp: holders_def card_insert_if)
qed

lemma holders_del:
  "holders i (mdel n d) = holders i d - (if mget d n \<noteq> None \<and> tokenID n = Some i then 1 else 0)"
proof -
  let ?S = "{x \<in> dom (map_of d). tokenID x = Some i}"
  have "{x \<in> dom (map_of (mdel n d)). tokenID x = Some i} = ?S - {n}"
    by (auto simp: delete_conv' split: if_splits)
  moreover have "finite ?S" using finite_dom_map_of [of d] by simp
  ultimately show ?thesis by (auto simp: holders_def card_Diff_singleton_if)
qed

lemma holders_pos: "mget d n \<noteq> None \<Longrightarrow> tokenID n = Some i \<Longrightarrow> 0 < holders i d"
proof -
  assume "mget d n \<noteq> None" "tokenID n = Some i"
  then have "n \<in> {x \<in> dom (map_of d). tokenID x = Some i}" by auto
  moreover have "finite {x \<in> dom (map_of d). tokenID x = Some i}" using finite_dom_map_of [of d] by simp
  ultimately show ?thesis unfolding holders_def by (metis card_gt_0_iff empty_iff)
qed

lemma holders_rename: "tokenID n = tokenID m \<Longrightarrow> holders i (snd (os_Rename n m d)) \<le> holders i d"
  using holders_pos [of d n i]
  by (auto simp: os_Rename_def holders_put holders_del split: option.splits)

lemma holders_remove: "holders i (snd (os_Remove n d)) \<le> holders i d"
  by (auto simp: os_Remove_def holders_del split: option.splits)

lemma holders_sweep: "holders i (snd (sweep_one now n d)) \<le> holders i d"
  by (simp add: sweep_one_def holders_remove)

section \<open>The invariant\<close>

definition legit :: "(string \<times> Token) list \<Rightarrow> string \<Rightarrow> string \<Rightarrow> bool" where
  "legit minted i secret \<longleftrightarrow> (\<exists>t now. (i, t) \<in> set minted \<and> matches now t secret)"

definition claim_ok :: "(string \<times> Token) list \<Rightarrow> redeemer \<Rightarrow> bool" where
  "claim_ok minted r \<longleftrightarrow>
     tokenID (cl_from (rd_claim r)) = Some (cl_id (rd_claim r)) \<and>
     tokenID (cl_at (rd_claim r)) = Some (cl_id (rd_claim r)) \<and>
     (rd_checked r \<longrightarrow> legit minted (cl_id (rd_claim r)) (rd_secret r))"

definition files_minted :: "(string \<times> Token) list \<Rightarrow> tokens_dir \<Rightarrow> bool" where
  "files_minted minted d \<longleftrightarrow> (\<forall>n t i. mget d n = Some (Some t) \<longrightarrow> tokenID n = Some i \<longrightarrow> (i, t) \<in> set minted)"

definition store_inv :: "world \<Rightarrow> bool" where
  "store_inv w \<longleftrightarrow>
     (\<forall>i. holders i (w_dir w) + count_list (map fst (w_redeemed w)) i \<le> count_list (map fst (w_minted w)) i) \<and>
     files_minted (w_minted w) (w_dir w) \<and>
     (\<forall>r \<in> set (w_claims w). claim_ok (w_minted w) r) \<and>
     (\<forall>(i, secret) \<in> set (w_redeemed w). legit (w_minted w) i secret)"

lemma files_minted_rename:
  "files_minted minted d \<Longrightarrow> tokenID n = tokenID m \<Longrightarrow> files_minted minted (snd (os_Rename n m d))"
  by (auto simp: files_minted_def os_Rename_def split: option.splits if_splits)

lemma files_minted_remove: "files_minted minted d \<Longrightarrow> files_minted minted (snd (os_Remove n d))"
  by (auto simp: files_minted_def os_Remove_def split: option.splits if_splits)

lemma files_minted_mono: "files_minted minted d \<Longrightarrow> set minted \<subseteq> set minted' \<Longrightarrow> files_minted minted' d"
  unfolding files_minted_def by blast

lemma legit_mono: "legit minted i s \<Longrightarrow> set minted \<subseteq> set minted' \<Longrightarrow> legit minted' i s"
  unfolding legit_def by blast

lemma claim_ok_mono: "claim_ok minted r \<Longrightarrow> set minted \<subseteq> set minted' \<Longrightarrow> claim_ok minted' r"
  by (auto simp: claim_ok_def intro: legit_mono)

lemma Consume_take_Inr:
  assumes "Consume_take now nonce i d = Inr (c, d')"
  shows "tokenID (cl_from c) = Some (cl_id c)" "tokenID (cl_at c) = Some (cl_id c)"
    "d' = snd (os_Rename (cl_from c) (cl_at c) d)"
  using assms by (auto simp: Consume_take_def Let_def tokenID_path tokenID_claim split: if_splits prod.splits)

lemma store_inv_dir:
  assumes "store_inv w" and "\<And>i. holders i d \<le> holders i (w_dir w)" and "files_minted (w_minted w) d"
    and "\<And>r. r \<in> set cs \<Longrightarrow> claim_ok (w_minted w) r"
  shows "store_inv (w\<lparr>w_dir := d, w_claims := cs\<rparr>)"
  using assms unfolding store_inv_def by (auto intro: order_trans [OF add_right_mono])

lemma store_inv_mint:
  assumes "store_inv w" and "mint_one stored now draw account creator note ttl (w_dir w) = Inr (t, d)"
    and "ValidID (fst draw)"
  shows "store_inv (w\<lparr>w_dir := d, w_minted := (fst draw, t\<lparr>t_ID := ''''\<rparr>) # w_minted w\<rparr>)"
proof -
  note m = mint_one_Inr [OF assms(2)] and p = tokenID_path [OF assms(3)]
  let ?minted = "(fst draw, t\<lparr>t_ID := ''''\<rparr>) # w_minted w"
  have d: "d = mput (token_path (fst draw)) (Some (t\<lparr>t_ID := ''''\<rparr>)) (w_dir w)" using m by simp
  have sub: "set (w_minted w) \<subseteq> set ?minted" by auto
  have "files_minted ?minted (w_dir w)" using assms(1) sub files_minted_mono unfolding store_inv_def by blast
  then have "files_minted ?minted d" using p unfolding files_minted_def d by (auto split: if_splits)
  moreover have "holders i d + count_list (map fst (w_redeemed w)) i \<le> count_list (map fst ?minted) i" for i
    using assms(1) p m unfolding store_inv_def d holders_put by (auto simp: le_Suc_eq dest: spec [of _ i])
  moreover have "\<forall>r \<in> set (w_claims w). claim_ok ?minted r" "\<forall>(i, s) \<in> set (w_redeemed w). legit ?minted i s"
    using assms(1) sub claim_ok_mono legit_mono unfolding store_inv_def by blast+
  ultimately show ?thesis by (simp add: store_inv_def)
qed

lemma store_inv_redeem:
  assumes "store_inv w" and "r \<in> set (w_claims w)" and "rd_checked r" and "Claim_Done (rd_claim r) (w_dir w) = (True, d)"
  shows "store_inv (w\<lparr>w_dir := d, w_claims := remove1 r (w_claims w),
      w_redeemed := (cl_id (rd_claim r), rd_secret r) # w_redeemed w\<rparr>)"
proof -
  let ?at = "cl_at (rd_claim r)" and ?i = "cl_id (rd_claim r)"
  have r: "claim_ok (w_minted w) r" using assms(1,2) by (simp add: store_inv_def)
  then have at: "tokenID ?at = Some ?i" and l: "legit (w_minted w) ?i (rd_secret r)"
    using assms(3) by (simp_all add: claim_ok_def)
  have d: "mget (w_dir w) ?at \<noteq> None" "d = mdel ?at (w_dir w)"
    using assms(4) by (auto simp: Claim_Done_def os_Remove_def split: option.splits)
  have "holders i d + count_list (map fst ((?i, rd_secret r) # w_redeemed w)) i =
      holders i (w_dir w) + count_list (map fst (w_redeemed w)) i" for i
    using holders_pos [OF d(1) at] d(1) at unfolding d(2) holders_del by auto
  moreover have "files_minted (w_minted w) d"
    using files_minted_remove [of "w_minted w" "w_dir w" ?at] assms(1,4) by (simp add: Claim_Done_def store_inv_def)
  ultimately show ?thesis
    using assms(1) l unfolding store_inv_def by (auto dest: notin_set_remove1 in_set_remove1 [THEN iffD1] set_remove1_subset [THEN subsetD])
qed

lemma token_step_inv: "token_step w w' \<Longrightarrow> store_inv w \<Longrightarrow> store_inv w'"
proof (induction rule: token_step.induct)
  case mint
  then show ?case using store_inv_mint by blast
next
  case (take_token now nonce i w c d secret)
  note t = Consume_take_Inr [OF take_token(1)]
  have "claim_ok (w_minted w) \<lparr>rd_claim = c, rd_secret = secret, rd_checked = False\<rparr>" using t by (simp add: claim_ok_def)
  with take_token t show ?case
    by (intro store_inv_dir) (auto simp: holders_rename files_minted_rename store_inv_def)
next
  case (accept r w now t)
  obtain t' where t': "mget (w_dir w) (cl_at (rd_claim r)) = Some (Some t')" "matches now t' (rd_secret r)"
    using accept by (auto simp: Consume_check_def read_token_def split: option.splits if_splits)
  have r: "claim_ok (w_minted w) r" using accept by (simp add: store_inv_def)
  then have "(cl_id (rd_claim r), t') \<in> set (w_minted w)"
    using t' accept by (auto simp: store_inv_def files_minted_def claim_ok_def)
  with t' r have "claim_ok (w_minted w) (r\<lparr>rd_checked := True\<rparr>)" by (auto simp: claim_ok_def legit_def)
  then have "store_inv (w\<lparr>w_dir := w_dir w, w_claims := r\<lparr>rd_checked := True\<rparr> # remove1 r (w_claims w)\<rparr>)"
    using accept set_remove1_subset [of r "w_claims w"] by (intro store_inv_dir) (auto simp: store_inv_def)
  then show ?case by simp
next
  case (restore r w)
  then have "tokenID (cl_at (rd_claim r)) = tokenID (cl_from (rd_claim r))" by (auto simp: store_inv_def claim_ok_def)
  with restore show ?case
    using set_remove1_subset [of r "w_claims w"]
    by (intro store_inv_dir) (auto simp: Claim_Restore_def holders_rename files_minted_rename store_inv_def)
next
  case redeem
  then show ?case using store_inv_redeem by blast
next
  case (stop r w)
  then have "store_inv (w\<lparr>w_dir := w_dir w, w_claims := remove1 r (w_claims w)\<rparr>)"
    using set_remove1_subset [of r "w_claims w"] by (intro store_inv_dir) (auto simp: store_inv_def)
  then show ?case by simp
next
  case (revoke i name w)
  then have "store_inv (w\<lparr>w_dir := snd (os_Remove name (w_dir w)), w_claims := w_claims w\<rparr>)"
    by (intro store_inv_dir) (auto simp: holders_remove files_minted_remove store_inv_def)
  then show ?case by simp
next
  case (sweep w now name)
  then have "store_inv (w\<lparr>w_dir := snd (sweep_one now name (w_dir w)), w_claims := w_claims w\<rparr>)"
    by (intro store_inv_dir) (auto simp: holders_remove sweep_one_def files_minted_remove store_inv_def)
  then show ?case by simp
qed


section \<open>Witnesses\<close>

definition ex_id :: string where "ex_id = ''aaaaaaa2''"

definition ex_token :: Token where
  "ex_token = \<lparr>t_ID = ex_id, t_Hash = token_hash ''s'', t_Account = ''dev'', t_Created = 0,
     t_Expires = DefaultTTL, t_Creator = '''', t_Note = ''''\<rparr>"

lemma ex_id_ok: "ValidID ex_id"
  by code_simp

lemma ex_mint: "mint_one True 0 (ex_id, ''s'') ''dev'' '''' '''' DefaultTTL [] = Inr (ex_token, [(token_path ex_id, Some (ex_token\<lparr>t_ID := ''''\<rparr>))])"
  by (simp add: mint_one_def create_token_def truncate_second_def ex_token_def)

theorem Mint_then_Check_witness:
  "Check 0 ex_id ''s'' [(token_path ex_id, Some (ex_token\<lparr>t_ID := ''''\<rparr>))] = Inr ex_token"
proof -
  have "mint_ttl 0 = Inr DefaultTTL" by (simp add: mint_ttl_def)
  then have m: "Mint True 0 [(ex_id, ''s'')] ''dev'' '''' '''' 0 [] =
      Some (Inr (ex_id @ ''.'' @ ''s'', ex_token, [(token_path ex_id, Some (ex_token\<lparr>t_ID := ''''\<rparr>))]))"
    by (simp add: Mint_def ex_mint)
  have "0 < t_Expires ex_token" by (simp add: ex_token_def DefaultTTL_def second_def)
  with Mint_then_Check [OF m, of 0 "''x''"] ex_id_ok show ?thesis by simp
qed


end
