(* ===== verification/Redeem_Removal.thy ===== *)
theory Redeem_Removal
  imports Account_Keys Enrol_Tokens
begin

text \<open>
  The redemption of a token bound to an account (\<open>redeem\<close> of \<open>agent/internal/sshd/redeem.go\<close>, from
  \<open>Consume\<close> on) against the removal of that account (\<open>userRemove\<close> of \<open>agent/internal/sshd/manage.go\<close>),
  by the file operations of both, in any interleaving, while other files of the tokens directory
  change as they like.

  The account's key file is its lines, \<open>None\<close> for no file; the directory of the tokens is that of
  theory \<open>Enrol_Tokens\<close>. Whether a write of the redemption succeeds and whether the key then
  authenticates is open; taking a key out again succeeds.

  The lemmas show that a removal whose listing had the token leaves no key behind, however the two
  interleave, and that a listing can miss the token: the directory is read first and each file after,
  so a token claimed between the two is passed over, and the redemption brings the account back. A
  token put back between the two halves of its revocation survives the removal.
\<close>

section \<open>The key file by its lines\<close>

definition file_lines :: "string list option \<Rightarrow> string list" where
  "file_lines f = (case f of None \<Rightarrow> [] | Some ls \<Rightarrow> ls)"

definition write_lines :: "'k ssh_lib \<Rightarrow> string list \<Rightarrow> string list option" where
  "write_lines L ls = (if list_ex (holds_key L) ls then Some ls else None)"

definition append_line :: "'k ssh_lib \<Rightarrow> 'k \<Rightarrow> string \<Rightarrow> string list option \<Rightarrow> bool \<times> string list option" where
  "append_line L key comment f =
     (if snd (withoutKey L (file_lines f) (FingerprintSHA256 L key)) then (False, f)
      else (True, write_lines L (file_lines f @ [keyLineFor L key comment])))"

definition remove_line :: "'k ssh_lib \<Rightarrow> string \<Rightarrow> string list option \<Rightarrow> string list option" where
  "remove_line L fp f =
     (case withoutKey L (file_lines f) fp of (kept, found) \<Rightarrow> if found then write_lines L kept else f)"

definition has_key :: "'k ssh_lib \<Rightarrow> string \<Rightarrow> string list option \<Rightarrow> bool" where
  "has_key L fp f \<longleftrightarrow> list_ex (line_has L fp) (file_lines f)"

section \<open>Redeeming and removing\<close>

text \<open>Where a redemption is: before the claim, with the claim taken, checked, the key written (and whether
  it was added), the key to be taken out and the token put back, the token to be put back, the key to
  be taken out, and the end with whether it succeeded.\<close>

datatype rpc =
  RTake | RCheck Claim | RAppend Claim | RVerify Claim bool | RDone Claim bool | RTakeOut Claim bool
| RRestore Claim | RUndo bool | REnd bool

text \<open>Where a removal is: listing the tokens (the names read, the ids seen, the tokens found), revoking those
  of the account one by one (the file, the listing of the claims, the claims), removing the key file.\<close>

datatype vpc =
  VStart
| VRead "string list" "string list" "Token list"
| VPath "string list"
| VClaims string "string list"
| VRemove string "string list" "string list"
| VFile
| VEnd

record rr =
  r_toks :: tokens_dir
  r_file :: "string list option"
  r_listed :: "string list"
  r_rpc :: rpc
  r_vpc :: vpc

record 'k redemption =
  d_id :: string
  d_secret :: string
  d_account :: string
  d_key :: 'k
  d_comment :: string

abbreviation d_fp :: "'k ssh_lib \<Rightarrow> 'k redemption \<Rightarrow> string" where
  "d_fp L r \<equiv> FingerprintSHA256 L (d_key r)"

definition take_out :: "'k ssh_lib \<Rightarrow> 'k redemption \<Rightarrow> bool \<Rightarrow> string list option \<Rightarrow> string list option" where
  "take_out L r added f = (if added then remove_line L (d_fp L r) f else f)"

inductive redeem_step :: "'k ssh_lib \<Rightarrow> 'k redemption \<Rightarrow> rr \<Rightarrow> rr \<Rightarrow> bool" for L r where
  take_ok: "r_rpc w = RTake \<Longrightarrow> Consume_take now nonce (d_id r) (r_toks w) = Inr (c, toks) \<Longrightarrow>
    redeem_step L r w (w\<lparr>r_toks := toks, r_rpc := RCheck c\<rparr>)"
| take_no: "r_rpc w = RTake \<Longrightarrow> Consume_take now nonce (d_id r) (r_toks w) = Inl e \<Longrightarrow>
    redeem_step L r w (w\<lparr>r_rpc := REnd False\<rparr>)"
| check_ok: "r_rpc w = RCheck c \<Longrightarrow> Consume_check now c (d_secret r) (r_toks w) = Inr t \<Longrightarrow>
    redeem_step L r w (w\<lparr>r_rpc := RAppend c\<rparr>)"
| check_no: "r_rpc w = RCheck c \<Longrightarrow> Consume_check now c (d_secret r) (r_toks w) = Inl e \<Longrightarrow>
    redeem_step L r w (w\<lparr>r_rpc := RRestore c\<rparr>)"
| append_ok: "r_rpc w = RAppend c \<Longrightarrow> append_line L (d_key r) (d_comment r) (r_file w) = (added, f) \<Longrightarrow>
    redeem_step L r w (w\<lparr>r_file := f, r_rpc := RVerify c added\<rparr>)"
| append_no: "r_rpc w = RAppend c \<Longrightarrow> redeem_step L r w (w\<lparr>r_rpc := RRestore c\<rparr>)"
| verify_ok: "r_rpc w = RVerify c added \<Longrightarrow> redeem_step L r w (w\<lparr>r_rpc := RDone c added\<rparr>)"
| verify_no: "r_rpc w = RVerify c added \<Longrightarrow> redeem_step L r w (w\<lparr>r_rpc := RTakeOut c added\<rparr>)"
| taken_out: "r_rpc w = RTakeOut c added \<Longrightarrow>
    redeem_step L r w (w\<lparr>r_file := take_out L r added (r_file w), r_rpc := RRestore c\<rparr>)"
| restore: "r_rpc w = RRestore c \<Longrightarrow>
    redeem_step L r w (w\<lparr>r_toks := snd (Claim_Restore c (r_toks w)), r_rpc := REnd False\<rparr>)"
| done_ok: "r_rpc w = RDone c added \<Longrightarrow> Claim_Done c (r_toks w) = (True, toks) \<Longrightarrow>
    redeem_step L r w (w\<lparr>r_toks := toks, r_rpc := REnd True\<rparr>)"
| done_no: "r_rpc w = RDone c added \<Longrightarrow> Claim_Done c (r_toks w) = (False, toks) \<Longrightarrow>
    redeem_step L r w (w\<lparr>r_rpc := RUndo added\<rparr>)"
| undo: "r_rpc w = RUndo added \<Longrightarrow>
    redeem_step L r w (w\<lparr>r_file := take_out L r added (r_file w), r_rpc := REnd False\<rparr>)"

text \<open>One file of the listing, as \<open>List\<close> reads it.\<close>

definition list_entry :: "tokens_dir \<Rightarrow> string \<Rightarrow> string list \<Rightarrow> Token list \<Rightarrow> string list \<times> Token list" where
  "list_entry dir name seen found =
     (case tokenID name of
        None \<Rightarrow> (seen, found)
      | Some i \<Rightarrow>
          if i \<in> set seen then (seen, found)
          else case read_token dir name of
                 None \<Rightarrow> (seen, found)
               | Some t \<Rightarrow> (i # seen, found @ [t\<lparr>t_ID := i\<rparr>]))"

definition to_revoke :: "string \<Rightarrow> Token list \<Rightarrow> string list" where
  "to_revoke account found = map t_ID (filter (\<lambda>t. t_Account t = account) (sort_key t_Created found))"

inductive remove_step :: "string \<Rightarrow> rr \<Rightarrow> rr \<Rightarrow> bool" for account where
  v_list: "r_vpc w = VStart \<Longrightarrow> remove_step account w (w\<lparr>r_vpc := VRead (sort (map fst (r_toks w))) [] []\<rparr>)"
| v_read: "r_vpc w = VRead (name # names) seen found \<Longrightarrow> list_entry (r_toks w) name seen found = (seen', found') \<Longrightarrow>
    remove_step account w (w\<lparr>r_vpc := VRead names seen' found'\<rparr>)"
| v_listed: "r_vpc w = VRead [] seen found \<Longrightarrow>
    remove_step account w (w\<lparr>r_listed := to_revoke account found, r_vpc := VPath (to_revoke account found)\<rparr>)"
| v_path: "r_vpc w = VPath (i # ids) \<Longrightarrow>
    remove_step account w (w\<lparr>r_toks := snd (os_Remove (token_path i) (r_toks w)), r_vpc := VClaims i ids\<rparr>)"
| v_claims: "r_vpc w = VClaims i ids \<Longrightarrow>
    remove_step account w (w\<lparr>r_vpc := VRemove i (filter (is_claim_of i) (map fst (r_toks w))) ids\<rparr>)"
| v_claim: "r_vpc w = VRemove i (name # names) ids \<Longrightarrow>
    remove_step account w (w\<lparr>r_toks := snd (os_Remove name (r_toks w)), r_vpc := VRemove i names ids\<rparr>)"
| v_next: "r_vpc w = VRemove i [] ids \<Longrightarrow> remove_step account w (w\<lparr>r_vpc := VPath ids\<rparr>)"
| v_revoked: "r_vpc w = VPath [] \<Longrightarrow> remove_step account w (w\<lparr>r_vpc := VFile\<rparr>)"
| v_file: "r_vpc w = VFile \<Longrightarrow> remove_step account w (w\<lparr>r_file := None, r_vpc := VEnd\<rparr>)"

text \<open>The files of other tokens change as they like.\<close>

inductive rr_step :: "'k ssh_lib \<Rightarrow> 'k redemption \<Rightarrow> rr \<Rightarrow> rr \<Rightarrow> bool" for L r where
  by_redeemer: "redeem_step L r w w' \<Longrightarrow> rr_step L r w w'"
| by_remover: "remove_step (d_account r) w w' \<Longrightarrow> rr_step L r w w'"
| by_others: "(\<And>name. tokenID name = Some (d_id r) \<Longrightarrow> mget toks name = mget (r_toks w) name) \<Longrightarrow>
    rr_step L r w (w\<lparr>r_toks := toks\<rparr>)"

definition rr_start :: "tokens_dir \<Rightarrow> string list option \<Rightarrow> rr" where
  "rr_start toks f = \<lparr>r_toks = toks, r_file = f, r_listed = [], r_rpc = RTake, r_vpc = VStart\<rparr>"

section \<open>A token that was listed\<close>

fun claim_of :: "rpc \<Rightarrow> Claim option" where
  "claim_of (RCheck c) = Some c"
| "claim_of (RAppend c) = Some c"
| "claim_of (RVerify c added) = Some c"
| "claim_of (RDone c added) = Some c"
| "claim_of (RTakeOut c added) = Some c"
| "claim_of (RRestore c) = Some c"
| "claim_of _ = None"

text \<open>How far the revocation of a token is: not begun, its file gone, its claims listed, done.\<close>

fun phase :: "string \<Rightarrow> vpc \<Rightarrow> nat" where
  "phase i VStart = 0"
| "phase i (VRead names seen found) = 0"
| "phase i (VPath ids) = (if i \<in> set ids then 0 else 3)"
| "phase i (VClaims j ids) = (if j = i then 1 else if i \<in> set ids then 0 else 3)"
| "phase i (VRemove j names ids) = (if j = i then 2 else if i \<in> set ids then 0 else 3)"
| "phase i VFile = 3"
| "phase i VEnd = 3"

fun names_left :: "vpc \<Rightarrow> string set" where
  "names_left (VRemove i names ids) = set names"
| "names_left v = {}"

text \<open>The states in which a key that a redemption added is still to be settled.\<close>

fun unsettled :: "rpc \<Rightarrow> bool" where
  "unsettled (RVerify c added) = added"
| "unsettled (RDone c added) = added"
| "unsettled (RTakeOut c added) = added"
| "unsettled (RUndo added) = added"
| "unsettled _ = False"

definition claim_named :: "string \<Rightarrow> Claim \<Rightarrow> bool" where
  "claim_named i c \<longleftrightarrow> is_claim_of i (cl_at c) \<and> tokenID (cl_at c) = Some i \<and> cl_from c = token_path i"

definition rr_inv :: "'k ssh_lib \<Rightarrow> 'k redemption \<Rightarrow> rr \<Rightarrow> bool" where
  "rr_inv L r w \<longleftrightarrow>
     (\<forall>c. claim_of (r_rpc w) = Some c \<longrightarrow> claim_named (d_id r) c) \<and>
     (d_id r \<in> set (r_listed w) \<longrightarrow>
        (1 \<le> phase (d_id r) (r_vpc w) \<longrightarrow> r_rpc w = RTake \<longrightarrow> mget (r_toks w) (token_path (d_id r)) = None) \<and>
        (2 \<le> phase (d_id r) (r_vpc w) \<longrightarrow> (\<forall>c. claim_of (r_rpc w) = Some c \<longrightarrow>
           mget (r_toks w) (cl_at c) = None \<or> phase (d_id r) (r_vpc w) = 2 \<and> cl_at c \<in> names_left (r_vpc w))) \<and>
        (r_vpc w = VEnd \<longrightarrow> has_key L (d_fp L r) (r_file w) \<longrightarrow> unsettled (r_rpc w)))"

lemma claim_name_of: "is_claim_of i (claim_name i now nonce)"
  by (simp add: is_claim_of_def claim_name_def HasPrefix_def)

lemma take_named: "Consume_take now nonce i dir = Inr (c, dir') \<Longrightarrow> claim_named i c \<and> mget dir (token_path i) \<noteq> None"
  by (auto simp: Consume_take_def os_Rename_def Let_def claim_named_def claim_name_of tokenID_claim
      split: if_splits option.splits)

lemma remove_line_gone: "\<not> has_key L fp (remove_line L fp f)"
  by (auto simp: has_key_def remove_line_def withoutKey_kept write_lines_def file_lines_def list_ex_iff split: option.splits)

lemma append_line_added: "append_line L key comment f = (added, f') \<Longrightarrow> has_key L (FingerprintSHA256 L key) f = (\<not> added)"
  by (auto simp: append_line_def has_key_def withoutKey_kept split: if_splits)

lemma remove_shrinks: "mget dir name = None \<Longrightarrow> mget (snd (os_Remove n dir)) name = None"
  by (auto simp: os_Remove_def split: option.splits)

lemma removed_gone: "mget (snd (os_Remove n dir)) n = None"
  by (auto simp: os_Remove_def split: option.splits)

lemma redeem_keeps:
  assumes "redeem_step L r w w'" and "rr_inv L r w"
  shows "rr_inv L r w'"
  using assms
proof (cases rule: redeem_step.cases)
  case (take_ok now nonce c toks)
  with assms(2) take_named [OF take_ok(3)] show ?thesis
    by (auto simp: rr_inv_def)
next
  case (append_ok c added f)
  with assms(2) append_line_added [OF append_ok(3)] show ?thesis
    by (auto simp: rr_inv_def append_line_def split: if_splits)
next
  case (taken_out c added)
  with assms(2) remove_line_gone show ?thesis by (auto simp: rr_inv_def take_out_def split: if_splits)
next
  case (undo added)
  with assms(2) remove_line_gone show ?thesis by (auto simp: rr_inv_def take_out_def split: if_splits)
next
  case (done_ok c added toks)
  with assms(2) have "mget (r_toks w) (cl_at c) \<noteq> None" by (auto simp: Claim_Done_def os_Remove_def split: option.splits)
  with done_ok assms(2) show ?thesis by (auto simp: rr_inv_def)
qed (auto simp: rr_inv_def)

lemma remove_keeps:
  assumes "remove_step (d_account r) w w'" and "rr_inv L r w"
  shows "rr_inv L r w'"
  using assms
proof (cases rule: remove_step.cases)
  case (v_path i ids)
  with assms(2) removed_gone [of "token_path i" "r_toks w"] remove_shrinks [of "r_toks w" _ "token_path i"] show ?thesis
    by (auto simp: rr_inv_def split: if_splits)
next
  case (v_claims i ids)
  with assms(2) mget_None_iff [of "r_toks w"] show ?thesis by (auto simp: rr_inv_def claim_named_def split: if_splits)
next
  case (v_claim i name names ids)
  with assms(2) removed_gone [of name "r_toks w"] remove_shrinks [of "r_toks w" _ name] show ?thesis
    by (auto simp: rr_inv_def split: if_splits)
next
  case v_file
  with assms(2) show ?thesis by (auto simp: rr_inv_def has_key_def file_lines_def)
qed (auto simp: rr_inv_def split: if_splits)

lemma rr_step_keeps:
  assumes "rr_step L r w w'" and "rr_inv L r w" and "ValidID (d_id r)"
  shows "rr_inv L r w'"
  using assms(1,2)
proof cases
  case (by_others toks)
  have "mget toks (token_path (d_id r)) = mget (r_toks w) (token_path (d_id r))"
    using by_others tokenID_path [OF assms(3)] by simp
  moreover have "mget toks (cl_at c) = mget (r_toks w) (cl_at c)" if "claim_named (d_id r) c" for c
    using by_others that by (simp add: claim_named_def)
  ultimately show ?thesis using by_others assms(2) by (auto simp: rr_inv_def)
qed (use redeem_keeps remove_keeps in blast)+


section \<open>A token that was not listed, and one put back\<close>

text \<open>A directory with the file of one live token.\<close>

definition one_token :: "'k redemption \<Rightarrow> Token \<Rightarrow> tokens_dir" where
  "one_token r t = [(token_path (d_id r), Some t)]"

definition the_claim :: "'k redemption \<Rightarrow> time \<Rightarrow> nat list \<Rightarrow> Claim" where
  "the_claim r now nonce = \<lparr>cl_id = d_id r, cl_from = token_path (d_id r), cl_at = claim_name (d_id r) now nonce\<rparr>"

abbreviation claimed :: "'k redemption \<Rightarrow> time \<Rightarrow> nat list \<Rightarrow> Token \<Rightarrow> tokens_dir" where
  "claimed r now nonce t \<equiv> [(claim_name (d_id r) now nonce, Some t)]"

lemma claim_not_path: "claim_name i now nonce \<noteq> token_path i"
proof
  assume "claim_name i now nonce = token_path i"
  then have "length (claim_name i now nonce) = length (token_path i)" by simp
  then show False by (simp add: claim_name_def token_path_def)
qed

lemma path_no_claim: "\<not> is_claim_of i (token_path i)"
proof
  assume "is_claim_of i (token_path i)"
  then obtain rest where "token_path i = claimPrefix @ i @ ''-'' @ rest" unfolding is_claim_of_def HasPrefix_iff by auto
  then have "length (token_path i) = length (claimPrefix @ i @ ''-'' @ rest)" by simp
  then show False by (simp add: token_path_def)
qed

lemma one_token_take:
  "ValidID (d_id r) \<Longrightarrow> Consume_take now nonce (d_id r) (one_token r t) = Inr (the_claim r now nonce, claimed r now nonce t)"
  by (simp add: Consume_take_def one_token_def os_Rename_def the_claim_def Let_def)

lemma one_token_check:
  "matches now t secret \<Longrightarrow> Consume_check now (the_claim r now nonce) secret (claimed r now nonce t) = Inr (t\<lparr>t_ID := d_id r\<rparr>)"
  by (simp add: Consume_check_def the_claim_def read_token_def)

lemma missed_listing:
  assumes "ValidID (d_id r)"
  shows "list_entry (claimed r now nonce t) (token_path (d_id r)) [] [] = ([], [])"
  using claim_not_path [of "d_id r" now nonce] by (simp add: list_entry_def tokenID_path [OF assms] read_token_def)

lemma redeemer_next: "(rr_step L r)\<^sup>*\<^sup>* w w' \<Longrightarrow> redeem_step L r w' w'' \<Longrightarrow> (rr_step L r)\<^sup>*\<^sup>* w w''"
  by (erule rtranclp.rtrancl_into_rtrancl) (rule by_redeemer)

lemma remover_next: "(rr_step L r)\<^sup>*\<^sup>* w w' \<Longrightarrow> remove_step (d_account r) w' w'' \<Longrightarrow> (rr_step L r)\<^sup>*\<^sup>* w w''"
  by (erule rtranclp.rtrancl_into_rtrancl) (rule by_remover)

text \<open>Claim C15. A removal reads the names of the tokens, a redemption claims its token, and only then does the removal
  read the files: the token's is gone, and the removal is done without it. The redemption goes on,
  succeeds, and the account that was removed is back with its key.\<close>

theorem removal_undone_by_redemption:
  assumes "ValidID (d_id r)" and "matches now t (d_secret r)" and "t_Account t = d_account r" and "ssh_prints L (d_key r)"
  shows "\<exists>w. (rr_step L r)\<^sup>*\<^sup>* (rr_start (one_token r t) f) w \<and> r_vpc w = VEnd \<and> r_rpc w = REnd True \<and> r_listed w = [] \<and>
    has_key L (d_fp L r) (r_file w)"
proof -
  let ?toks = "one_token r t" and ?c = "the_claim r now [0]" and ?claimed = "claimed r now [0] t"
  let ?line = "keyLineFor L (d_key r) (d_comment r)"
  let ?w = "\<lambda>toks f p v. \<lparr>r_toks = toks, r_file = f, r_listed = [], r_rpc = p, r_vpc = v\<rparr>"
  have holds: "holds_key L ?line" "line_has L (d_fp L r) ?line"
    using keyLineFor_parses(2) [OF assms(4)] by (simp_all add: holds_key_def line_has_def)
  have end_file: "append_line L (d_key r) (d_comment r) None = (True, Some [?line])"
    using holds by (simp add: append_line_def file_lines_def write_lines_def)
  let ?run = "(rr_step L r)\<^sup>*\<^sup>* (?w ?toks f RTake VStart)"
  let ?read = "VRead [token_path (d_id r)] [] []"
  have "?run (?w ?toks f RTake VStart)" by simp
  from remover_next [OF this v_list] have "?run (?w ?toks f RTake ?read)" by (simp add: one_token_def)
  from redeemer_next [OF this take_ok [where now = now and nonce = "[0]" and c = ?c and toks = ?claimed]] have "?run (?w ?claimed f (RCheck ?c) ?read)"
    by (simp add: one_token_take [OF assms(1)])
  from remover_next [OF this v_read [where name = "token_path (d_id r)" and names = "[]"]] have "?run (?w ?claimed f (RCheck ?c) (VRead [] [] []))"
    by (simp add: missed_listing [OF assms(1)])
  from remover_next [OF this v_listed] have "?run (?w ?claimed f (RCheck ?c) (VPath []))" by (simp add: to_revoke_def)
  from remover_next [OF this v_revoked] have "?run (?w ?claimed f (RCheck ?c) VFile)" by simp
  from remover_next [OF this v_file] have "?run (?w ?claimed None (RCheck ?c) VEnd)" by simp
  from redeemer_next [OF this check_ok [where c = ?c and now = now]] have "?run (?w ?claimed None (RAppend ?c) VEnd)"
    by (simp add: one_token_check [OF assms(2)])
  from redeemer_next [OF this append_ok [where c = ?c]] have "?run (?w ?claimed (Some [?line]) (RVerify ?c True) VEnd)"
    by (simp add: end_file)
  from redeemer_next [OF this verify_ok] have "?run (?w ?claimed (Some [?line]) (RDone ?c True) VEnd)" by simp
  from redeemer_next [OF this done_ok [where c = ?c and toks = "[]"]] have "?run (?w [] (Some [?line]) (REnd True) VEnd)"
    by (simp add: Claim_Done_def os_Remove_def the_claim_def)
  then show ?thesis using holds by (intro exI) (auto simp: rr_start_def has_key_def file_lines_def)
qed

text \<open>Claim C16. A revocation removes the token's file first and its claims after. A redemption that cannot write the key
  puts its token back between the two: the removal ends, and the token that brings the account back
  is still there.\<close>

theorem revoked_token_survives:
  assumes "ValidID (d_id r)" and "matches now t (d_secret r)" and "t_Account t = d_account r"
  shows "\<exists>w. (rr_step L r)\<^sup>*\<^sup>* (rr_start (one_token r t) f) w \<and> r_vpc w = VEnd \<and> r_listed w = [d_id r] \<and>
    Check now (d_id r) (d_secret r) (r_toks w) = Inr (t\<lparr>t_ID := d_id r\<rparr>)"
proof -
  let ?toks = "one_token r t" and ?c = "the_claim r now [0]" and ?claimed = "claimed r now [0] t" and ?i = "d_id r"
  let ?w = "\<lambda>toks f l p v. \<lparr>r_toks = toks, r_file = f, r_listed = l, r_rpc = p, r_vpc = v\<rparr>"
  have entry: "list_entry ?toks (token_path ?i) [] [] = ([?i], [t\<lparr>t_ID := ?i\<rparr>])"
    by (simp add: list_entry_def tokenID_path [OF assms(1)] read_token_def one_token_def)
  have listed: "to_revoke (d_account r) [t\<lparr>t_ID := ?i\<rparr>] = [?i]" using assms(3) by (simp add: to_revoke_def)
  have ne: "claim_name ?i now [0] \<noteq> token_path ?i" by (rule claim_not_path)
  have no_claim: "\<not> is_claim_of ?i (token_path ?i)" using path_no_claim .
  let ?run = "(rr_step L r)\<^sup>*\<^sup>* (?w ?toks f [] RTake VStart)"
  have "?run (?w ?toks f [] RTake VStart)" by simp
  from remover_next [OF this v_list] have "?run (?w ?toks f [] RTake (VRead [token_path ?i] [] []))" by (simp add: one_token_def)
  from remover_next [OF this v_read [where name = "token_path ?i" and names = "[]"]] have "?run (?w ?toks f [] RTake (VRead [] [?i] [t\<lparr>t_ID := ?i\<rparr>]))"
    by (simp add: entry)
  from remover_next [OF this v_listed] have "?run (?w ?toks f [?i] RTake (VPath [?i]))" by (simp add: listed)
  from redeemer_next [OF this take_ok [where now = now and nonce = "[0]" and c = ?c and toks = ?claimed]] have "?run (?w ?claimed f [?i] (RCheck ?c) (VPath [?i]))"
    by (simp add: one_token_take [OF assms(1)])
  from redeemer_next [OF this check_ok [where c = ?c and now = now]] have "?run (?w ?claimed f [?i] (RAppend ?c) (VPath [?i]))"
    by (simp add: one_token_check [OF assms(2)])
  from redeemer_next [OF this append_no] have "?run (?w ?claimed f [?i] (RRestore ?c) (VPath [?i]))" by simp
  from remover_next [OF this v_path] have "?run (?w ?claimed f [?i] (RRestore ?c) (VClaims ?i []))"
    using ne by (simp add: os_Remove_def)
  from redeemer_next [OF this restore] have "?run (?w ?toks f [?i] (REnd False) (VClaims ?i []))"
    by (simp add: Claim_Restore_def os_Rename_def the_claim_def one_token_def)
  from remover_next [OF this v_claims] have "?run (?w ?toks f [?i] (REnd False) (VRemove ?i [] []))"
    using no_claim by (simp add: one_token_def)
  from remover_next [OF this v_next] have "?run (?w ?toks f [?i] (REnd False) (VPath []))" by simp
  from remover_next [OF this v_revoked] have "?run (?w ?toks f [?i] (REnd False) VFile)" by simp
  from remover_next [OF this v_file] have "?run (?w ?toks None [?i] (REnd False) VEnd)" by simp
  then show ?thesis
    using assms by (intro exI) (auto simp: rr_start_def Check_def read_token_def one_token_def)
qed

section \<open>Witnesses\<close>

definition ex_redemption :: "string redemption" where
  "ex_redemption = \<lparr>d_id = ex_id, d_secret = ''s'', d_account = ''dev'', d_key = ''k1'', d_comment = ''c''\<rparr>"

lemma ex_redemption_facts:
  "d_id ex_redemption = ex_id" "d_secret ex_redemption = ''s''" "d_account ex_redemption = ''dev''" "d_key ex_redemption = ''k1''"
  "matches 0 ex_token ''s''" "t_Account ex_token = ''dev''"
proof -
  have "matches 0 ex_token ''s'' \<longleftrightarrow> 0 < t_Expires ex_token" by (rule matches_hash) (simp add: ex_token_def)
  then show "matches 0 ex_token ''s''" by (simp add: ex_token_def DefaultTTL_def second_def)
qed (simp_all add: ex_redemption_def ex_token_def)

theorem removal_undone_by_redemption_witness:
  "\<exists>w. (rr_step text_keys ex_redemption)\<^sup>*\<^sup>* (rr_start (one_token ex_redemption ex_token) (Some [''k1''])) w \<and>
     r_vpc w = VEnd \<and> r_rpc w = REnd True \<and> has_key text_keys ''k1'' (r_file w)"
  using removal_undone_by_redemption [of ex_redemption 0 ex_token text_keys "Some [''k1'']"] ex_redemption_facts ex_id_ok text_keys_prints
  by (simp add: text_fp) blast

theorem revoked_token_survives_witness:
  "\<exists>w. (rr_step text_keys ex_redemption)\<^sup>*\<^sup>* (rr_start (one_token ex_redemption ex_token) None) w \<and>
     r_vpc w = VEnd \<and> r_listed w = [ex_id] \<and> mget (r_toks w) (token_path ex_id) \<noteq> None"
proof -
  from revoked_token_survives [of ex_redemption 0 ex_token text_keys None] ex_redemption_facts ex_id_ok
  obtain w where "(rr_step text_keys ex_redemption)\<^sup>*\<^sup>* (rr_start (one_token ex_redemption ex_token) None) w"
    "r_vpc w = VEnd" "r_listed w = [ex_id]" "Check 0 ex_id ''s'' (r_toks w) = Inr (ex_token\<lparr>t_ID := ex_id\<rparr>)" by auto
  then show ?thesis by (intro exI [of _ w]) (auto simp: Check_def read_token_def split: if_splits option.splits)
qed


end
