(* ===== verification/Workspace_Info.thy ===== *)
theory Workspace_Info
  imports Share_Names
begin

text \<open>
  What the workspace answers about the calling account (\<open>core/workspace/info.go\<close>): the record
  \<open>Info\<close>, its text form \<open>Encode\<close> and the reader \<open>ParseInfo\<close>.

  A reader is modelled by the bytes it delivers and the writer by the bytes it was given, so the only
  read error is the scanner's own, a line that does not fit its buffer. A nil and an empty \<open>Extra\<close> are
  one value. \<open>strconv.ParseInt(s, 10, 64)\<close> and \<open>strconv.Atoi\<close> agree on a 64-bit platform and are
  both \<open>Atoi\<close> of the prelude.

  The lemmas show that what one side encodes the other reads back, unknown keys included, and that
  whatever a reply says, an accepted one names an account and a port that can be used.
\<close>

record Info =
  i_User :: string
  i_UID :: int
  i_GID :: int
  i_NFSPort :: int
  i_Docker :: string
  i_Agent :: string
  i_DaemonPaths :: "string list"
  i_Mode :: string
  i_Storage :: string
  i_Union :: string
  i_Now :: int
  i_Client :: string
  i_HostGateway :: string
  i_Extra :: "(string, string) gomap"

definition no_info :: Info where
  "no_info = \<lparr>i_User = '''', i_UID = 0, i_GID = 0, i_NFSPort = 0, i_Docker = '''', i_Agent = '''',
     i_DaemonPaths = [], i_Mode = '''', i_Storage = '''', i_Union = '''', i_Now = 0, i_Client = '''',
     i_HostGateway = '''', i_Extra = []\<rparr>"

abbreviation keyUser :: string where "keyUser \<equiv> ''WORKSPACE_USER''"
abbreviation keyUID :: string where "keyUID \<equiv> ''WORKSPACE_UID''"
abbreviation keyGID :: string where "keyGID \<equiv> ''WORKSPACE_GID''"
abbreviation keyNFSPort :: string where "keyNFSPort \<equiv> ''WORKSPACE_NFS_PORT''"
abbreviation keyDocker :: string where "keyDocker \<equiv> ''WORKSPACE_DOCKER''"
abbreviation keyAgent :: string where "keyAgent \<equiv> ''WORKSPACE_AGENT''"
abbreviation keyStorage :: string where "keyStorage \<equiv> ''WORKSPACE_STORAGE''"
abbreviation keyMode :: string where "keyMode \<equiv> ''WORKSPACE_MODE''"
abbreviation keyDaemonPaths :: string where "keyDaemonPaths \<equiv> ''WORKSPACE_DAEMON_PATHS''"
abbreviation keyUnion :: string where "keyUnion \<equiv> ''WORKSPACE_UNION''"
abbreviation keyNow :: string where "keyNow \<equiv> ''WORKSPACE_NOW''"
abbreviation keyClient :: string where "keyClient \<equiv> ''WORKSPACE_CLIENT''"
abbreviation keyHostGateway :: string where "keyHostGateway \<equiv> ''WORKSPACE_HOST_GATEWAY''"

definition DockerUnavailable :: string where
  "DockerUnavailable = ''unavailable''"

definition splitPaths :: "string \<Rightarrow> string list" where
  "splitPaths v = filter (\<lambda>p. p \<noteq> []) (map TrimSpace (Split CHR '','' v))"

datatype info_error =
  MalformedLine string
| NotANumber string
| NotAClientID string
| LineTooLong
| MissingKey string
| EmptyUser
| NotAPort int

definition info_int :: "string \<Rightarrow> string \<Rightarrow> (int \<Rightarrow> Info) \<Rightarrow> info_error + Info" where
  "info_int key v set_field = (case Atoi v of None \<Rightarrow> Inl (NotANumber key) | Some n \<Rightarrow> Inr (set_field n))"

definition info_field :: "string \<Rightarrow> string \<Rightarrow> Info \<Rightarrow> info_error + Info" where
  "info_field key v info =
     (if key = keyUser then Inr (info\<lparr>i_User := v\<rparr>)
      else if key = keyUID then info_int key v (\<lambda>n. info\<lparr>i_UID := n\<rparr>)
      else if key = keyGID then info_int key v (\<lambda>n. info\<lparr>i_GID := n\<rparr>)
      else if key = keyNFSPort then info_int key v (\<lambda>n. info\<lparr>i_NFSPort := n\<rparr>)
      else if key = keyAgent then Inr (info\<lparr>i_Agent := v\<rparr>)
      else if key = keyStorage then Inr (info\<lparr>i_Storage := v\<rparr>)
      else if key = keyMode then Inr (info\<lparr>i_Mode := v\<rparr>)
      else if key = keyDaemonPaths then Inr (info\<lparr>i_DaemonPaths := splitPaths v\<rparr>)
      else if key = keyUnion then Inr (info\<lparr>i_Union := v\<rparr>)
      else if key = keyNow then info_int key v (\<lambda>n. info\<lparr>i_Now := n\<rparr>)
      else if key = keyDocker then Inr (info\<lparr>i_Docker := v\<rparr>)
      else if key = keyHostGateway then Inr (info\<lparr>i_HostGateway := v\<rparr>)
      else if key = keyClient then
        (if \<not> validClientID v then Inl (NotAClientID v) else Inr (info\<lparr>i_Client := v\<rparr>))
      else Inr (info\<lparr>i_Extra := mput key v (i_Extra info)\<rparr>))"

fun info_lines :: "string list \<Rightarrow> Info \<times> string set \<Rightarrow> info_error + Info \<times> string set" where
  "info_lines [] s = Inr s"
| "info_lines (l # ls) (info, seen) =
     (if max_token \<le> length l then Inl LineTooLong
      else let line = TrimSpace (drop_CR l)
           in if line = [] \<or> HasPrefix line ''#'' then info_lines ls (info, seen)
              else case Cut CHR ''='' line of
                None \<Rightarrow> Inl (MalformedLine line)
              | Some (key, v) \<Rightarrow>
                  (case info_field (TrimSpace key) v info of
                     Inl e \<Rightarrow> Inl e
                   | Inr info' \<Rightarrow> info_lines ls (info', insert (TrimSpace key) seen)))"

definition info_check :: "Info \<times> string set \<Rightarrow> info_error + Info" where
  "info_check = (\<lambda>(info, seen).
     if keyUser \<notin> seen then Inl (MissingKey keyUser)
     else if keyNFSPort \<notin> seen then Inl (MissingKey keyNFSPort)
     else if i_User info = [] then Inl EmptyUser
     else let unbound = (i_NFSPort info = 0 \<and> i_Client info \<noteq> [])
          in if \<not> unbound \<and> (i_NFSPort info < 1 \<or> i_NFSPort info > MaxPort) then Inl (NotAPort (i_NFSPort info))
          else Inr info)"

definition ParseInfo :: "string \<Rightarrow> info_error + Info" where
  "ParseInfo body =
     (case info_lines (scan_lines body) (no_info, {}) of Inl e \<Rightarrow> Inl e | Inr s \<Rightarrow> info_check s)"

definition info_pairs :: "Info \<Rightarrow> (string \<times> string) list" where
  "info_pairs i =
     [(keyUser, i_User i),
      (keyUID, Itoa (i_UID i)),
      (keyGID, Itoa (i_GID i)),
      (keyNFSPort, Itoa (i_NFSPort i)),
      (keyDocker, if i_Docker i = [] then DockerUnavailable else i_Docker i),
      (keyAgent, i_Agent i),
      (keyStorage, i_Storage i),
      (keyMode, i_Mode i),
      (keyDaemonPaths, Join '','' (i_DaemonPaths i)),
      (keyUnion, i_Union i),
      (keyNow, Itoa (i_Now i))] @
     (if i_Client i \<noteq> [] then [(keyClient, i_Client i)] else []) @
     (if i_HostGateway i \<noteq> [] then [(keyHostGateway, i_HostGateway i)] else []) @
     map (\<lambda>k. (k, case mget (i_Extra i) k of None \<Rightarrow> [] | Some v \<Rightarrow> v)) (sort (map fst (i_Extra i)))"

definition Encode :: "Info \<Rightarrow> string" where
  "Encode i = concat (map (\<lambda>(k, v). k @ ''='' @ v @ [newline]) (info_pairs i))"

section \<open>Reading back what was encoded\<close>

text \<open>The keys of the record, and what a key and a value must be to survive a line of text.\<close>

definition info_keys :: "string set" where
  "info_keys = {keyUser, keyUID, keyGID, keyNFSPort, keyDocker, keyAgent, keyStorage, keyMode,
     keyDaemonPaths, keyUnion, keyNow, keyClient, keyHostGateway}"

definition pair_ok :: "string \<times> string \<Rightarrow> bool" where
  "pair_ok = (\<lambda>(k, v). k \<noteq> [] \<and> list_all plain k \<and> CHR ''='' \<notin> set k \<and> hd k \<noteq> CHR ''#'' \<and>
     newline \<notin> set v \<and> (v = [] \<or> plain (last v)) \<and> length k + length v + 1 < max_token)"

fun info_fields :: "(string \<times> string) list \<Rightarrow> Info \<Rightarrow> info_error + Info" where
  "info_fields [] info = Inr info"
| "info_fields ((k, v) # ps) info =
     (case info_field k v info of Inl e \<Rightarrow> Inl e | Inr info' \<Rightarrow> info_fields ps info')"

lemma pair_line:
  assumes "pair_ok (k, v)"
  shows "record_line (k @ ''='' @ v)" "Cut CHR ''='' (k @ ''='' @ v) = Some (k, v)" "TrimSpace k = k"
proof -
  from assms have k: "k \<noteq> []" "list_all plain k" "CHR ''='' \<notin> set k" "hd k \<noteq> CHR ''#''" "newline \<notin> set v"
    "v = [] \<or> plain (last v)" "length k + length v + 1 < max_token"
    by (auto simp: pair_ok_def)
  have "plain (hd k)" using k(1,2) by (cases k) auto
  moreover have "newline \<notin> set k" using k(2) by (auto simp: list_all_iff plain_def)
  ultimately show "record_line (k @ ''='' @ v)"
    using k plain_separators by (auto simp: record_line_def)
  show "Cut CHR ''='' (k @ ''='' @ v) = Some (k, v)" using Cut_append [OF k(3)] by simp
  show "TrimSpace k = k" using k(2) by (rule TrimSpace_plain_list)
qed

lemma info_lines_pairs:
  "list_all pair_ok ps \<Longrightarrow>
     info_lines (map (\<lambda>(k, v). k @ ''='' @ v) ps) (info, seen) =
       (case info_fields ps info of Inl e \<Rightarrow> Inl e | Inr info' \<Rightarrow> Inr (info', seen \<union> fst ` set ps))"
proof (induction ps arbitrary: info seen)
  case (Cons p ps)
  obtain k v where p: "p = (k, v)" by (cases p)
  with Cons.prems have ok: "pair_ok (k, v)" by simp
  let ?l = "k @ ''='' @ v"
  have l: "\<not> max_token \<le> length ?l" "TrimSpace (drop_CR ?l) = ?l" "?l \<noteq> []" "\<not> HasPrefix ?l ''#''"
    using pair_line(1) [OF ok] record_line_trim [OF pair_line(1) [OF ok]]
    by (auto simp: record_line_def HasPrefix_iff)
  have step: "info_lines (?l # ls) (info, seen) =
      (case info_field k v info of Inl e \<Rightarrow> Inl e | Inr info' \<Rightarrow> info_lines ls (info', insert k seen))" for ls
    unfolding info_lines.simps Let_def l(2) pair_line(2,3) [OF ok] using l(1,3,4)
    by (simp del: append_Cons add: pair_line(3) [OF ok] split: sum.splits)
  have "info_lines (map (\<lambda>(k, v). k @ ''='' @ v) (p # ps)) (info, seen) =
      info_lines (?l # map (\<lambda>(k, v). k @ ''='' @ v) ps) (info, seen)"
    by (simp add: p)
  then show ?case
    unfolding step using Cons by (simp add: p split: sum.splits)
qed simp

lemma scan_lines_concat:
  assumes "\<And>l. l \<in> set ls \<Longrightarrow> newline \<notin> set l"
  shows "scan_lines (concat (map (\<lambda>l. l @ [newline]) ls)) = ls"
proof (cases "ls = []")
  case True
  then show ?thesis by (simp add: scan_lines_def)
next
  case False
  have "concat (map (\<lambda>l. l @ [newline]) ls) = Join [newline] ls @ [newline]"
    using False by (induction "[newline]" ls rule: Join.induct) auto
  then show ?thesis using False assms by (simp add: scan_lines_def Split_snoc Split_Join)
qed

lemma ParseInfo_Encode_pairs:
  assumes "list_all pair_ok (info_pairs i)"
  shows "ParseInfo (Encode i) =
    (case info_fields (info_pairs i) no_info of Inl e \<Rightarrow> Inl e
     | Inr info \<Rightarrow> info_check (info, fst ` set (info_pairs i)))"
proof -
  let ?ls = "map (\<lambda>(k, v). k @ ''='' @ v) (info_pairs i)"
  have "newline \<notin> set l" if "l \<in> set ?ls" for l
    using that assms pair_line(1) by (auto simp: list_all_iff record_line_def)
  then have "scan_lines (concat (map (\<lambda>l. l @ [newline]) ?ls)) = ?ls" by (rule scan_lines_concat)
  moreover have "Encode i = concat (map (\<lambda>l. l @ [newline]) ?ls)"
    by (simp add: Encode_def comp_def case_prod_unfold)
  ultimately have "scan_lines (Encode i) = ?ls" by simp
  then show ?thesis
    using info_lines_pairs [OF assms, of no_info "{}"] by (simp add: ParseInfo_def split: sum.splits)
qed

lemma info_fields_append:
  "info_fields (ps @ qs) info = (case info_fields ps info of Inl e \<Rightarrow> Inl e | Inr info' \<Rightarrow> info_fields qs info')"
  by (induction ps info rule: info_fields.induct) (auto split: sum.splits)

lemma info_field_extra:
  "k \<notin> info_keys \<Longrightarrow> info_field k v info = Inr (info\<lparr>i_Extra := mput k v (i_Extra info)\<rparr>)"
  unfolding info_field_def info_keys_def by (simp only: insert_iff de_Morgan_disj if_False)

lemma info_fields_extra:
  "fst ` set ps \<inter> info_keys = {} \<Longrightarrow>
     info_fields ps info = Inr (info\<lparr>i_Extra := fold (\<lambda>(k, v). mput k v) ps (i_Extra info)\<rparr>)"
proof (induction ps arbitrary: info)
  case (Cons p ps)
  obtain k v where p: "p = (k, v)" by (cases p)
  with Cons.prems have "k \<notin> info_keys" "fst ` set ps \<inter> info_keys = {}" by auto
  with Cons.IH show ?case by (simp add: p info_field_extra)
qed simp

lemma mget_fold_map:
  "distinct ks \<Longrightarrow> mget (fold (\<lambda>(k, v). mput k v) (map (\<lambda>k. (k, f k)) ks) m) k =
     (if k \<in> set ks then Some (f k) else mget m k)"
  by (induction ks arbitrary: m) auto

lemma splitPaths_Join:
  assumes "\<And>p. p \<in> set ps \<Longrightarrow> p \<noteq> [] \<and> list_all plain p \<and> CHR '','' \<notin> set p"
  shows "splitPaths (Join '','' ps) = ps"
proof (cases "ps = []")
  case True
  then show ?thesis by (simp add: splitPaths_def)
next
  case False
  then have "Split CHR '','' (Join '','' ps) = ps" using assms by (intro Split_Join) auto
  moreover have "map TrimSpace ps = ps"
    using assms TrimSpace_plain_list by (intro map_idI) blast
  ultimately show ?thesis using assms by (simp add: splitPaths_def filter_id_conv)
qed

text \<open>What an answer must be to be sent as lines of text: numbers a 64-bit platform has, a port or a run
  that has none yet, paths of plain characters, and extra keys that are not the record's own.\<close>

definition encodable :: "Info \<Rightarrow> bool" where
  "encodable i \<longleftrightarrow>
     list_all pair_ok (info_pairs i) \<and> in_int64 (i_UID i) \<and> in_int64 (i_GID i) \<and> in_int64 (i_Now i) \<and>
     i_User i \<noteq> [] \<and> (i_Client i = [] \<or> validClientID (i_Client i)) \<and>
     (1 \<le> i_NFSPort i \<and> i_NFSPort i \<le> MaxPort \<or> i_NFSPort i = 0 \<and> i_Client i \<noteq> []) \<and>
     list_all (\<lambda>p. p \<noteq> [] \<and> list_all plain p \<and> CHR '','' \<notin> set p) (i_DaemonPaths i) \<and>
     wfm (i_Extra i) \<and> list_all (\<lambda>(k, v). k \<notin> info_keys) (i_Extra i)"

lemma info_fields_known:
  assumes "encodable i"
  shows "info_fields
     [(keyUser, i_User i), (keyUID, Itoa (i_UID i)), (keyGID, Itoa (i_GID i)), (keyNFSPort, Itoa (i_NFSPort i)),
      (keyDocker, d), (keyAgent, i_Agent i), (keyStorage, i_Storage i), (keyMode, i_Mode i),
      (keyDaemonPaths, Join '','' (i_DaemonPaths i)), (keyUnion, i_Union i), (keyNow, Itoa (i_Now i))] no_info =
     Inr (i\<lparr>i_Docker := d, i_Client := '''', i_HostGateway := '''', i_Extra := []\<rparr>)"
proof -
  from assms have n: "Atoi (Itoa (i_UID i)) = Some (i_UID i)" "Atoi (Itoa (i_GID i)) = Some (i_GID i)"
      "Atoi (Itoa (i_Now i)) = Some (i_Now i)"
    by (auto simp: encodable_def Atoi_Itoa)
  have "in_int64 (i_NFSPort i)" using assms by (auto simp: encodable_def in_int64_def MaxPort_def)
  then have p: "Atoi (Itoa (i_NFSPort i)) = Some (i_NFSPort i)" by (rule Atoi_Itoa)
  have s: "splitPaths (Join '','' (i_DaemonPaths i)) = i_DaemonPaths i"
    using assms by (intro splitPaths_Join) (simp add: encodable_def list_all_iff)
  show ?thesis by (simp add: info_field_def info_int_def n p s no_info_def)
qed

lemma info_fields_client:
  "info_fields (if i_Client i \<noteq> [] then [(keyClient, i_Client i)] else [])
     (i\<lparr>i_Docker := d, i_Client := '''', i_HostGateway := h, i_Extra := e\<rparr>) =
   Inr (i\<lparr>i_Docker := d, i_HostGateway := h, i_Extra := e\<rparr>)" if "i_Client i = [] \<or> validClientID (i_Client i)"
  using that by (cases i) (auto simp: info_field_def)

lemma info_fields_gateway:
  "info_fields (if i_HostGateway i \<noteq> [] then [(keyHostGateway, i_HostGateway i)] else [])
     (i\<lparr>i_Docker := d, i_HostGateway := '''', i_Extra := e\<rparr>) = Inr (i\<lparr>i_Docker := d, i_Extra := e\<rparr>)"
  by (cases i) (auto simp: info_field_def)

definition extra_pairs :: "Info \<Rightarrow> (string \<times> string) list" where
  "extra_pairs i = map (\<lambda>k. (k, case mget (i_Extra i) k of None \<Rightarrow> [] | Some v \<Rightarrow> v)) (sort (map fst (i_Extra i)))"

lemma ParseInfo_Encode_eq:
  assumes "encodable i"
  shows "ParseInfo (Encode i) =
    Inr (i\<lparr>i_Docker := (if i_Docker i = [] then DockerUnavailable else i_Docker i),
      i_Extra := fold (\<lambda>(k, v). mput k v) (extra_pairs i) []\<rparr>)"
proof -
  let ?d = "if i_Docker i = [] then DockerUnavailable else i_Docker i"
  let ?extra = "fold (\<lambda>(k, v). mput k v) (extra_pairs i) []"
  from assms have ok: "list_all pair_ok (info_pairs i)" and c: "i_Client i = [] \<or> validClientID (i_Client i)"
    and x: "\<And>k v. (k, v) \<in> set (i_Extra i) \<Longrightarrow> k \<notin> info_keys"
    by (auto simp: encodable_def list_all_iff)
  have xs: "fst ` set (extra_pairs i) \<inter> info_keys = {}"
    using x by (auto simp: image_image extra_pairs_def)
  have "info_fields (info_pairs i) no_info = Inr (i\<lparr>i_Docker := ?d, i_Extra := ?extra\<rparr>)"
    unfolding info_pairs_def extra_pairs_def [symmetric] info_fields_append info_fields_known [OF assms] sum.case
      info_fields_client [OF c] info_fields_gateway info_fields_extra [OF xs]
    by simp
  moreover have "{keyUser, keyNFSPort} \<subseteq> fst ` set (info_pairs i)" by (simp add: info_pairs_def)
  ultimately show ?thesis
    using assms unfolding ParseInfo_Encode_pairs [OF ok] by (auto simp: info_check_def encodable_def)
qed

text \<open>Claim C25. The answer the agent encodes is the answer the client reads: every field, with a daemon that
  could not be asked reported as unavailable, and every key this client does not know kept.\<close>

theorem ParseInfo_Encode:
  assumes "encodable i"
  shows "\<exists>extra. ParseInfo (Encode i) =
      Inr (i\<lparr>i_Docker := (if i_Docker i = [] then DockerUnavailable else i_Docker i), i_Extra := extra\<rparr>) \<and>
    (\<forall>k. mget extra k = mget (i_Extra i) k)"
proof -
  have w: "distinct (sort (map fst (i_Extra i)))" using assms by (simp add: encodable_def wfm_def)
  have "mget (fold (\<lambda>(k, v). mput k v) (extra_pairs i) []) k = mget (i_Extra i) k" for k
    unfolding extra_pairs_def mget_fold_map [OF w] using mget_None_iff [of "i_Extra i" k]
    by (auto split: option.splits)
  with ParseInfo_Encode_eq [OF assms] show ?thesis by blast
qed

lemma info_field_client:
  "info_field key v info = Inr info' \<Longrightarrow> i_Client info = [] \<or> validClientID (i_Client info) \<Longrightarrow>
   i_Client info' = [] \<or> validClientID (i_Client info')"
  by (auto simp: info_field_def info_int_def split: if_splits option.splits)

lemma info_lines_client:
  "info_lines ls (info, seen) = Inr (info', seen') \<Longrightarrow> i_Client info = [] \<or> validClientID (i_Client info) \<Longrightarrow>
   i_Client info' = [] \<or> validClientID (i_Client info')"
proof (induction ls arbitrary: info seen)
  case (Cons l ls)
  then show ?case
    using info_field_client by (fastforce simp: Let_def split: if_splits option.splits sum.splits)
qed simp

text \<open>Whatever a workspace answers, an accepted answer names an account, gives a port unless it is for
  a run that has bound none, and a client id in it is one that can name volumes.\<close>

theorem ParseInfo_usable:
  assumes "ParseInfo body = Inr info"
  shows "i_User info \<noteq> [] \<and> (i_Client info = [] \<or> length (i_Client info) = 8 \<and> isLowerHex (i_Client info)) \<and>
    (1 \<le> i_NFSPort info \<and> i_NFSPort info \<le> 65535 \<or> i_NFSPort info = 0 \<and> i_Client info \<noteq> [])"
proof -
  from assms obtain seen where l: "info_lines (scan_lines body) (no_info, {}) = Inr (info, seen)"
    and c: "info_check (info, seen) = Inr info"
    by (auto simp: ParseInfo_def info_check_def Let_def split: sum.splits if_splits)
  from info_lines_client [OF l] have "i_Client info = [] \<or> validClientID (i_Client info)"
    by (simp add: no_info_def)
  with c show ?thesis
    by (auto simp: info_check_def validClientID_def clientIDLen_def MaxPort_def Let_def split: if_splits)
qed

section \<open>Witnesses\<close>

definition an_info :: Info where
  "an_info = no_info\<lparr>i_User := ''dev'', i_UID := 1001, i_GID := 1001, i_NFSPort := 20001,
     i_DaemonPaths := [''/data''], i_Extra := [(''NEXT'', ''1'')]\<rparr>"

lemma an_info_encodable: "encodable an_info"
proof -
  have "Itoa 1001 = ''1001''" "Itoa 20001 = ''20001''" "Itoa 0 = ''0''"
    by (simp_all add: Itoa_def nat_digits.simps digit_chars)
  then have "list_all pair_ok (info_pairs an_info)"
    by (simp add: an_info_def no_info_def info_pairs_def pair_ok_def plain_def max_token_def DockerUnavailable_def)
  then show ?thesis
    by (simp add: encodable_def an_info_def no_info_def in_int64_def MaxPort_def wfm_def info_keys_def plain_def)
qed

theorem ParseInfo_Encode_witness:
  "encodable an_info \<and> (\<exists>extra. ParseInfo (Encode an_info) =
      Inr (an_info\<lparr>i_Docker := ''unavailable'', i_Extra := extra\<rparr>) \<and> mget extra ''NEXT'' = Some ''1'')"
proof -
  have "i_Docker an_info = []" "mget (i_Extra an_info) ''NEXT'' = Some ''1''"
    by (simp_all add: an_info_def no_info_def)
  with ParseInfo_Encode [OF an_info_encodable] an_info_encodable show ?thesis
    by (simp add: DockerUnavailable_def) metis
qed

theorem ParseInfo_usable_witness:
  "\<exists>info. ParseInfo (Encode an_info) = Inr info \<and> i_User info = ''dev'' \<and> i_Client info = [] \<and> 1 \<le> i_NFSPort info"
proof -
  have "i_User an_info = ''dev''" "i_Client an_info = []" by (simp_all add: an_info_def no_info_def)
  with ParseInfo_usable [OF ParseInfo_Encode_eq [OF an_info_encodable]] ParseInfo_Encode_eq [OF an_info_encodable]
  show ?thesis by auto
qed

end
