(* ===== verification/Cache_Decide.thy ===== *)
theory Cache_Decide
  imports Workspace_Info
begin

text \<open>
  What a container's changes mean for the files on this machine.

  \<^item> \<open>dircache/types.go\<close>: what the container did (\<open>Change\<close>) and what happened here (\<open>Op\<close>).
  \<^item> \<open>dircache/decide.go\<close>: baselines, the decision \<open>decide\<close> for files and directories, execute bits, and
    the order of deletions.
  \<^item> \<open>dircache/replace.go\<close>: the deletions a replaced directory implies, the decision for links, and the
    names a union reserves.

  Times are nanoseconds since the epoch, so \<open>==\<close> on baselines compares instants; a directory entry's \<open>fs.FileInfo\<close> is a record, and what this
  machine has at a path (\<open>localAt\<close>, \<open>linkAt\<close>) and when it changed (\<open>ctimeAt\<close>, nil when nothing is
  known) are arguments, as they are in the code. The closures of \<open>decide\<close> are functions that return
  what they add: \<open>lastWriter\<close> also returns the state it notes the change time in.

  The lemmas show when a decision can touch a file that is here, that what was carried back is not carried again, that a directory is deleted after what
  is under it, and what a replaced directory deletes.
\<close>

section \<open>Paths\<close>

text \<open>\<open>path.Dir\<close>, and the loop the code runs up a path: the path and its parents, as far as the root or
  the current directory.\<close>

definition path_Dir :: "string \<Rightarrow> string" where
  "path_Dir p = path_Clean (rev (dropWhile (\<lambda>c. c \<noteq> CHR ''/'') (rev p)))"

definition parts_weight :: "string list \<Rightarrow> nat" where
  "parts_weight ps = sum_list (map (\<lambda>p. length p + 1) ps)"

lemma parts_weight_simps [simp]:
  "parts_weight [] = 0" "parts_weight (p # ps) = length p + 1 + parts_weight ps"
  "parts_weight (ps @ qs) = parts_weight ps + parts_weight qs" "parts_weight (rev ps) = parts_weight ps"
  by (simp_all add: parts_weight_def rev_map [symmetric])

lemma clean_parts_weight: "parts_weight (clean_parts rooted out ps) \<le> parts_weight out + parts_weight ps"
  by (induction rooted out ps rule: clean_parts.induct) (auto split: list.splits)

lemma clean_parts_snoc: "clean_parts rooted out (ps @ [[]]) = clean_parts rooted out ps"
  by (induction rooted out ps rule: clean_parts.induct) (auto split: list.splits)

lemma Join_weight: "ps \<noteq> [] \<Longrightarrow> Suc (length (Join [c] ps)) = parts_weight ps"
  by (induction "[c]" ps rule: Join.induct) auto

lemma Split_weight: "parts_weight (Split c s) = Suc (length s)"
  using Join_weight [of "Split c s" c] by (simp add: Join_Split)

lemma path_Clean_dir:
  "path_Clean (t @ ''/'') \<in> {''/'', ''.''} \<or> length (path_Clean (t @ ''/'')) \<le> length t"
proof (cases "HasPrefix (t @ ''/'') ''/''")
  case rooted: True
  let ?ps = "clean_parts True [] (Split CHR ''/'' t)"
  have c: "path_Clean (t @ ''/'') = ''/'' @ Join ''/'' ?ps"
    using rooted by (simp add: path_Clean_def Let_def Split_snoc clean_parts_snoc)
  show ?thesis
  proof (cases "?ps = []")
    case True
    then show ?thesis using c by simp
  next
    case False
    then have "t \<noteq> []" by auto
    with rooted obtain t' where t: "t = CHR ''/'' # t'" by (cases t) (auto simp: HasPrefix_iff)
    then have "parts_weight ?ps \<le> Suc (length t')"
      using clean_parts_weight [of True "[]" "Split CHR ''/'' t'"] by (simp add: Split_weight)
    then show ?thesis using c False Join_weight [of ?ps "CHR ''/''"] by (simp add: t)
  qed
next
  case False
  let ?ps = "clean_parts False [] (Split CHR ''/'' t)"
  have c: "path_Clean (t @ ''/'') = (if ?ps = [] then ''.'' else Join ''/'' ?ps)"
    using False by (simp add: path_Clean_def Let_def Split_snoc clean_parts_snoc)
  have "parts_weight ?ps \<le> Suc (length t)"
    using clean_parts_weight [of False "[]" "Split CHR ''/'' t"] by (simp add: Split_weight)
  then show ?thesis using c Join_weight [of ?ps "CHR ''/''"] by auto
qed

lemma path_Dir_shorter: "path_Dir d \<in> {''/'', ''.''} \<or> length (path_Dir d) < length d"
proof (cases "CHR ''/'' \<in> set d")
  case False
  then have none: "dropWhile (\<lambda>c. c \<noteq> CHR ''/'') (rev d) = []" by (auto simp: dropWhile_eq_Nil_conv)
  show ?thesis unfolding path_Dir_def none by (simp add: path_Clean_def HasPrefix_def)
next
  case True
  let ?d = "dropWhile (\<lambda>c. c \<noteq> CHR ''/'') (rev d)"
  from True have ne: "?d \<noteq> []" by (auto simp: dropWhile_eq_Nil_conv)
  have "hd ?d = CHR ''/''" using hd_dropWhile [OF ne] by simp
  with ne obtain t where t: "?d = CHR ''/'' # t" by (cases ?d) auto
  have "length (CHR ''/'' # t) \<le> length d"
    unfolding t [symmetric] using length_dropWhile_le [of "\<lambda>c. c \<noteq> CHR ''/''" "rev d"] by simp
  then show ?thesis
    using path_Clean_dir [of "rev t"] unfolding path_Dir_def t by auto
qed

function parents :: "string \<Rightarrow> string list" where
  "parents d = (if d = ''/'' \<or> d = ''.'' then [] else d # parents (path_Dir d))"
  by pat_completeness auto
termination
proof (relation "measure (\<lambda>d. if d = ''/'' \<or> d = ''.'' then 0 else Suc (length d))")
  fix d :: string
  assume "\<not> (d = ''/'' \<or> d = ''.'')"
  then show "(path_Dir d, d) \<in> measure (\<lambda>d. if d = ''/'' \<or> d = ''.'' then 0 else Suc (length d))"
    using path_Dir_shorter [of d] by auto
qed simp

declare parents.simps [simp del]

section \<open>What the container did, and what is here\<close>

record Change =
  c_Path :: string
  c_Size :: int
  c_ModTime :: int
  c_Deleted :: bool
  c_Opaque :: bool
  c_Link :: string
  c_Changed :: int
  c_Dir :: bool
  c_Mode :: nat

definition OpRemove :: nat where "OpRemove = 4"
definition OpRename :: nat where "OpRename = 8"

definition Gone :: "nat \<Rightarrow> bool" where
  "Gone op \<longleftrightarrow> and op (or OpRemove OpRename) \<noteq> 0"

record FileInfo =
  f_Size :: int
  f_ModTime :: time
  f_IsDir :: bool
  f_Mode :: nat

record Baseline =
  b_Size :: int
  b_ModTime :: time
  b_Consumer :: int

definition sameFile :: "Baseline \<Rightarrow> Baseline \<Rightarrow> bool" where
  "sameFile b o' \<longleftrightarrow> b_Size b = b_Size o' \<and> b_ModTime b = b_ModTime o'"

definition copiedTime :: "int \<Rightarrow> time \<Rightarrow> bool" where
  "copiedTime theirs ours \<longleftrightarrow>
     theirs = ours \<or> theirs = round_second ours \<or> round_second theirs = ours"

definition carries :: "Baseline \<Rightarrow> Change \<Rightarrow> bool" where
  "carries b c =
     (if c_Size c \<noteq> b_Size b then False
      else if b_Consumer b \<noteq> 0 \<and> c_ModTime c = b_Consumer b then True
      else copiedTime (c_ModTime c) (b_ModTime b))"

definition sameContent :: "Change \<Rightarrow> FileInfo \<Rightarrow> bool" where
  "sameContent c info \<longleftrightarrow> c_Size c = f_Size info \<and> copiedTime (c_ModTime c) (f_ModTime info)"

datatype kind = kindWrite | kindDelete | kindConflict | kindLink | kindMkdir | kindChmod | kindAdopt

fun kind_String :: "kind \<Rightarrow> string" where
  "kind_String kindWrite = ''write''"
| "kind_String kindDelete = ''delete''"
| "kind_String kindLink = ''link''"
| "kind_String kindMkdir = ''mkdir''"
| "kind_String kindChmod = ''chmod''"
| "kind_String kindAdopt = ''adopt''"
| "kind_String kindConflict = ''conflict''"

record seenState =
  s_Here :: bool
  s_Size :: int
  s_Mod :: time
  s_Ctime :: time

record linkState =
  l_Exists :: bool
  l_IsLink :: bool
  l_Target :: string
  l_ModTime :: time

record action =
  a_Path :: string
  a_kind :: kind
  a_Wins :: bool
  a_Why :: string
  a_Link :: string
  a_Consumer :: int
  a_Exec :: int
  a_Dir :: bool
  a_Seen :: seenState
  a_LinkSeen :: linkState

definition not_seen :: seenState where
  "not_seen = \<lparr>s_Here = False, s_Size = 0, s_Mod = zero_time, s_Ctime = zero_time\<rparr>"

definition no_link :: linkState where
  "no_link = \<lparr>l_Exists = False, l_IsLink = False, l_Target = '''', l_ModTime = zero_time\<rparr>"

definition action_of :: "string \<Rightarrow> kind \<Rightarrow> action" where
  "action_of p k = \<lparr>a_Path = p, a_kind = k, a_Wins = False, a_Why = '''', a_Link = '''', a_Consumer = 0,
     a_Exec = 0, a_Dir = False, a_Seen = not_seen, a_LinkSeen = no_link\<rparr>"

fun seenOf :: "FileInfo option \<Rightarrow> seenState" where
  "seenOf None = not_seen"
| "seenOf (Some info) = \<lparr>s_Here = True, s_Size = f_Size info, s_Mod = f_ModTime info, s_Ctime = zero_time\<rparr>"

definition seen_same :: "seenState \<Rightarrow> seenState \<Rightarrow> bool" where
  "seen_same s now \<longleftrightarrow>
     s_Here s = s_Here now \<and> s_Size s = s_Size now \<and> s_Mod s = s_Mod now \<and>
     (IsZero (s_Ctime s) \<or> s_Ctime s = s_Ctime now)"

section \<open>The decision\<close>

abbreviation whyYouLater :: string where
  "whyYouLater \<equiv> ''you changed it here after the container did; your version is kept''"
abbreviation whyYouLaterDeleted :: string where
  "whyYouLaterDeleted \<equiv> ''you changed it here after the container deleted it; your file is kept''"
abbreviation whyNoChangeTime :: string where
  "whyNoChangeTime \<equiv> ''when it last changed here cannot be read; your version is kept''"
abbreviation whyOldWorkspace :: string where
  "whyOldWorkspace \<equiv> ''the container deleted it, and this workspace is too old to say when; update the workspace''"
abbreviation whyDirHere :: string where
  "whyDirHere \<equiv> ''the container has a file where you have a directory; your directory is kept''"
abbreviation whyFileHere :: string where
  "whyFileHere \<equiv> ''the container made a directory where you have a file; your file is kept''"

definition consumerLater :: "int \<Rightarrow> time \<Rightarrow> duration \<Rightarrow> duration \<Rightarrow> bool" where
  "consumerLater theirs ours skew delay \<longleftrightarrow> theirs - skew > ours + delay"

definition execFlip :: "Change \<Rightarrow> FileInfo option \<Rightarrow> nat \<Rightarrow> int" where
  "execFlip c info exec =
     (case info of None \<Rightarrow> 0
      | Some i \<Rightarrow>
          if exec = 0 \<or> c_Changed c = 0 then 0
          else let theirs = (and (c_Mode c) exec \<noteq> 0); ours = (and (f_Mode i) 73 \<noteq> 0)
               in if theirs = ours then 0 else if theirs then 1 else - 1)"

definition withExec :: "nat \<Rightarrow> int \<Rightarrow> nat" where
  "withExec perm exec =
     (if exec > 0 then or perm (drop_bit 2 (and perm 292))
      else if exec < 0 then xor perm (and perm 73)
      else perm)"

definition conflictReason :: "bool \<Rightarrow> string" where
  "conflictReason containerWins =
     (if containerWins then ''both changed it; the container wrote last, so its version is kept''
      else ''both changed it; you wrote last, so your version is kept'')"

type_synonym localAt = "string \<Rightarrow> FileInfo option"
type_synonym ctimeAt = "(string \<Rightarrow> time option) option"

text \<open>Whether the container's time is later than this machine's change time, when both are known, and the
  state with the change time noted when it was read.\<close>

definition lastWriter :: "ctimeAt \<Rightarrow> duration \<Rightarrow> string \<Rightarrow> int \<Rightarrow> duration \<Rightarrow> seenState \<Rightarrow> bool option \<times> seenState" where
  "lastWriter ctime skew p theirs delay st =
     (case ctime of
        None \<Rightarrow> (None, st)
      | Some ct \<Rightarrow>
          if theirs = 0 then (None, st)
          else (case ct p of
                  None \<Rightarrow> (None, st)
                | Some ours \<Rightarrow> (Some (consumerLater theirs ours skew delay), st\<lparr>s_Ctime := ours\<rparr>)))"

definition keep :: "string \<Rightarrow> string \<Rightarrow> action" where
  "keep p why = (action_of p kindConflict)\<lparr>a_Why := why\<rparr>"

definition held :: "(string, bool) gomap \<Rightarrow> string \<Rightarrow> bool" where
  "held recorded p \<longleftrightarrow> list_ex (\<lambda>(r, _). p \<in> set (parents r)) recorded"

definition decideHeld ::
    "Change \<Rightarrow> Baseline \<Rightarrow> FileInfo option \<Rightarrow> (int \<Rightarrow> duration \<Rightarrow> seenState \<Rightarrow> bool option \<times> seenState) \<Rightarrow>
     duration \<Rightarrow> nat \<Rightarrow> seenState \<Rightarrow> action list \<times> seenState" where
  "decideHeld change base info last_writer skew exec st =
     (let p = c_Path change;
          youChanged = (case info of None \<Rightarrow> True | Some i \<Rightarrow> f_Size i \<noteq> b_Size base \<or> f_ModTime i \<noteq> b_ModTime base)
      in if c_Deleted change then
           ((case info of
               None \<Rightarrow> []
             | Some _ \<Rightarrow>
                 if youChanged then [keep p ''the container deleted it and you changed it; your file is kept'']
                 else [action_of p kindDelete]), st)
         else if \<not> youChanged then
           ([(action_of p kindWrite)\<lparr>a_Consumer := c_ModTime change, a_Exec := execFlip change info exec\<rparr>], st)
         else case info of
           None \<Rightarrow>
             ([(keep p ''you deleted it and the container changed it; its version is kept'')
                 \<lparr>a_Wins := True, a_Consumer := c_ModTime change\<rparr>], st)
         | Some i \<Rightarrow>
             (let (last, st') = last_writer (c_Changed change) 0 st;
                  wins = (case last of Some l \<Rightarrow> l | None \<Rightarrow> c_ModTime change - skew > f_ModTime i)
              in ([(keep p (conflictReason wins))
                     \<lparr>a_Wins := wins, a_Consumer := c_ModTime change,
                      a_Exec := (if wins then execFlip change info exec else 0)\<rparr>], st')))"

text \<open>One round of the loop, for a change that is neither a link nor a replaced directory: the actions it
  adds and the state it notes.\<close>

definition decide_file ::
    "(string, Baseline) gomap \<Rightarrow> (string, bool) gomap \<Rightarrow> localAt \<Rightarrow> ctimeAt \<Rightarrow> duration \<Rightarrow> duration \<Rightarrow> nat \<Rightarrow>
     Change \<Rightarrow> action list \<times> seenState" where
  "decide_file manifest recorded local ctime skew margin exec change =
     (let p = c_Path change;
          base = mget manifest p;
          info = local p;
          st = seenOf info;
          is_dir = (case info of None \<Rightarrow> False | Some i \<Rightarrow> f_IsDir i);
          last_writer = lastWriter ctime skew p
      in if c_Dir change then
           (if info = None then (if \<not> held recorded p then [action_of p kindMkdir] else [], st)
            else if \<not> is_dir then ([keep p whyFileHere], st)
            else ([], st))
         else if is_dir then
           (if \<not> c_Deleted change then ([keep p whyDirHere], st)
            else let (last, st') = last_writer (c_Changed change) margin st
                 in (if last = Some True then [(action_of p kindDelete)\<lparr>a_Dir := True\<rparr>] else [], st'))
         else if (case info of None \<Rightarrow> False | Some i \<Rightarrow> \<not> c_Deleted change \<and> sameContent change i) then
           (let flip = execFlip change info exec
            in if flip \<noteq> 0 then
                 (let (last, st') = last_writer (c_Changed change) margin st
                  in (case last of
                        None \<Rightarrow> [keep p whyNoChangeTime]
                      | Some True \<Rightarrow> [(action_of p kindChmod)\<lparr>a_Exec := flip\<rparr>]
                      | Some False \<Rightarrow> [keep p whyYouLater], st'))
               else if base = None then ([(action_of p kindAdopt)\<lparr>a_Consumer := c_ModTime change\<rparr>], st)
               else ([], st))
         else case base of
           Some b \<Rightarrow>
             (if \<not> c_Deleted change \<and> carries b change then ([], st)
              else decideHeld change b info last_writer skew exec st)
         | None \<Rightarrow>
             (if info = None then
                (if \<not> c_Deleted change \<and> mget recorded p \<noteq> Some True
                 then [(action_of p kindWrite)\<lparr>a_Consumer := c_ModTime change\<rparr>] else [], st)
              else if c_Deleted change then
                (let (last, st') = last_writer (c_Changed change) margin st
                 in (if c_Changed change = 0 then [keep p whyOldWorkspace]
                     else case last of
                       None \<Rightarrow> [keep p whyNoChangeTime]
                     | Some True \<Rightarrow> [action_of p kindDelete]
                     | Some False \<Rightarrow> [keep p whyYouLaterDeleted], st'))
              else
                (let theirs = (if c_Changed change \<noteq> 0 then c_Changed change else c_ModTime change);
                     (last, st') = last_writer theirs margin st
                 in (case last of
                       None \<Rightarrow> [keep p whyNoChangeTime]
                     | Some True \<Rightarrow> [(action_of p kindWrite)\<lparr>a_Consumer := c_ModTime change, a_Exec := execFlip change info exec\<rparr>]
                     | Some False \<Rightarrow> [keep p whyYouLater], st'))))"

definition decide_step ::
    "(string, Baseline) gomap \<Rightarrow> (string, bool) gomap \<Rightarrow> localAt \<Rightarrow> ctimeAt \<Rightarrow> duration \<Rightarrow> duration \<Rightarrow> nat \<Rightarrow>
     Change \<Rightarrow> action list \<times> (string, seenState) gomap \<Rightarrow> action list \<times> (string, seenState) gomap" where
  "decide_step manifest recorded local ctime skew margin exec change = (\<lambda>(actions, seen).
     if c_Link change \<noteq> [] then (actions, seen)
     else if c_Opaque change then
       (if local (c_Path change) = None \<and> \<not> held recorded (c_Path change)
        then actions @ [action_of (c_Path change) kindMkdir] else actions, seen)
     else let (as, st) = decide_file manifest recorded local ctime skew margin exec change
          in (actions @ as, mput (c_Path change) st seen))"

definition decide ::
    "(string, Baseline) gomap \<Rightarrow> (string, bool) gomap \<Rightarrow> Change list \<Rightarrow> localAt \<Rightarrow> ctimeAt \<Rightarrow> duration \<Rightarrow>
     duration \<Rightarrow> nat \<Rightarrow> action list" where
  "decide manifest recorded changes local ctime skew margin exec =
     (let (actions, seen) = fold (decide_step manifest recorded local ctime skew margin exec) changes ([], [])
      in map (\<lambda>a. a\<lparr>a_Seen := (case mget seen (a_Path a) of None \<Rightarrow> not_seen | Some st \<Rightarrow> st)\<rparr>) actions)"

definition writes :: "action list \<Rightarrow> string list" where
  "writes actions = map a_Path (filter (\<lambda>a. a_kind a = kindWrite \<or> a_kind a = kindConflict \<and> a_Wins a) actions)"

definition slashes :: "string \<Rightarrow> nat" where
  "slashes p = length (filter (\<lambda>c. c = CHR ''/'') p)"

text \<open>\<open>slices.SortStableFunc\<close> by the number of slashes, the deepest path first.\<close>

definition deletes :: "action list \<Rightarrow> string list" where
  "deletes actions = sort_key (\<lambda>p. - int (slashes p)) (map a_Path (filter (\<lambda>a. a_kind a = kindDelete) actions))"

definition ofKind :: "action list \<Rightarrow> kind \<Rightarrow> action list" where
  "ofKind actions k = filter (\<lambda>a. a_kind a = k) actions"

section \<open>Replaced directories and links\<close>

definition note_change :: "Change \<Rightarrow> (string, bool) gomap \<times> (string, bool) gomap \<Rightarrow> (string, bool) gomap \<times> (string, bool) gomap" where
  "note_change ch = (\<lambda>(hidden, listed).
     if c_Opaque ch then (mput (c_Path ch) True hidden, listed)
     else if c_Deleted ch then (mput (c_Path ch) True hidden, mput (c_Path ch) True listed)
     else (hidden, mput (c_Path ch) True listed))"

definition replacedDeletions :: "(string, Baseline) gomap \<Rightarrow> Change list \<Rightarrow> string list" where
  "replacedDeletions manifest changes =
     (let (hidden, listed) = fold note_change changes ([], [])
      in if hidden = [] then []
         else sort (map fst (filter (\<lambda>(p, b). \<not> (mget listed p = Some True \<or> b_Consumer b \<noteq> 0) \<and>
                list_ex (\<lambda>dir. mget hidden dir = Some True) (parents (path_Dir p))) manifest)))"

definition link_same :: "linkState \<Rightarrow> linkState \<Rightarrow> bool" where
  "link_same s now \<longleftrightarrow> l_Exists s = l_Exists now \<and> l_IsLink s = l_IsLink now \<and> l_Target s = l_Target now \<and>
     l_ModTime s = l_ModTime now"

definition linkBaseline :: "string \<Rightarrow> time \<Rightarrow> Baseline" where
  "linkBaseline target m = \<lparr>b_Size = int (length target), b_ModTime = m, b_Consumer = 0\<rparr>"

definition no_baseline :: Baseline where
  "no_baseline = \<lparr>b_Size = 0, b_ModTime = zero_time, b_Consumer = 0\<rparr>"

definition decide_link :: "(string, Baseline) gomap \<Rightarrow> (string \<Rightarrow> linkState) \<Rightarrow> Change \<Rightarrow> action list" where
  "decide_link manifest local ch =
     (if c_Link ch = [] then []
      else let p = c_Path ch;
               here = local p;
               base = (case mget manifest p of None \<Rightarrow> no_baseline | Some b \<Rightarrow> b);
               make = (action_of p kindLink)\<lparr>a_Link := c_Link ch, a_LinkSeen := here\<rparr>
           in if \<not> l_Exists here then [make]
              else if l_IsLink here \<and> l_Target here = c_Link ch then []
              else if l_IsLink here \<and> base = linkBaseline (l_Target here) (l_ModTime here) \<and> \<not> IsZero (l_ModTime here)
              then [make]
              else if l_IsLink here
              then [keep p ''the container made a link here that points elsewhere than yours; yours is kept'']
              else [keep p ''the container made a link where you have a file; your file is kept''])"

definition decideLinks :: "(string, Baseline) gomap \<Rightarrow> Change list \<Rightarrow> (string \<Rightarrow> linkState) \<Rightarrow> action list" where
  "decideLinks manifest changes local = concat (map (decide_link manifest local) changes)"

definition overlayMarker :: "string \<Rightarrow> bool" where
  "overlayMarker p \<longleftrightarrow> list_ex (\<lambda>part. HasPrefix part ''.wh.'') (Split CHR ''/'' (Trim p ''/''))"

section \<open>When a decision touches what is here\<close>

text \<open>The actions of a round are those of its changes, in their order, each with the state noted.\<close>

definition change_actions ::
    "(string, Baseline) gomap \<Rightarrow> (string, bool) gomap \<Rightarrow> localAt \<Rightarrow> ctimeAt \<Rightarrow> duration \<Rightarrow> duration \<Rightarrow> nat \<Rightarrow>
     Change \<Rightarrow> action list" where
  "change_actions manifest recorded local ctime skew margin exec c =
     fst (decide_step manifest recorded local ctime skew margin exec c ([], []))"

lemma decide_step_fst:
  "fst (decide_step m r local ct skew margin exec c s) = fst s @ change_actions m r local ct skew margin exec c"
  by (cases s) (auto simp: decide_step_def change_actions_def split: prod.splits)

lemma decide_fold_fst:
  "fst (fold (decide_step m r local ct skew margin exec) cs s) =
     fst s @ concat (map (change_actions m r local ct skew margin exec) cs)"
  by (induction cs arbitrary: s) (simp_all add: decide_step_fst)

lemma decide_actions:
  "\<exists>f. decide m r cs local ct skew margin exec =
     map (\<lambda>a. a\<lparr>a_Seen := f a\<rparr>) (concat (map (change_actions m r local ct skew margin exec) cs))"
  using decide_fold_fst [of m r local ct skew margin exec cs "([], [])"]
  by (auto simp: decide_def split: prod.splits)

lemma decide_action:
  assumes "a \<in> set (decide m r cs local ct skew margin exec)"
  obtains c a' st where "c \<in> set cs" and "a' \<in> set (change_actions m r local ct skew margin exec c)"
    and "a = a'\<lparr>a_Seen := st\<rparr>"
  using assms decide_actions [of m r cs local ct skew margin exec] by auto

lemma action_of_simps [simp]:
  "a_Path (action_of p k) = p" "a_kind (action_of p k) = k" "a_Wins (action_of p k) = False"
  "a_Path (keep p why) = p" "a_kind (keep p why) = kindConflict" "a_Wins (keep p why) = False"
  by (simp_all add: action_of_def keep_def)

lemma lastWriter_Some:
  "lastWriter ctime skew p theirs delay st = (Some l, st') \<Longrightarrow>
     \<exists>ct ours. ctime = Some ct \<and> ct p = Some ours \<and> theirs \<noteq> 0 \<and> st' = st\<lparr>s_Ctime := ours\<rparr> \<and>
       l = (theirs - skew > ours + delay)"
  by (auto simp: lastWriter_def consumerLater_def split: option.splits if_splits)

text \<open>An action that puts another version in the place of what this machine has, or removes it.\<close>

definition replaces :: "action \<Rightarrow> bool" where
  "replaces a \<longleftrightarrow> a_kind a = kindWrite \<or> a_kind a = kindDelete \<or> a_kind a = kindConflict \<and> a_Wins a"

definition untouched :: "(string, Baseline) gomap \<Rightarrow> string \<Rightarrow> FileInfo \<Rightarrow> bool" where
  "untouched manifest p info \<longleftrightarrow>
     (\<exists>b. mget manifest p = Some b \<and> f_Size info = b_Size b \<and> f_ModTime info = b_ModTime b)"

text \<open>The container made the change \<open>c\<close> after this machine's last one, by more than \<open>delay\<close>.\<close>

definition container_last :: "ctimeAt \<Rightarrow> duration \<Rightarrow> duration \<Rightarrow> string \<Rightarrow> int \<Rightarrow> bool" where
  "container_last ctime skew delay p t \<longleftrightarrow>
     (\<exists>ct ours. ctime = Some ct \<and> ct p = Some ours \<and> t \<noteq> 0 \<and> t - skew > ours + delay)"

lemma lastWriter_True:
  "lastWriter ctime skew p theirs delay st = (Some True, st') \<Longrightarrow> container_last ctime skew delay p theirs"
  by (auto simp: container_last_def dest!: lastWriter_Some)

definition may_replace :: "(string, Baseline) gomap \<Rightarrow> ctimeAt \<Rightarrow> duration \<Rightarrow> duration \<Rightarrow> FileInfo \<Rightarrow> Change \<Rightarrow> action \<Rightarrow> bool" where
  "may_replace manifest ctime skew margin info c a \<longleftrightarrow>
     (let p = c_Path c in
      a_Path a = p \<and> (a_kind a = kindDelete \<longrightarrow> c_Deleted c) \<and> (a_kind a \<noteq> kindDelete \<longrightarrow> \<not> c_Deleted c) \<and>
      (untouched manifest p info \<or>
       container_last ctime skew (if a_kind a = kindConflict then 0 else margin) p (c_Changed c) \<or>
       a_kind a = kindWrite \<and> c_Changed c = 0 \<and> container_last ctime skew margin p (c_ModTime c) \<or>
       a_kind a = kindConflict \<and> mget manifest p \<noteq> None \<and> c_ModTime c - skew > f_ModTime info))"

lemma decideHeld_replaces:
  assumes "a \<in> set (fst (decideHeld c b (Some info) (lastWriter ctime skew (c_Path c)) skew exec st))"
    and "mget manifest (c_Path c) = Some b" and "replaces a"
  shows "may_replace manifest ctime skew margin info c a"
  using assms
  by (auto simp: decideHeld_def may_replace_def replaces_def untouched_def Let_def
      split: if_splits prod.splits option.splits dest: lastWriter_True)

lemma decide_file_replaces:
  assumes "a \<in> set (fst (decide_file manifest recorded local ctime skew margin exec c))"
    and "local (c_Path c) = Some info" and "replaces a"
  shows "may_replace manifest ctime skew margin info c a"
proof (cases "\<exists>b. mget manifest (c_Path c) = Some b \<and>
    a \<in> set (fst (decideHeld c b (Some info) (lastWriter ctime skew (c_Path c)) skew exec (seenOf (Some info))))")
  case True
  with decideHeld_replaces assms(3) show ?thesis by blast
next
  case False
  with assms show ?thesis
    by (auto simp: decide_file_def may_replace_def replaces_def Let_def
        split: if_splits prod.splits option.splits bool.splits dest: lastWriter_True)
qed

lemma may_replace_seen [simp]:
  "may_replace manifest ctime skew margin info c (a\<lparr>a_Seen := st\<rparr>) = may_replace manifest ctime skew margin info c a"
  "replaces (a\<lparr>a_Seen := st\<rparr>) = replaces a"
  by (simp_all add: may_replace_def replaces_def)

lemma change_actions_file:
  "c_Link c = [] \<Longrightarrow> \<not> c_Opaque c \<Longrightarrow>
     change_actions m r local ct skew margin exec c = fst (decide_file m r local ct skew margin exec c)"
  by (simp add: change_actions_def decide_step_def split: prod.splits)

lemma change_actions_other:
  "a \<in> set (change_actions m r local ct skew margin exec c) \<Longrightarrow> c_Link c \<noteq> [] \<or> c_Opaque c \<Longrightarrow>
     a = action_of (c_Path c) kindMkdir \<and> local (c_Path c) = None"
  by (auto simp: change_actions_def decide_step_def split: if_splits prod.splits)

lemma decide_file_path:
  "a \<in> set (fst (decide_file m r local ct skew margin exec c)) \<Longrightarrow> a_Path a = c_Path c"
  by (auto simp: decide_file_def decideHeld_def Let_def split: if_splits prod.splits option.splits bool.splits)

lemma change_actions_path:
  "a \<in> set (change_actions m r local ct skew margin exec c) \<Longrightarrow> a_Path a = c_Path c"
  using change_actions_file decide_file_path change_actions_other by (metis action_of_simps(1))



section \<open>Deletions\<close>

lemma slashes_append [simp]: "slashes (p @ q) = slashes p + slashes q"
  by (simp add: slashes_def)

text \<open>Exactly the paths decided on are deleted, and after a directory nothing under it is deleted: it
  is empty by then, unless something else is in it.\<close>

theorem deletes_deepest_first:
  "mset (deletes actions) = mset (map a_Path (filter (\<lambda>a. a_kind a = kindDelete) actions)) \<and>
   (\<forall>xs p ys r. deletes actions = xs @ p # ys \<longrightarrow> p @ ''/'' @ r \<notin> set ys)"
proof (intro conjI allI impI)
  show "mset (deletes actions) = mset (map a_Path (filter (\<lambda>a. a_kind a = kindDelete) actions))"
    by (simp add: deletes_def)
  fix xs p ys r
  assume d: "deletes actions = xs @ p # ys"
  have "sorted (map (\<lambda>p. - int (slashes p)) (deletes actions))" by (simp add: deletes_def)
  then have "\<And>q. q \<in> set ys \<Longrightarrow> - int (slashes p) \<le> - int (slashes q)"
    unfolding d by (auto simp: sorted_append)
  moreover have "slashes p < slashes (p @ ''/'' @ r)" by (simp add: slashes_def)
  ultimately show "p @ ''/'' @ r \<notin> set ys" by fastforce
qed

definition hides :: "Change \<Rightarrow> bool" where
  "hides c \<longleftrightarrow> c_Opaque c \<or> c_Deleted c"

lemma note_changes:
  "mget (fst (fold note_change cs (h, l))) p =
     (if \<exists>c \<in> set cs. c_Path c = p \<and> hides c then Some True else mget h p) \<and>
   mget (snd (fold note_change cs (h, l))) p =
     (if \<exists>c \<in> set cs. c_Path c = p \<and> \<not> c_Opaque c then Some True else mget l p)"
proof (induction cs arbitrary: h l)
  case (Cons c cs)
  show ?case
    using Cons.IH [of "fst (note_change c (h, l))" "snd (note_change c (h, l))"]
    by (auto simp: note_change_def hides_def)
qed simp

lemma cut_last:
  assumes "c \<notin> set x"
  shows "(\<exists>r. s @ [c] @ x = d @ [c] @ r) \<longleftrightarrow> (\<exists>r. s @ [c] = d @ [c] @ r)"
proof
  assume "\<exists>r. s @ [c] @ x = d @ [c] @ r"
  then obtain r where "(s @ [c]) @ x = (d @ [c]) @ r" by auto
  then consider us where "s @ [c] = (d @ [c]) @ us" | us where "(s @ [c]) @ us = d @ [c]" "x = us @ r"
    using append_eq_append_conv2 [of "s @ [c]" x "d @ [c]" r] by blast
  then show "\<exists>r. s @ [c] = d @ [c] @ r"
  proof cases
    case (1 us)
    then show ?thesis by (metis append_assoc)
  next
    case (2 us)
    then have "us = []" using assms by (cases us rule: rev_cases) auto
    with 2 show ?thesis by auto
  qed
next
  assume "\<exists>r. s @ [c] = d @ [c] @ r"
  then show "\<exists>r. s @ [c] @ x = d @ [c] @ r" by (metis append_assoc)
qed

lemma cut_at_separator:
  assumes "c \<notin> set x"
  shows "(\<exists>r. (s @ [c] @ x) @ [c] = d @ [c] @ r) \<longleftrightarrow> d = s @ [c] @ x \<or> (\<exists>r. s @ [c] = d @ [c] @ r)"
proof
  assume "\<exists>r. (s @ [c] @ x) @ [c] = d @ [c] @ r"
  then obtain r where r: "(s @ [c] @ x) @ [c] = (d @ [c]) @ r" by auto
  show "d = s @ [c] @ x \<or> (\<exists>r. s @ [c] = d @ [c] @ r)"
  proof (cases r rule: rev_cases)
    case Nil
    with r show ?thesis by simp
  next
    case (snoc r' b)
    with r have "s @ [c] @ x = d @ [c] @ r'" by auto
    with cut_last [OF assms] show ?thesis by blast
  qed
next
  assume "d = s @ [c] @ x \<or> (\<exists>r. s @ [c] = d @ [c] @ r)"
  then consider "d = s @ [c] @ x" | r where "s @ [c] = d @ [c] @ r" by blast
  then show "\<exists>r. (s @ [c] @ x) @ [c] = d @ [c] @ r"
  proof cases
    case 2
    then have "(s @ [c] @ x) @ [c] = d @ [c] @ (r @ x @ [c])" by simp
    then show ?thesis by blast
  qed simp
qed

lemma root_has_no_dir: "d \<noteq> [] \<Longrightarrow> ''/'' \<noteq> d @ CHR ''/'' # r"
  by (cases d) auto

text \<open>The parents of a path within a share are what its separators cut off.\<close>

definition share_path :: "string list \<Rightarrow> string" where
  "share_path ps = ''/'' @ Join ''/'' ps"

lemma Join_snoc: "ps \<noteq> [] \<Longrightarrow> Join sep (ps @ [x]) = Join sep ps @ sep @ x"
  by (induction sep ps rule: Join.induct) auto

lemma share_path_snoc: "share_path (ps @ [x]) = (if ps = [] then ''/'' @ x else share_path ps @ ''/'' @ x)"
  by (simp add: share_path_def Join_snoc)

lemma path_Clean_share_path:
  assumes "list_all good_part ps" and "\<And>p. p \<in> set ps \<Longrightarrow> CHR ''/'' \<notin> set p"
    and "e = [] \<or> e = ''/'' \<and> ps \<noteq> []"
  shows "path_Clean (share_path ps @ e) = share_path ps"
proof (cases "ps = []")
  case True
  with assms(3) show ?thesis by (simp add: share_path_def path_Clean_def HasPrefix_def)
next
  case False
  have s: "Split CHR ''/'' (Join ''/'' ps) = ps" using False assms(2) by (rule Split_Join)
  have "clean_parts True [] (Split CHR ''/'' (Join ''/'' ps @ e)) = ps"
    using assms(3) s Split_snoc [of "CHR ''/''" "Join ''/'' ps"] clean_parts_snoc [of True "[]" ps] clean_parts_good [OF assms(1)]
    by auto
  then show ?thesis by (simp add: share_path_def path_Clean_def HasPrefix_def)
qed

lemma path_Dir_share_path:
  assumes "list_all good_part (ps @ [x])" and "\<And>p. p \<in> set (ps @ [x]) \<Longrightarrow> CHR ''/'' \<notin> set p"
  shows "path_Dir (share_path (ps @ [x])) = share_path ps"
proof -
  have x: "CHR ''/'' \<notin> set (rev x)" using assms(2) by simp
  let ?s = "if ps = [] then [] else share_path ps"
  have "rev (share_path (ps @ [x])) = rev x @ CHR ''/'' # rev ?s" by (simp add: share_path_snoc)
  then have "rev (dropWhile (\<lambda>c. c \<noteq> CHR ''/'') (rev (share_path (ps @ [x])))) = ?s @ ''/''"
    using dropWhile_sep [OF x] by simp
  moreover have "path_Clean (?s @ ''/'') = share_path ps"
    using path_Clean_share_path [of ps "''/''"] path_Clean_share_path [of "[]" "[]"] assms
    by (cases "ps = []") (auto simp: share_path_def)
  ultimately show ?thesis by (simp add: path_Dir_def)
qed

lemma parents_share_path:
  assumes "list_all good_part ps" and "\<And>p. p \<in> set ps \<Longrightarrow> CHR ''/'' \<notin> set p"
  shows "d \<in> set (parents (share_path ps)) \<longleftrightarrow> d \<noteq> [] \<and> ps \<noteq> [] \<and> (\<exists>r. share_path ps @ ''/'' = d @ ''/'' @ r)"
  using assms
proof (induction ps rule: rev_induct)
  case Nil
  show ?case by (simp add: share_path_def parents.simps)
next
  case (snoc x ps)
  let ?p = "share_path (ps @ [x])"
  have x: "CHR ''/'' \<notin> set x" "x \<noteq> []" using snoc.prems by (auto simp: good_part_def)
  have "?p \<noteq> ''/''" using x(2) by (auto simp: share_path_snoc append_eq_Cons_conv)
  moreover have "?p \<noteq> ''.''" by (simp add: share_path_def)
  ultimately have "parents ?p = ?p # parents (share_path ps)"
    using path_Dir_share_path [OF snoc.prems] by (subst parents.simps) simp
  then have "d \<in> set (parents ?p) \<longleftrightarrow> d = ?p \<or> d \<noteq> [] \<and> ps \<noteq> [] \<and> (\<exists>r. share_path ps @ ''/'' = d @ ''/'' @ r)"
    using snoc by simp
  also have "\<dots> \<longleftrightarrow> d \<noteq> [] \<and> (\<exists>r. ?p @ ''/'' = d @ ''/'' @ r)"
  proof -
    let ?s = "if ps = [] then [] else share_path ps"
    have p: "?p = ?s @ ''/'' @ x" by (simp add: share_path_snoc)
    have "(\<exists>r. (?s @ ''/'' @ x) @ ''/'' = d @ ''/'' @ r) \<longleftrightarrow> d = ?s @ ''/'' @ x \<or> (\<exists>r. ?s @ ''/'' = d @ ''/'' @ r)"
      using x(1) by (rule cut_at_separator)
    moreover have "?s = [] \<longleftrightarrow> ps = []" by (simp add: share_path_def)
    ultimately show ?thesis unfolding p using root_has_no_dir [of d] by (cases "ps = []") (simp, blast, simp, blast)
  qed
  finally show ?case by simp
qed

lemma ValidSharePath_parts:
  assumes "ValidSharePath p = None" and "p \<noteq> ''/''"
  obtains ps x where "p = share_path (ps @ [x])" and "list_all good_part (ps @ [x])"
    and "\<And>q. q \<in> set (ps @ [x]) \<Longrightarrow> CHR ''/'' \<notin> set q"
proof -
  from assms obtain q where p: "p = ''/'' @ q" and q: "q \<noteq> []"
    by (auto simp: ValidSharePath_def HasPrefix_iff split: if_splits)
  let ?ps = "Split CHR ''/'' q"
  have t: "TrimPrefix (''/'' @ q) ''/'' = q" by (simp add: TrimPrefix_def HasPrefix_def)
  have "list_all good_part ?ps"
    using assms(1) q t by (auto simp: p ValidSharePath_def bad_component_None split: if_splits)
  moreover obtain ps x where "?ps = ps @ [x]" by (metis Split_not_Nil rev_exhaust)
  moreover have "p = share_path ?ps" by (simp add: p share_path_def Join_Split)
  ultimately show ?thesis using that Split_no_sep by metis
qed

lemma above_share_path:
  assumes "ValidSharePath p = None"
  shows "d \<in> set (parents (path_Dir p)) \<longleftrightarrow> d \<noteq> [] \<and> (\<exists>r. p = d @ ''/'' @ r)"
proof (cases "p = ''/''")
  case True
  have "path_Dir ''/'' = ''/''" by (simp add: path_Dir_def path_Clean_def HasPrefix_def)
  then have "parents (path_Dir p) = []" using True by (simp add: parents.simps)
  then show ?thesis using True by (auto simp: Cons_eq_append_conv)
next
  case False
  obtain ps x where p: "p = share_path (ps @ [x])" "list_all good_part (ps @ [x])"
    "\<And>q. q \<in> set (ps @ [x]) \<Longrightarrow> CHR ''/'' \<notin> set q"
    using ValidSharePath_parts [OF assms False] by blast
  have x: "CHR ''/'' \<notin> set x" using p(3) by simp
  have "path_Dir p = share_path ps" unfolding p(1) using p(2,3) by (rule path_Dir_share_path)
  moreover have "d \<in> set (parents (share_path ps)) \<longleftrightarrow> d \<noteq> [] \<and> ps \<noteq> [] \<and> (\<exists>r. share_path ps @ ''/'' = d @ ''/'' @ r)"
    using p by (intro parents_share_path) auto
  moreover have "(\<exists>r. p = d @ ''/'' @ r) \<longleftrightarrow> (\<exists>r. (if ps = [] then [] else share_path ps) @ ''/'' = d @ ''/'' @ r)"
    using cut_last [OF x, of "if ps = [] then [] else share_path ps" d]
    by (cases "ps = []") (simp add: p(1) share_path_def, simp add: p(1) share_path_snoc)
  ultimately show ?thesis using root_has_no_dir [of d] by (cases "ps = []") auto
qed

text \<open>Claim C21. Removing or replacing a directory deletes, of the files the cache was given, exactly those somewhere
  under a removed or replaced directory that the container does not list itself and did not make; each
  is named once, in order.\<close>

theorem replacedDeletions_exact:
  assumes "wfm manifest" and "list_all (\<lambda>(p, b). ValidSharePath p = None) manifest"
  shows "sorted (replacedDeletions manifest changes) \<and> distinct (replacedDeletions manifest changes) \<and>
    (p \<in> set (replacedDeletions manifest changes) \<longleftrightarrow>
      (\<exists>b. mget manifest p = Some b \<and> b_Consumer b = 0) \<and>
      (\<forall>c \<in> set changes. c_Path c = p \<longrightarrow> c_Opaque c) \<and>
      (\<exists>c \<in> set changes. hides c \<and> c_Path c \<noteq> [] \<and> (\<exists>r. p = c_Path c @ ''/'' @ r)))"
proof -
  obtain hidden listed where n: "fold note_change changes ([], []) = (hidden, listed)" by fastforce
  have h: "mget hidden q = (if \<exists>c \<in> set changes. c_Path c = q \<and> hides c then Some True else None)"
    and l: "mget listed q = (if \<exists>c \<in> set changes. c_Path c = q \<and> \<not> c_Opaque c then Some True else None)" for q
    using note_changes [of changes "[]" "[]" q] by (simp_all add: n)
  let ?P = "\<lambda>(p, b). \<not> (mget listed p = Some True \<or> b_Consumer b \<noteq> 0) \<and>
    list_ex (\<lambda>dir. mget hidden dir = Some True) (parents (path_Dir p))"
  have "filter ?P manifest = []" if "hidden = []" using that by (auto simp: list_ex_iff filter_empty_conv)
  then have eq: "replacedDeletions manifest changes = sort (map fst (filter ?P manifest))"
    unfolding replacedDeletions_def n by simp
  have "distinct (map fst (filter ?P manifest))" using assms(1) by (simp add: wfm_def distinct_map_filter)
  moreover have "p \<in> fst ` set (filter ?P manifest) \<longleftrightarrow> (\<exists>b. mget manifest p = Some b \<and> ?P (p, b))"
    using mget_set [OF assms(1)] by force
  moreover have "?P (p, b) \<longleftrightarrow> b_Consumer b = 0 \<and> (\<forall>c \<in> set changes. c_Path c = p \<longrightarrow> c_Opaque c) \<and>
      (\<exists>c \<in> set changes. hides c \<and> c_Path c \<noteq> [] \<and> (\<exists>r. p = c_Path c @ ''/'' @ r))"
    if b: "mget manifest p = Some b" for b
  proof -
    have "ValidSharePath p = None" using b assms(2) mget_set [OF assms(1)] by (auto simp: list_all_iff)
    from above_share_path [OF this] show ?thesis by (auto simp: h l list_ex_iff)
  qed
  ultimately show ?thesis unfolding eq by auto
qed


section \<open>Execute bits\<close>

lemma numeral_bits:
  "bit (73 :: nat) n \<longleftrightarrow> n = 0 \<or> n = 3 \<or> n = 6"
  "bit (292 :: nat) n \<longleftrightarrow> n = 2 \<or> n = 5 \<or> n = 8"
proof -
  have small: "bit (m :: nat) n \<Longrightarrow> m < 2 ^ 9 \<Longrightarrow> n < 9" for m
  proof (rule ccontr)
    assume "bit m n" "m < 2 ^ 9" "\<not> n < 9"
    moreover from this have "(2 :: nat) ^ 9 \<le> 2 ^ n" by (intro power_increasing) auto
    ultimately show False by (simp add: bit_iff_odd)
  qed
  have "list_all (\<lambda>n. (bit (73 :: nat) n \<longleftrightarrow> n = 0 \<or> n = 3 \<or> n = 6) \<and> (bit (292 :: nat) n \<longleftrightarrow> n = 2 \<or> n = 5 \<or> n = 8)) [0..<9]"
    by code_simp
  then have "n < 9 \<Longrightarrow> (bit (73 :: nat) n \<longleftrightarrow> n = 0 \<or> n = 3 \<or> n = 6) \<and> (bit (292 :: nat) n \<longleftrightarrow> n = 2 \<or> n = 5 \<or> n = 8)"
    unfolding list_all_iff by simp
  then have all: "(bit (73 :: nat) n \<longleftrightarrow> n = 0 \<or> n = 3 \<or> n = 6) \<and> (bit (292 :: nat) n \<longleftrightarrow> n = 2 \<or> n = 5 \<or> n = 8)"
    if "n < 9" using that by blast
  have none: "\<not> bit (73 :: nat) n" "\<not> bit (292 :: nat) n" if "\<not> n < 9"
    using small [of 73] small [of 292] that by auto
  show "bit (73 :: nat) n \<longleftrightarrow> n = 0 \<or> n = 3 \<or> n = 6" "bit (292 :: nat) n \<longleftrightarrow> n = 2 \<or> n = 5 \<or> n = 8"
    using all none by (cases "n < 9"; force)+
qed

lemma some_bit: "m \<noteq> 0 \<longleftrightarrow> (\<exists>n. bit (m :: nat) n)"
  by (metis bit_0_eq bit_eq_iff bot_apply bot_bool_def)

lemma and_execute: "and (m :: nat) 73 \<noteq> 0 \<longleftrightarrow> bit m 0 \<or> bit m 3 \<or> bit m 6"
  unfolding some_bit by (auto simp: bit_and_iff numeral_bits)

lemma and_read: "and (m :: nat) 292 \<noteq> 0 \<longleftrightarrow> bit m 2 \<or> bit m 5 \<or> bit m 8"
  unfolding some_bit by (auto simp: bit_and_iff numeral_bits)

text \<open>Changing a file's execute bits to the container's changes nothing else of its permissions, and
  leaves a file that anyone may read executable exactly when the container's is.\<close>

theorem execute_bits_carried:
  assumes "execFlip c (Some info) exec \<noteq> 0"
  shows "(\<forall>n. n \<notin> {0, 3, 6} \<longrightarrow> bit (withExec (f_Mode info) (execFlip c (Some info) exec)) n = bit (f_Mode info) n) \<and>
    (and (f_Mode info) 292 \<noteq> 0 \<longrightarrow>
      (and (withExec (f_Mode info) (execFlip c (Some info) exec)) 73 \<noteq> 0) = (and (c_Mode c) exec \<noteq> 0))"
proof -
  let ?m = "f_Mode info"
  have plus: "bit (withExec ?m 1) n \<longleftrightarrow> bit ?m n \<or> (n = 0 \<or> n = 3 \<or> n = 6) \<and> bit ?m (n + 2)" for n
    by (auto simp: withExec_def bit_or_iff bit_drop_bit_eq bit_and_iff numeral_bits)
  have minus: "bit (withExec ?m (- 1)) n \<longleftrightarrow> bit ?m n \<and> \<not> (n = 0 \<or> n = 3 \<or> n = 6)" for n
    by (auto simp: withExec_def bit_xor_iff bit_and_iff numeral_bits)
  from assms consider "execFlip c (Some info) exec = 1" "and (c_Mode c) exec \<noteq> 0"
    | "execFlip c (Some info) exec = - 1" "and (c_Mode c) exec = 0"
    by (auto simp: execFlip_def Let_def split: if_splits)
  then show ?thesis
  proof cases
    case 1
    then show ?thesis unfolding 1(1) and_execute and_read plus by (auto simp: numeral_2_eq_2)
  next
    case 2
    then show ?thesis unfolding 2(1) and_execute and_read minus by auto
  qed
qed

section \<open>Witnesses\<close>

text \<open>A file the cache was given at time 100, changed by the container at 900 and not here.\<close>

definition ex_change :: Change where
  "ex_change = \<lparr>c_Path = ''/a'', c_Size = 5, c_ModTime = 900, c_Deleted = False, c_Opaque = False, c_Link = '''',
     c_Changed = 900, c_Dir = False, c_Mode = 493\<rparr>"

definition ex_file :: FileInfo where
  "ex_file = \<lparr>f_Size = 4, f_ModTime = 100, f_IsDir = False, f_Mode = 420\<rparr>"

definition ex_base :: Baseline where
  "ex_base = \<lparr>b_Size = 4, b_ModTime = 100, b_Consumer = 0\<rparr>"

definition ex_local :: localAt where
  "ex_local p = (if p = ''/a'' then Some ex_file else None)"

definition ex_write :: action where
  "ex_write = (action_of ''/a'' kindWrite)\<lparr>a_Consumer := 900, a_Exec := 1, a_Seen := seenOf (Some ex_file)\<rparr>"

lemma ex_decide: "decide [(''/a'', ex_base)] [] [ex_change] ex_local None 0 0 73 = [ex_write]"
  by code_simp



theorem deletes_deepest_first_witness:
  "deletes [action_of ''/d'' kindDelete, action_of ''/d/x'' kindDelete] = [''/d/x'', ''/d''] \<and>
   ''/d/x'' \<notin> set []"
proof -
  have d: "deletes [action_of ''/d'' kindDelete, action_of ''/d/x'' kindDelete] = [''/d/x''] @ ''/d'' # []" by code_simp
  with deletes_deepest_first [of "[action_of ''/d'' kindDelete, action_of ''/d/x'' kindDelete]"]
  show ?thesis by (metis append_Cons append_Nil)
qed

theorem replacedDeletions_exact_witness:
  "''/d/x'' \<in> set (replacedDeletions [(''/d/x'', ex_base)] [ex_change\<lparr>c_Path := ''/d'', c_Deleted := True\<rparr>])"
proof -
  let ?cs = "[ex_change\<lparr>c_Path := ''/d'', c_Deleted := True\<rparr>]"
  have "wfm [(''/d/x'', ex_base)]" by (simp add: wfm_def)
  moreover have "list_all (\<lambda>(p, b). ValidSharePath p = None) [(''/d/x'', ex_base)]" by code_simp
  moreover have "mget [(''/d/x'', ex_base)] ''/d/x'' = Some ex_base \<and> b_Consumer ex_base = 0" by (simp add: ex_base_def)
  moreover have "\<exists>c \<in> set ?cs. hides c \<and> c_Path c \<noteq> [] \<and> (\<exists>r. ''/d/x'' = c_Path c @ ''/'' @ r)"
    by (simp add: hides_def)
  moreover have "\<forall>c \<in> set ?cs. c_Path c = ''/d/x'' \<longrightarrow> c_Opaque c" by simp
  ultimately show ?thesis
    using replacedDeletions_exact [of "[(''/d/x'', ex_base)]" ?cs "''/d/x''"] by blast
qed

definition ex_link :: action where
  "ex_link = (action_of ''/l'' kindLink)\<lparr>a_Link := ''t'', a_LinkSeen := no_link\<rparr>"


theorem execute_bits_carried_witness:
  "and (withExec 420 1) 73 \<noteq> 0 \<and> bit (withExec 420 1) 8 = bit (420 :: nat) 8"
proof -
  have f: "execFlip ex_change (Some ex_file) 73 = 1" by code_simp
  then have "execFlip ex_change (Some ex_file) 73 \<noteq> 0" by simp
  from execute_bits_carried [OF this] f show ?thesis
    by (simp add: ex_file_def ex_change_def)
qed

end
