(* ===== verification/Cache_Memory.thy ===== *)
theory Cache_Memory
  imports Cache_Decide
begin

text \<open>
  What write-back remembers about a share between rounds (\<open>dircache/wbstate.go\<close>): when it may try again
  after a failure, which paths it has given up on until they change, which conflicts it has said, and
  how often a path was asked for.

  The memory is a map from shares to their state; every method holds the lock throughout and is one
  step, except \<open>walked\<close>, which lists the directory between two locked parts and is the two steps
  \<open>walked_have\<close> and \<open>walked_store\<close> with the listing an argument. Nil and empty maps are one value.
  Where the code ranges over a map the model uses the order of the association list; what it builds
  is sorted.

  The lemmas show that the wait doubles up to its bound, that no method but the attaching one gives
  a share a memory, and that a change given up on is the only thing left out of a round.
\<close>

definition writeBackBackoffMin :: duration where "writeBackBackoffMin = 5 * second"
definition writeBackBackoffMax :: duration where "writeBackBackoffMax = 60 * second"

datatype SkipKind = SkipName | SkipLink | SkipClash | SkipMarker | SkipKept

record Skipped =
  k_Path :: string
  k_Why :: string
  k_Kind :: SkipKind

record WriteBackReport =
  r_Stalled :: bool
  r_Since :: time
  r_Next :: time
  r_Reason :: string
  r_FirstPath :: string
  r_Pending :: int
  r_Skipped :: "Skipped list"

record skip =
  sk_change :: Change
  sk_Skipped :: Skipped

record listing =
  li_at :: int
  li_paths :: "string list"

record wbState =
  w_failures :: nat
  w_next :: time
  w_stalled :: bool
  w_since :: time
  w_reason :: string
  w_firstPath :: string
  w_pending :: int
  w_skipped :: "(string, skip) gomap"
  w_said :: "(string, string) gomap"
  w_tried :: "(string, nat) gomap"
  w_walks :: "(string, listing) gomap"

type_synonym writeBacks = "(string, wbState) gomap"

definition new_wbState :: wbState where
  "new_wbState = \<lparr>w_failures = 0, w_next = zero_time, w_stalled = False, w_since = zero_time, w_reason = '''',
     w_firstPath = '''', w_pending = 0, w_skipped = [], w_said = [], w_tried = [], w_walks = []\<rparr>"

definition skip_same :: "skip \<Rightarrow> Change \<Rightarrow> bool" where
  "skip_same s c \<longleftrightarrow>
     c_Size (sk_change s) = c_Size c \<and> c_ModTime (sk_change s) = c_ModTime c \<and>
     c_Deleted (sk_change s) = c_Deleted c \<and> c_Link (sk_change s) = c_Link c \<and>
     c_Changed (sk_change s) = c_Changed c \<and> c_Mode (sk_change s) = c_Mode c"

text \<open>The loop of \<open>backoff\<close>, with the doubling at 64 bits.\<close>

fun backoff_loop :: "duration \<Rightarrow> nat \<Rightarrow> duration \<Rightarrow> duration" where
  "backoff_loop maxWait 0 d = d"
| "backoff_loop maxWait (Suc n) d = (if d < maxWait then backoff_loop maxWait n (int64 (d * 2)) else d)"

definition backoff :: "duration \<Rightarrow> duration \<Rightarrow> nat \<Rightarrow> duration" where
  "backoff minWait maxWait failures = min (backoff_loop maxWait failures minWait) maxWait"

definition wb_reset :: "string \<Rightarrow> writeBacks \<Rightarrow> writeBacks" where
  "wb_reset share w = mput share new_wbState w"

definition wb_drop :: "string \<Rightarrow> writeBacks \<Rightarrow> writeBacks" where
  "wb_drop share w = mdel share w"

definition wb_ready :: "string \<Rightarrow> time \<Rightarrow> writeBacks \<Rightarrow> bool" where
  "wb_ready share now w = (case mget w share of None \<Rightarrow> False | Some s \<Rightarrow> \<not> now < w_next s)"

definition wb_fail ::
    "string \<Rightarrow> time \<Rightarrow> string \<Rightarrow> string \<Rightarrow> int \<Rightarrow> bool \<Rightarrow> writeBacks \<Rightarrow> (bool \<times> time) \<times> writeBacks" where
  "wb_fail share now reason first pending progress w =
     (case mget w share of
        None \<Rightarrow> ((False, zero_time), w)
      | Some s \<Rightarrow>
          let failures = (if progress then 0 else w_failures s);
              next = now + backoff writeBackBackoffMin writeBackBackoffMax failures;
              newly = (\<not> w_stalled s);
              s' = s\<lparr>w_next := next, w_failures := failures + 1,
                w_since := (if newly then now else w_since s),
                w_stalled := True, w_reason := reason, w_firstPath := first, w_pending := pending\<rparr>
          in ((newly, next), mput share s' w))"

definition wb_ok :: "string \<Rightarrow> writeBacks \<Rightarrow> (bool \<times> time) \<times> writeBacks" where
  "wb_ok share w =
     (case mget w share of
        None \<Rightarrow> ((False, zero_time), w)
      | Some s \<Rightarrow>
          ((w_stalled s, w_since s),
           mput share (s\<lparr>w_failures := 0, w_next := zero_time, w_stalled := False, w_reason := '''',
             w_firstPath := '''', w_pending := 0\<rparr>) w))"

definition wb_skip :: "string \<Rightarrow> Change \<Rightarrow> Skipped \<Rightarrow> writeBacks \<Rightarrow> bool \<times> writeBacks" where
  "wb_skip share ch sk w =
     (case mget w share of
        None \<Rightarrow> (False, w)
      | Some s \<Rightarrow>
          let p = c_Path ch;
              s' = s\<lparr>w_skipped := mput p \<lparr>sk_change = ch, sk_Skipped = sk\<lparr>k_Path := p\<rparr>\<rparr> (w_skipped s)\<rparr>
          in ((case mget (w_skipped s) p of None \<Rightarrow> True | Some old \<Rightarrow> \<not> skip_same old ch), mput share s' w))"

definition conflictNew :: "string \<Rightarrow> string \<Rightarrow> string \<Rightarrow> writeBacks \<Rightarrow> bool \<times> writeBacks" where
  "conflictNew share p why w =
     (case mget w share of
        None \<Rightarrow> (False, w)
      | Some s \<Rightarrow>
          if (case mget (w_said s) p of None \<Rightarrow> [] | Some x \<Rightarrow> x) = why then (False, w)
          else (True, mput share (s\<lparr>w_said := mput p why (w_said s)\<rparr>) w))"

definition tries :: "wbState \<Rightarrow> string \<Rightarrow> nat" where
  "tries s p = (case mget (w_tried s) p of None \<Rightarrow> 0 | Some n \<Rightarrow> n)"

definition ranked :: "string \<Rightarrow> string list \<Rightarrow> writeBacks \<Rightarrow> string list" where
  "ranked share paths w =
     (case mget w share of
        None \<Rightarrow> paths
      | Some s \<Rightarrow> if w_tried s = [] then paths else sort_key (tries s) paths)"

definition wb_try :: "string \<Rightarrow> (string, bool) gomap \<Rightarrow> (string, bool) gomap \<Rightarrow> writeBacks \<Rightarrow> writeBacks" where
  "wb_try share asked landed w =
     (case mget w share of
        None \<Rightarrow> w
      | Some s \<Rightarrow>
          mput share (fold (\<lambda>(p, _) s. if mget landed p = Some True then s
                                       else s\<lparr>w_tried := mput p (tries s p + 1) (w_tried s)\<rparr>) asked s) w)"

definition forget_path :: "string \<Rightarrow> wbState \<Rightarrow> wbState" where
  "forget_path p s =
     s\<lparr>w_skipped := mdel p (w_skipped s), w_said := mdel p (w_said s), w_tried := mdel p (w_tried s)\<rparr>"

definition wb_landed :: "string \<Rightarrow> string list list \<Rightarrow> writeBacks \<Rightarrow> writeBacks" where
  "wb_landed share paths w =
     (case mget w share of
        None \<Rightarrow> w
      | Some s \<Rightarrow> mput share (fold (\<lambda>list s. fold forget_path list s) paths s) w)"

definition unskipped :: "string \<Rightarrow> Change list \<Rightarrow> writeBacks \<Rightarrow> Change list" where
  "unskipped share changes w =
     (case mget w share of
        None \<Rightarrow> changes
      | Some s \<Rightarrow>
          if w_skipped s = [] then changes
          else filter (\<lambda>ch. case mget (w_skipped s) (c_Path ch) of
                 None \<Rightarrow> True
               | Some sk \<Rightarrow> \<not> (k_Kind (sk_Skipped sk) \<noteq> SkipKept \<and> skip_same sk ch)) changes)"

definition wb_forget :: "string \<Rightarrow> Change list list \<Rightarrow> writeBacks \<Rightarrow> writeBacks" where
  "wb_forget share pending w =
     (case mget w share of
        None \<Rightarrow> w
      | Some s \<Rightarrow>
          let kept = (\<lambda>p. list_ex (list_ex (\<lambda>ch. c_Path ch = p)) pending)
          in mput share (s\<lparr>w_said := mdel_if (\<lambda>p _. \<not> kept p) (w_said s),
                w_tried := mdel_if (\<lambda>p _. \<not> kept p) (w_tried s),
                w_skipped := mdel_if (\<lambda>p _. \<not> kept p) (w_skipped s),
                w_walks := mdel_if (\<lambda>p _. \<not> kept p) (w_walks s)\<rparr>) w)"

definition no_change :: Change where
  "no_change = \<lparr>c_Path = '''', c_Size = 0, c_ModTime = 0, c_Deleted = False, c_Opaque = False, c_Link = '''',
     c_Changed = 0, c_Dir = False, c_Mode = 0\<rparr>"

definition keep_one ::
    "(string, Change) gomap \<Rightarrow> string \<times> Skipped \<Rightarrow> (string, skip) gomap \<times> Skipped list \<Rightarrow>
     (string, skip) gomap \<times> Skipped list" where
  "keep_one changes = (\<lambda>(p, sk) (skipped, newly).
     let ch = (case mget changes p of None \<Rightarrow> no_change | Some c \<Rightarrow> c);
         add = (mput p \<lparr>sk_change = ch, sk_Skipped = sk\<rparr> skipped)
     in case mget skipped p of
          None \<Rightarrow> (add, newly @ [sk])
        | Some old \<Rightarrow>
            if k_Kind (sk_Skipped old) \<noteq> SkipKept then (skipped, newly)
            else (add, if \<not> skip_same old ch \<or> k_Why (sk_Skipped old) \<noteq> k_Why sk then newly @ [sk] else newly))"

definition keptNow ::
    "string \<Rightarrow> (string, Skipped) gomap \<Rightarrow> (string, Change) gomap \<Rightarrow> writeBacks \<Rightarrow> Skipped list \<times> writeBacks" where
  "keptNow share kept changes w =
     (case mget w share of
        None \<Rightarrow> ([], w)
      | Some s \<Rightarrow>
          let skipped = mdel_if (\<lambda>p sk. k_Kind (sk_Skipped sk) = SkipKept \<and> mget kept p = None) (w_skipped s);
              (skipped', newly) = fold (keep_one changes) kept (skipped, [])
          in (sort_key k_Path newly, mput share (s\<lparr>w_skipped := skipped'\<rparr>) w))"

definition walked_have :: "string \<Rightarrow> string \<Rightarrow> int \<Rightarrow> writeBacks \<Rightarrow> string list option" where
  "walked_have share dir at w =
     (case mget w share of
        None \<Rightarrow> None
      | Some s \<Rightarrow>
          (case mget (w_walks s) dir of
             None \<Rightarrow> None
           | Some wk \<Rightarrow> if li_at wk = at then Some (li_paths wk) else None))"

definition walked_store :: "string \<Rightarrow> string \<Rightarrow> int \<Rightarrow> string list \<Rightarrow> writeBacks \<Rightarrow> writeBacks" where
  "walked_store share dir at paths w =
     (case mget w share of
        None \<Rightarrow> w
      | Some s \<Rightarrow> mput share (s\<lparr>w_walks := mput dir \<lparr>li_at = at, li_paths = paths\<rparr> (w_walks s)\<rparr>) w)"

definition walked :: "string \<Rightarrow> string \<Rightarrow> int \<Rightarrow> string list \<Rightarrow> writeBacks \<Rightarrow> string list \<times> writeBacks" where
  "walked share dir at listed w =
     (case walked_have share dir at w of
        Some paths \<Rightarrow> (paths, w)
      | None \<Rightarrow> (listed, walked_store share dir at listed w))"

definition wb_report :: "string \<Rightarrow> writeBacks \<Rightarrow> WriteBackReport" where
  "wb_report share w =
     (case mget w share of
        None \<Rightarrow> \<lparr>r_Stalled = False, r_Since = zero_time, r_Next = zero_time, r_Reason = '''', r_FirstPath = '''',
          r_Pending = 0, r_Skipped = []\<rparr>
      | Some s \<Rightarrow> \<lparr>r_Stalled = w_stalled s, r_Since = w_since s, r_Next = w_next s, r_Reason = w_reason s,
          r_FirstPath = w_firstPath s, r_Pending = w_pending s,
          r_Skipped = sort_key k_Path (map (\<lambda>(_, sk). sk_Skipped sk) (w_skipped s))\<rparr>)"

section \<open>Waiting\<close>

lemma backoff_loop_doubles:
  "0 < d \<Longrightarrow> maxWait \<le> 2 ^ 62 \<Longrightarrow> min (backoff_loop maxWait n d) maxWait = min (d * 2 ^ n) maxWait"
proof (induction n arbitrary: d)
  case (Suc n)
  show ?case
  proof (cases "d < maxWait")
    case True
    with Suc.prems have "int64 (d * 2) = d * 2" by (intro int64_id) (simp add: in_int64_def)
    with True Suc.IH [of "d * 2"] Suc.prems show ?thesis by (simp add: mult.assoc)
  next
    case False
    have "d * 1 \<le> d * 2 ^ Suc n" using Suc.prems(1) by (intro mult_left_mono) (auto simp del: power_Suc)
    with False show ?thesis by simp
  qed
qed simp

text \<open>The wait after a number of failures in a row is the least wait doubled that many times, and at
  most the greatest.\<close>

theorem backoff_doubles:
  assumes "0 < minWait" and "maxWait \<le> 2 ^ 62"
  shows "backoff minWait maxWait failures = min (minWait * 2 ^ failures) maxWait"
  unfolding backoff_def by (rule backoff_loop_doubles [OF assms])

text \<open>Claim C39. A share whose round failed is not left alone for ever: it is tried again at the time that was
  announced, five seconds after a first failure or one that made progress, twice as long after each
  further one, and never later than a minute after the failure. Until then it is not tried.\<close>

theorem failed_share_is_retried:
  assumes "mget w share = Some s" and "wb_fail share now reason first pending progress w = ((newly, next), w')"
  shows "next = now + min (5 * second * 2 ^ (if progress then 0 else w_failures s)) (60 * second) \<and>
    next \<le> now + 60 * second \<and> (\<forall>t. wb_ready share t w' \<longleftrightarrow> next \<le> t) \<and>
    map_option w_failures (mget w' share) = Some (Suc (if progress then 0 else w_failures s))"
proof -
  have "backoff writeBackBackoffMin writeBackBackoffMax n = min (5 * second * 2 ^ n) (60 * second)" for n
    using backoff_loop_doubles [of writeBackBackoffMin writeBackBackoffMax n]
    by (simp add: backoff_def writeBackBackoffMin_def writeBackBackoffMax_def second_def)
  with assms show ?thesis
    by (auto simp: wb_fail_def wb_ready_def Let_def)
qed

section \<open>Shares\<close>

text \<open>The methods that change the memory, in any order, whichever round calls them.\<close>

datatype wb_op =
  OReset string
| ODrop string
| OFail string time string string int bool
| OOk string
| OSkip string Change Skipped
| OConflict string string string
| OTry string "(string, bool) gomap" "(string, bool) gomap"
| OLanded string "string list list"
| OForget string "Change list list"
| OKept string "(string, Skipped) gomap" "(string, Change) gomap"
| OWalked string string int "string list"

fun wb_step :: "wb_op \<Rightarrow> writeBacks \<Rightarrow> writeBacks" where
  "wb_step (OReset share) w = wb_reset share w"
| "wb_step (ODrop share) w = wb_drop share w"
| "wb_step (OFail share now reason first pending progress) w = snd (wb_fail share now reason first pending progress w)"
| "wb_step (OOk share) w = snd (wb_ok share w)"
| "wb_step (OSkip share ch sk) w = snd (wb_skip share ch sk w)"
| "wb_step (OConflict share p why) w = snd (conflictNew share p why w)"
| "wb_step (OTry share asked landed) w = wb_try share asked landed w"
| "wb_step (OLanded share paths) w = wb_landed share paths w"
| "wb_step (OForget share pending) w = wb_forget share pending w"
| "wb_step (OKept share kept changes) w = snd (keptNow share kept changes w)"
| "wb_step (OWalked share dir at paths) w = walked_store share dir at paths w"

lemmas wb_defs = wb_reset_def wb_drop_def wb_fail_def wb_ok_def wb_skip_def conflictNew_def wb_try_def
  wb_landed_def wb_forget_def keptNow_def walked_store_def

lemma wb_step_none: "op \<noteq> OReset share \<Longrightarrow> mget w share = None \<Longrightarrow> mget (wb_step op w) share = None"
  by (cases op) (auto simp: wb_defs Let_def split: option.splits prod.splits)

text \<open>Claim C38. Once a share is forgotten, rounds that are still running leave nothing behind for the next time
  it is attached: until then it is never due, nothing of it is set aside or reordered, and its memory
  then starts empty.\<close>

theorem forgotten_share_leaves_nothing:
  assumes "OReset share \<notin> set ops"
  shows "let w' = fold wb_step ops (wb_drop share w) in
    mget w' share = None \<and> \<not> wb_ready share now w' \<and> unskipped share changes w' = changes \<and>
    ranked share paths w' = paths \<and> walked_have share dir at w' = None \<and>
    mget (wb_reset share w') share = Some new_wbState"
proof -
  have "mget (fold wb_step ops w0) share = None" if "mget w0 share = None" for w0
    using assms that
  proof (induction ops arbitrary: w0)
    case (Cons op ops)
    then have "mget (wb_step op w0) share = None" by (intro wb_step_none) auto
    with Cons show ?case by simp
  qed simp
  from this [of "wb_drop share w"] show ?thesis
    by (simp add: wb_drop_def wb_reset_def wb_ready_def unskipped_def ranked_def walked_have_def Let_def)
qed

section \<open>Giving up\<close>

lemma unskipped_skip:
  assumes "mget w share = Some s" and "wb_skip share ch sk w = (newly, w')"
  shows "c \<in> set (unskipped share changes w') \<longleftrightarrow> c \<in> set changes \<and>
    (if c_Path c = c_Path ch then \<not> (k_Kind sk \<noteq> SkipKept \<and> skip_same \<lparr>sk_change = ch, sk_Skipped = sk\<rparr> c)
     else c \<in> set (unskipped share changes w))"
proof -
  have eq: "skip_same \<lparr>sk_change = ch, sk_Skipped = x\<rparr> c = skip_same \<lparr>sk_change = ch, sk_Skipped = y\<rparr> c" for x y
    by (simp add: skip_same_def)
  have w': "w' = mput share (s\<lparr>w_skipped := mput (c_Path ch) \<lparr>sk_change = ch, sk_Skipped = sk\<lparr>k_Path := c_Path ch\<rparr>\<rparr> (w_skipped s)\<rparr>) w"
    using assms by (auto simp: wb_skip_def Let_def)
  have ne: "mput (c_Path ch) x (w_skipped s) \<noteq> []" for x
    by (metis mget_mput map_of.simps(1) option.distinct(1))
  show ?thesis
    using assms(1) ne eq [of "sk\<lparr>k_Path := c_Path ch\<rparr>" sk]
    by (cases "w_skipped s = []") (auto simp: unskipped_def w' split: option.splits)
qed

lemma forget_paths_skipped:
  "mget (w_skipped (fold (\<lambda>list s. fold forget_path list s) paths s)) p =
     (if p \<in> \<Union> (set ` set paths) then None else mget (w_skipped s) p)"
proof (induction paths arbitrary: s)
  case (Cons l paths)
  have "mget (w_skipped (fold forget_path l s)) p = (if p \<in> set l then None else mget (w_skipped s) p)"
    by (induction l arbitrary: s) (auto simp: forget_path_def)
  with Cons show ?case by simp
qed simp

text \<open>A change write-back gave up on is left out of every later round, as long as it is the same change
  and its path has not landed; every other change of the round is tried. Once the path lands, or what
  the container did to it differs, it is tried again.\<close>

theorem given_up_until_it_changes:
  assumes "mget w share = Some s" and "wb_skip share ch sk w = (newly, w')" and "k_Kind sk \<noteq> SkipKept"
  shows "(c \<in> set (unskipped share changes w') \<longleftrightarrow> c \<in> set changes \<and>
      (if c_Path c = c_Path ch then \<not> skip_same \<lparr>sk_change = ch, sk_Skipped = sk\<rparr> c
       else c \<in> set (unskipped share changes w))) \<and>
    (c_Path c \<in> \<Union> (set ` set paths) \<longrightarrow>
      (c \<in> set (unskipped share changes (wb_landed share paths w')) \<longleftrightarrow> c \<in> set changes))"
proof -
  obtain s' where "mget w' share = Some s'" using assms by (auto simp: wb_skip_def Let_def)
  then have "c_Path c \<in> \<Union> (set ` set paths) \<Longrightarrow>
      (c \<in> set (unskipped share changes (wb_landed share paths w'))) = (c \<in> set changes)"
    using forget_paths_skipped [of paths s' "c_Path c"] by (auto simp: unskipped_def wb_landed_def)
  with unskipped_skip [OF assms(1,2)] assms(3) show ?thesis by simp
qed

section \<open>Witnesses\<close>

theorem backoff_doubles_witness: "backoff 5 60 3 = 40"
  using backoff_doubles [of 5 60 3] by simp

theorem failed_share_is_retried_witness:
  "snd (fst (wb_fail ''s'' 0 ''full'' ''/a'' 1 False [(''s'', new_wbState\<lparr>w_failures := 4\<rparr>)])) = 60 * second"
proof -
  let ?w = "[(''s'', new_wbState\<lparr>w_failures := 4\<rparr>)]"
  obtain newly n w' where f: "wb_fail ''s'' 0 ''full'' ''/a'' 1 False ?w = ((newly, n), w')" by (metis surj_pair)
  have "mget ?w ''s'' = Some (new_wbState\<lparr>w_failures := 4\<rparr>)" by simp
  from failed_share_is_retried [OF this f] f show ?thesis by (simp add: second_def)
qed

theorem forgotten_share_leaves_nothing_witness:
  "mget (fold wb_step [OFail ''s'' 0 ''full'' ''/a'' 1 False, OOk ''s''] (wb_drop ''s'' [(''s'', new_wbState)])) ''s'' = None"
  using forgotten_share_leaves_nothing [of "''s''" "[OFail ''s'' 0 ''full'' ''/a'' 1 False, OOk ''s'']" "[(''s'', new_wbState)]" 0 "[]" "[]" "''''" 0]
  by (auto simp only: Let_def list.set insert_iff empty_iff wb_op.distinct)

theorem given_up_until_it_changes_witness:
  "let w' = snd (wb_skip ''s'' ex_change \<lparr>k_Path = '''', k_Why = ''bad name'', k_Kind = SkipName\<rparr> [(''s'', new_wbState)]) in
   ex_change \<notin> set (unskipped ''s'' [ex_change] w') \<and>
   ex_change \<in> set (unskipped ''s'' [ex_change] (wb_landed ''s'' [[''/a'']] w'))"
proof -
  let ?sk = "\<lparr>k_Path = '''', k_Why = ''bad name'', k_Kind = SkipName\<rparr>"
  obtain newly w' where k: "wb_skip ''s'' ex_change ?sk [(''s'', new_wbState)] = (newly, w')" by (metis surj_pair)
  have s: "mget [(''s'', new_wbState)] ''s'' = Some new_wbState" by simp
  have n: "k_Kind ?sk \<noteq> SkipKept" by simp
  have p: "c_Path ex_change = ''/a''" by (simp add: ex_change_def)
  from given_up_until_it_changes [OF s k n, of ex_change "[ex_change]" "[[''/a'']]"]
  show ?thesis by (simp add: k p skip_same_def)
qed

end
