(* ===== verification/Union_Changes.thy ===== *)
theory Union_Changes
  imports Cache_Decide
begin

text \<open>
  What the agent reports of a share's cache layer as the container's changes
  (\<open>agent/internal/unions/changes.go\<close>), and what it leaves out because the client's own stream wrote it
  (\<open>noteApplied\<close>, \<open>forgetApplied\<close> and \<open>isApplied\<close> of \<open>unions.go\<close>, \<open>inLayer\<close> of \<open>write.go\<close>).

  The layer is a tree, with what the system answers for each entry; the entries of a directory are in
  the order the walk visits them. \<open>walk\<close> lists the entries the walk calls back for, and \<open>changesIn\<close> is
  the callback over them. \<open>Changes\<close> is the request: the share may have no cache, and its layer may not be
  found or not be there. Every directory of the layer can be listed.

  The lemmas show that no mark of the overlay is ever reported as a file, in the sense of the client's
  own check, that a regular file is reported exactly when it is not as the client last wrote it, and
  that a replaced directory is reported once. A note of what the client wrote is read back from the
  layer after the file is in place, so a write of the container in between is noted as the client's
  and never reported.
\<close>

section \<open>The layer\<close>

text \<open>What an entry is: a regular file with its size and modification time, a directory with whether an
  attribute marks it opaque, a link with its target where it can be read and its modification time,
  a character device with its number, anything else, or an entry whose information cannot be read.\<close>

datatype ukind =
  URegular int int
| UDir bool
| ULink "string option" int
| UDevice int
| UOther
| UNoInfo

record umeta =
  u_kind :: ukind
  u_ctime :: int
  u_perm :: nat

datatype utree = Node umeta "(string \<times> utree) list"

fun meta_of :: "utree \<Rightarrow> umeta" where
  "meta_of (Node m ts) = m"

fun below :: "utree \<Rightarrow> (string \<times> utree) list" where
  "below (Node m ts) = ts"

fun is_dir :: "utree \<Rightarrow> bool" where
  "is_dir (Node m ts) = (case u_kind m of UDir opq \<Rightarrow> True | _ \<Rightarrow> False)"

definition whiteoutPrefix :: string where "whiteoutPrefix = ''.wh.''"
definition opaqueMarker :: string where "opaqueMarker = ''.wh..wh..opq''"
definition opaqueMarkerDev :: string where "opaqueMarkerDev = ''.wh..opq''"

definition isWhiteout :: "umeta \<Rightarrow> bool" where
  "isWhiteout m = (case u_kind m of UDevice n \<Rightarrow> n = 0 | _ \<Rightarrow> False)"

text \<open>The entries below a directory in the order of the walk, each with its names from the root: an entry
  before what is under it, and nothing under a directory named like a mark.\<close>

fun walk :: "string list \<Rightarrow> utree \<Rightarrow> (string list \<times> utree) list"
and walk_all :: "string list \<Rightarrow> (string \<times> utree) list \<Rightarrow> (string list \<times> utree) list" where
  "walk at (Node m ts) = (case u_kind m of UDir opq \<Rightarrow> walk_all at ts | _ \<Rightarrow> [])"
| "walk_all at [] = []"
| "walk_all at ((name, t) # ts) =
     (at @ [name], t) # (if HasPrefix name whiteoutPrefix then [] else walk (at @ [name]) t) @ walk_all at ts"

definition slash_path :: "string list \<Rightarrow> string" where
  "slash_path names = concat (map (\<lambda>n. CHR ''/'' # n) names)"

section \<open>What the client wrote\<close>

record applied =
  ap_size :: int
  ap_modTime :: int
  ap_ctime :: int

type_synonym applied_map = "(string, applied) gomap"

definition noteApplied :: "string \<Rightarrow> applied \<Rightarrow> applied_map \<Rightarrow> applied_map" where
  "noteApplied name a m = mput name a m"

definition forgetApplied :: "string \<Rightarrow> applied_map \<Rightarrow> applied_map" where
  "forgetApplied name m = mdel name m"

definition isApplied :: "applied_map \<Rightarrow> string \<Rightarrow> int \<Rightarrow> int \<Rightarrow> int \<Rightarrow> bool" where
  "isApplied m name sz modTime ctime =
     (case mget m name of
        None \<Rightarrow> False
      | Some a \<Rightarrow> ap_size a = sz \<and> ap_modTime a = modTime \<and> (ap_ctime a = 0 \<or> ctime = 0 \<or> ap_ctime a = ctime))"

text \<open>\<open>inLayer\<close>: the note of a file that landed is what the layer has then, or what the merged mount said of it
  where the layer has none.\<close>

definition inLayer :: "(int \<times> int \<times> int) option \<Rightarrow> int \<Rightarrow> int \<Rightarrow> applied" where
  "inLayer layer sz modTime =
     (case layer of
        Some (s, m, c) \<Rightarrow> \<lparr>ap_size = s, ap_modTime = m, ap_ctime = c\<rparr>
      | None \<Rightarrow> \<lparr>ap_size = sz, ap_modTime = modTime, ap_ctime = 0\<rparr>)"

section \<open>The changes\<close>

definition zero_Change :: Change where
  "zero_Change = \<lparr>c_Path = '''', c_Size = 0, c_ModTime = 0, c_Deleted = False, c_Opaque = False, c_Link = '''',
     c_Changed = 0, c_Dir = False, c_Mode = 0\<rparr>"

text \<open>\<open>path.Split\<close>: up to and with the last slash, and the rest.\<close>

definition path_Split :: "string \<Rightarrow> string \<times> string" where
  "path_Split p =
     (rev (dropWhile (\<lambda>c. c \<noteq> CHR ''/'') (rev p)), rev (takeWhile (\<lambda>c. c \<noteq> CHR ''/'') (rev p)))"

definition markerChange :: "string \<Rightarrow> umeta \<Rightarrow> Change option" where
  "markerChange name m =
     (let (dir, base) = path_Split name
      in if base = opaqueMarker \<or> base = opaqueMarkerDev then
           (let dir = TrimSuffix dir ''/''
            in if dir = '''' then None else Some (zero_Change\<lparr>c_Path := dir, c_Opaque := True\<rparr>))
         else if HasPrefix base (whiteoutPrefix @ ''.wh.'') then None
         else (case u_kind m of
                 URegular sz mt \<Rightarrow> Some (zero_Change\<lparr>c_Path := dir @ TrimPrefix base whiteoutPrefix, c_Deleted := True\<rparr>)
               | UDevice n \<Rightarrow> Some (zero_Change\<lparr>c_Path := dir @ TrimPrefix base whiteoutPrefix, c_Deleted := True\<rparr>)
               | _ \<Rightarrow> None))"

definition markerCtime :: "(string \<times> utree) list \<Rightarrow> int" where
  "markerCtime ts =
     fold (\<lambda>name earliest.
       case map_of ts name of
         None \<Rightarrow> earliest
       | Some t \<Rightarrow> (let c = u_ctime (meta_of t) in if c \<noteq> 0 \<and> (earliest = 0 \<or> c < earliest) then c else earliest))
       [opaqueMarker, opaqueMarkerDev] 0"

definition stamped :: "bool \<Rightarrow> umeta \<Rightarrow> Change \<Rightarrow> Change" where
  "stamped tms m ch = (if tms then ch\<lparr>c_Changed := u_ctime m, c_Mode := u_perm m\<rparr> else ch)"

definition timed :: "bool \<Rightarrow> int \<Rightarrow> Change \<Rightarrow> Change" where
  "timed tms c ch = (if tms then ch\<lparr>c_Changed := c\<rparr> else ch)"

text \<open>A mark: a deletion, or a replaced directory that was not reported yet.\<close>

definition visit_mark :: "bool \<Rightarrow> bool \<Rightarrow> string \<Rightarrow> umeta \<Rightarrow> Change list \<times> string list \<Rightarrow> Change list \<times> string list" where
  "visit_mark carry tms name m acc =
     (case acc of (out, opq) \<Rightarrow>
        (case markerChange name m of
           None \<Rightarrow> acc
         | Some ch \<Rightarrow>
             if \<not> (c_Deleted ch \<or> carry) then acc
             else if c_Opaque ch \<and> c_Path ch \<in> set opq then acc
             else (out @ [timed tms (u_ctime m) ch], if c_Opaque ch then c_Path ch # opq else opq)))"

definition visit ::
    "bool \<Rightarrow> bool \<Rightarrow> applied_map \<Rightarrow> string list \<times> utree \<Rightarrow> Change list \<times> string list \<Rightarrow> Change list \<times> string list" where
  "visit carry tms ap e acc =
     (let (names, t) = e; m = meta_of t; name = slash_path names; (out, opq) = acc
      in if u_kind m = UNoInfo then acc
         else if HasPrefix (last names) whiteoutPrefix then
           (if is_dir t then acc else visit_mark carry tms name m acc)
         else if isWhiteout m then (out @ [timed tms (u_ctime m) (zero_Change\<lparr>c_Path := name, c_Deleted := True\<rparr>)], opq)
         else case u_kind m of
                UDir marked \<Rightarrow>
                  if carry \<and> name \<notin> set opq \<and> marked then
                    (out @ [timed tms (markerCtime (below t)) (zero_Change\<lparr>c_Path := name, c_Opaque := True\<rparr>)], name # opq)
                  else if tms \<and> below t = [] then (out @ [stamped tms m (zero_Change\<lparr>c_Path := name, c_Dir := True\<rparr>)], opq)
                  else acc
              | ULink target mt \<Rightarrow>
                  (case target of
                     Some target \<Rightarrow>
                       if carry then (out @ [stamped tms m (zero_Change\<lparr>c_Path := name, c_Link := target, c_ModTime := mt\<rparr>)], opq) else acc
                   | None \<Rightarrow> acc)
              | URegular sz mt \<Rightarrow>
                  if isApplied ap name sz mt (u_ctime m) then acc
                  else (out @ [stamped tms m (zero_Change\<lparr>c_Path := name, c_Size := sz, c_ModTime := mt\<rparr>)], opq)
              | _ \<Rightarrow> acc)"

definition changesIn :: "bool \<Rightarrow> bool \<Rightarrow> applied_map \<Rightarrow> utree \<Rightarrow> Change list" where
  "changesIn carry tms ap upper = fst (fold (visit carry tms ap) (walk [] upper) ([], []))"

datatype changes_error = ErrNoShare | NotLocated | LayerUnreadable

definition Changes ::
    "(applied_map \<times> utree option option) option \<Rightarrow> bool \<Rightarrow> bool \<Rightarrow> changes_error + Change list" where
  "Changes sh carry tms =
     (case sh of
        None \<Rightarrow> Inl ErrNoShare
      | Some (ap, None) \<Rightarrow> Inl NotLocated
      | Some (ap, Some None) \<Rightarrow> Inl LayerUnreadable
      | Some (ap, Some (Some upper)) \<Rightarrow> Inr (changesIn carry tms ap upper))"

section \<open>Names and paths\<close>

definition plain_name :: "string \<Rightarrow> bool" where
  "plain_name n \<longleftrightarrow> CHR ''/'' \<notin> set n \<and> n \<noteq> []"

text \<open>The names of entries have no slash, in the whole tree.\<close>

fun names_ok :: "utree \<Rightarrow> bool" and names_all_ok :: "(string \<times> utree) list \<Rightarrow> bool" where
  "names_ok (Node m ts) = names_all_ok ts"
| "names_all_ok [] = True"
| "names_all_ok ((n, t) # ts) = (plain_name n \<and> names_ok t \<and> names_all_ok ts)"

text \<open>An entry of the walk: plain names, of which only the last may be a mark's.\<close>

definition entry_ok :: "string list \<Rightarrow> bool" where
  "entry_ok names \<longleftrightarrow> names \<noteq> [] \<and> list_all plain_name names \<and> list_all (\<lambda>n. \<not> HasPrefix n whiteoutPrefix) (butlast names)"

abbreviation unmarked :: "string list \<Rightarrow> bool" where
  "unmarked at \<equiv> list_all (\<lambda>n. plain_name n \<and> \<not> HasPrefix n whiteoutPrefix) at"

lemma entry_ok_snoc: "unmarked at \<Longrightarrow> plain_name name \<Longrightarrow> entry_ok (at @ [name])"
  by (auto simp: entry_ok_def list_all_iff)

lemma walk_names:
  "names_ok t \<Longrightarrow> unmarked at \<Longrightarrow> e \<in> set (walk at t) \<Longrightarrow> entry_ok (fst e)"
  "names_all_ok ts \<Longrightarrow> unmarked at \<Longrightarrow> e \<in> set (walk_all at ts) \<Longrightarrow> entry_ok (fst e)"
proof (induction at t and at ts rule: walk_walk_all.induct)
  case (1 at m ts)
  then show ?case by (cases "u_kind m") simp_all
next
  case (2 at)
  then show ?case by simp
next
  case (3 at name t ts)
  have n: "plain_name name" "names_ok t" "names_all_ok ts" using 3(3) by simp_all
  from 3(5) consider "e = (at @ [name], t)" | "\<not> HasPrefix name whiteoutPrefix" "e \<in> set (walk (at @ [name]) t)" | "e \<in> set (walk_all at ts)"
    by (auto split: if_splits)
  then show ?case
  proof cases
    case 1
    with entry_ok_snoc [OF 3(4) n(1)] show ?thesis by simp
  next
    case 2
    then have "unmarked (at @ [name])" using 3(4) n(1) by simp
    from 3(1) [OF 2(1) n(2) this 2(2)] show ?thesis .
  next
    case q: 3
    from 3(2) [OF n(3) 3(4) q] show ?thesis .
  qed
qed

lemma Split_slash_path: "list_all (\<lambda>n. CHR ''/'' \<notin> set n) ns \<Longrightarrow> Split CHR ''/'' (slash_path ns) = [] # ns"
proof (induction ns)
  case (Cons n ns)
  then have IH: "Split CHR ''/'' (slash_path ns) = [] # ns" and n: "CHR ''/'' \<notin> set n" by simp_all
  have "Split CHR ''/'' (n @ slash_path ns) = n # ns"
  proof (cases ns)
    case Nil
    with n show ?thesis by (simp add: slash_path_def)
  next
    case (Cons n' ns')
    then have p: "slash_path ns = CHR ''/'' # n' @ slash_path ns'" by (simp add: slash_path_def)
    with IH have "Split CHR ''/'' (n' @ slash_path ns') = ns" by simp
    with n p show ?thesis by simp
  qed
  then show ?case by (simp add: slash_path_def)
qed (simp add: slash_path_def)

lemma Split_Trim: "set (Split c (Trim s [c])) \<subseteq> set (Split c s)"
proof -
  have left: "set (Split c (dropWhile (\<lambda>x. x \<in> set [c]) s)) \<subseteq> set (Split c s)" for s
    by (induction s) auto
  have right: "set (Split c (rev (dropWhile (\<lambda>x. x \<in> set [c]) (rev s)))) \<subseteq> set (Split c s)" for s
    by (induction s rule: rev_induct) (auto simp: Split_snoc)
  show ?thesis unfolding Trim_def using left [of s] right [of "dropWhile (\<lambda>x. x \<in> set [c]) s"] by blast
qed

lemma not_marker:
  assumes "list_all (\<lambda>n. CHR ''/'' \<notin> set n \<and> \<not> HasPrefix n whiteoutPrefix) ns"
  shows "\<not> overlayMarker (slash_path ns)"
proof -
  have "list_all (\<lambda>n. CHR ''/'' \<notin> set n) ns" using assms by (simp add: list_all_iff)
  then have "set (Split CHR ''/'' (Trim (slash_path ns) ''/'')) \<subseteq> insert [] (set ns)"
    using Split_Trim [of "CHR ''/''" "slash_path ns"] by (simp add: Split_slash_path)
  then show ?thesis
    using assms by (fastforce simp: overlayMarker_def list_ex_iff list_all_iff whiteoutPrefix_def HasPrefix_def)
qed

lemma path_Split_slash: "CHR ''/'' \<notin> set n \<Longrightarrow> path_Split (slash_path (ns @ [n])) = (slash_path ns @ ''/'', n)"
proof -
  assume "CHR ''/'' \<notin> set n"
  then have "takeWhile (\<lambda>c. c \<noteq> CHR ''/'') (rev n @ CHR ''/'' # rest) = rev n" "dropWhile (\<lambda>c. c \<noteq> CHR ''/'') (rev n @ CHR ''/'' # rest) = CHR ''/'' # rest"
    for rest by (auto simp: takeWhile_append2 dropWhile_append2 takeWhile_tail dropWhile_append3)
  then show ?thesis by (simp add: path_Split_def slash_path_def)
qed

section \<open>The properties\<close>

text \<open>What one entry adds.\<close>

definition adds :: "bool \<Rightarrow> bool \<Rightarrow> applied_map \<Rightarrow> string list \<times> utree \<Rightarrow> Change \<Rightarrow> bool" where
  "adds carry tms ap e ch \<longleftrightarrow> (\<exists>opq. ch \<in> set (fst (visit carry tms ap e ([], opq))))"

lemma visit_out:
  "visit carry tms ap e (out, opq) = (out @ fst (visit carry tms ap e ([], opq)), snd (visit carry tms ap e ([], opq)))"
  by (auto simp: visit_def visit_mark_def Let_def split: prod.splits option.splits ukind.splits)

lemma fold_visit:
  "ch \<in> set (fst (fold (visit carry tms ap) es (out, opq))) \<Longrightarrow> ch \<in> set out \<or> (\<exists>e \<in> set es. adds carry tms ap e ch)"
proof (induction es arbitrary: out opq)
  case (Cons e es)
  obtain add opq' where v: "visit carry tms ap e ([], opq) = (add, opq')" by fastforce
  from Cons.prems have "ch \<in> set (fst (fold (visit carry tms ap) es (out @ add, opq')))"
    using visit_out [of carry tms ap e out opq] by (simp add: v)
  from Cons.IH [OF this] v show ?case by (auto simp: adds_def) (metis fst_conv)
qed simp

lemma TrimPrefix_mark:
  assumes "\<not> HasPrefix base (whiteoutPrefix @ ''.wh.'')" and "HasPrefix base whiteoutPrefix"
  shows "\<not> HasPrefix (TrimPrefix base whiteoutPrefix) whiteoutPrefix"
  using assms by (auto simp: TrimPrefix_def HasPrefix_iff whiteoutPrefix_def)

lemma slash_path_snoc: "slash_path ns @ CHR ''/'' # n = slash_path (ns @ [n])"
  by (simp add: slash_path_def)

lemma markerChange_path:
  assumes "entry_ok (ns @ [n])" and "HasPrefix n whiteoutPrefix" and "markerChange (slash_path (ns @ [n])) m = Some ch"
  shows "\<not> overlayMarker (c_Path ch) \<and> (c_Opaque ch \<longrightarrow> c_Path ch = slash_path ns)"
proof -
  have ns: "list_all (\<lambda>n. CHR ''/'' \<notin> set n \<and> \<not> HasPrefix n whiteoutPrefix) ns" and n: "CHR ''/'' \<notin> set n"
    using assms(1) by (auto simp: entry_ok_def plain_name_def list_all_iff)
  have trim: "TrimSuffix (slash_path ns @ ''/'') ''/'' = slash_path ns"
    by (simp add: TrimSuffix_def HasSuffix_def)
  have gone: "CHR ''/'' \<notin> set (TrimPrefix n whiteoutPrefix)" using n by (auto simp: TrimPrefix_def dest: in_set_dropD)
  consider "n = opaqueMarker \<or> n = opaqueMarkerDev" "ch = zero_Change\<lparr>c_Path := slash_path ns, c_Opaque := True\<rparr>"
    | "\<not> HasPrefix n (whiteoutPrefix @ ''.wh.'')" "ch = zero_Change\<lparr>c_Path := slash_path (ns @ [TrimPrefix n whiteoutPrefix]), c_Deleted := True\<rparr>"
    using assms(3) unfolding markerChange_def path_Split_slash [OF n]
    by (auto simp: Let_def trim slash_path_snoc [symmetric] split: if_splits ukind.splits)
  then show ?thesis
  proof cases
    case 1
    with not_marker [OF ns] show ?thesis by simp
  next
    case 2
    with ns gone TrimPrefix_mark [OF 2(1) assms(2)] not_marker [of "ns @ [TrimPrefix n whiteoutPrefix]"]
    show ?thesis by (simp add: zero_Change_def)
  qed
qed

text \<open>What an entry can add, by its name and kind.\<close>

lemma adds_cases:
  assumes "adds carry tms ap (names, t) ch"
  obtains (mark) c where "HasPrefix (last names) whiteoutPrefix" and "markerChange (slash_path names) (meta_of t) = Some c"
      and "c_Path ch = c_Path c" and "c_Opaque ch = c_Opaque c"
  | (own) "\<not> HasPrefix (last names) whiteoutPrefix" and "c_Path ch = slash_path names"
  using assms
  by (auto simp: adds_def visit_def visit_mark_def Let_def timed_def stamped_def split: if_splits option.splits ukind.splits)

text \<open>Claim C23. No mark of the overlay is reported as a file: the client's own check takes none of the reported paths
  for one.\<close>

theorem reported_paths_are_no_marks:
  assumes "names_ok upper" and "ch \<in> set (changesIn carry tms ap upper)"
  shows "\<not> overlayMarker (c_Path ch)"
proof -
  from assms(2) fold_visit [of ch carry tms ap "walk [] upper" "[]" "[]"] obtain names t where
    e: "(names, t) \<in> set (walk [] upper)" and a: "adds carry tms ap (names, t) ch" by (auto simp: changesIn_def)
  have ok: "entry_ok names" using walk_names(1) [OF assms(1) _ e] by simp
  then obtain ns n where names: "names = ns @ [n]" by (cases names rule: rev_cases) (auto simp: entry_ok_def)
  from a show ?thesis
  proof (cases rule: adds_cases)
    case (mark c)
    with ok names markerChange_path [of ns n "meta_of t" c] show ?thesis by simp
  next
    case own
    then have "list_all (\<lambda>n. CHR ''/'' \<notin> set n \<and> \<not> HasPrefix n whiteoutPrefix) names"
      using ok names by (auto simp: entry_ok_def plain_name_def list_all_iff)
    from not_marker [OF this] own(2) show ?thesis by simp
  qed
qed

lemma fold_visit_keeps: "ch \<in> set out \<Longrightarrow> ch \<in> set (fst (fold (visit carry tms ap) es (out, opq)))"
proof (induction es arbitrary: out opq)
  case (Cons e es)
  obtain add opq' where "visit carry tms ap e ([], opq) = (add, opq')" by fastforce
  with Cons visit_out [of carry tms ap e out opq] show ?case by simp
qed simp

lemma fold_visit_adds:
  assumes "e \<in> set es" and "\<And>opq. ch \<in> set (fst (visit carry tms ap e ([], opq)))"
  shows "ch \<in> set (fst (fold (visit carry tms ap) es (out, opq)))"
  using assms(1)
proof (induction es arbitrary: out opq)
  case (Cons e' es)
  obtain add opq' where v: "visit carry tms ap e' ([], opq) = (add, opq')" by fastforce
  show ?case
  proof (cases "e = e'")
    case True
    with v assms(2) [of opq] have "ch \<in> set (out @ add)" by simp
    from fold_visit_keeps [OF this] v visit_out [of carry tms ap e' out opq] show ?thesis by simp
  next
    case False
    with Cons v visit_out [of carry tms ap e' out opq] show ?thesis by simp
  qed
qed simp


text \<open>A replaced directory is one change, however many marks say so.\<close>

abbreviation opaque_paths :: "Change list \<Rightarrow> string list" where
  "opaque_paths out \<equiv> map c_Path (filter c_Opaque out)"

lemma visit_opaque_adds:
  assumes "visit carry tms ap e ([], opq) = (add, opq')"
  shows "opaque_paths add = [] \<and> opq' = opq \<or> (\<exists>p. p \<notin> set opq \<and> opaque_paths add = [p] \<and> opq' = p # opq)"
proof -
  have f: "c_Opaque (timed b c ch) = c_Opaque ch" "c_Path (timed b c ch) = c_Path ch"
    "c_Opaque (stamped b m ch) = c_Opaque ch" "\<not> c_Opaque zero_Change" for b c ch m
    by (simp_all add: timed_def stamped_def zero_Change_def)
  obtain names t where e: "e = (names, t)" by fastforce
  show ?thesis
  proof (cases "HasPrefix (last names) whiteoutPrefix")
    case True
    with assms show ?thesis
      by (cases "markerChange (slash_path names) (meta_of t)")
        (auto simp: e visit_def visit_mark_def Let_def f split: if_splits)
  next
    case False
    with assms show ?thesis
      by (cases "u_kind (meta_of t)") (auto simp: e visit_def isWhiteout_def Let_def f split: if_splits option.splits)
  qed
qed

lemma fresh_step:
  "distinct xs \<Longrightarrow> set xs = set opq \<Longrightarrow> ys = [] \<and> opq' = opq \<or> (\<exists>p. p \<notin> set opq \<and> ys = [p] \<and> opq' = p # opq) \<Longrightarrow>
    distinct (xs @ ys) \<and> set (xs @ ys) = set opq'"
  by (elim disjE exE conjE) simp_all

lemma visit_opaque:
  assumes "distinct (opaque_paths out)" and "set (opaque_paths out) = set opq" and "visit carry tms ap e (out, opq) = (out', opq')"
  shows "distinct (opaque_paths out') \<and> set (opaque_paths out') = set opq'"
proof -
  obtain add where v: "visit carry tms ap e ([], opq) = (add, opq')" and out': "out' = out @ add"
    using assms(3) visit_out [of carry tms ap e out opq] by (cases "visit carry tms ap e ([], opq)") simp
  from fresh_step [OF assms(1,2) visit_opaque_adds [OF v]] show ?thesis by (simp only: out' filter_append map_append)
qed

theorem replaced_directory_reported_once: "distinct (opaque_paths (changesIn carry tms ap upper))"
proof -
  have "distinct (opaque_paths (fst (fold (visit carry tms ap) es (out, opq))))"
    if "distinct (opaque_paths out)" "set (opaque_paths out) = set opq" for es out opq
    using that
  proof (induction es arbitrary: out opq)
    case (Cons e es)
    obtain out' opq' where v: "visit carry tms ap e (out, opq) = (out', opq')" by fastforce
    from visit_opaque [OF Cons.prems v] Cons.IH [of out' opq'] v show ?case by simp
  qed simp
  then show ?thesis by (simp add: changesIn_def)
qed

text \<open>A note made from the layer stands for the version the layer had then, whatever the client's stream had
  put there.\<close>

lemma isApplied_noted:
  "isApplied (noteApplied name (inLayer (Some (sz, mt, c)) sz' mt') ap) name s m c'
     \<longleftrightarrow> s = sz \<and> m = mt \<and> (c = 0 \<or> c' = 0 \<or> c' = c)"
  by (auto simp: isApplied_def noteApplied_def inLayer_def)

lemma isApplied_forgotten: "\<not> isApplied (forgetApplied name ap) name s m c"
  by (simp add: isApplied_def forgetApplied_def)

lemma isApplied_other:
  "name' \<noteq> name \<Longrightarrow> isApplied (noteApplied name a ap) name' s m c = isApplied ap name' s m c"
  "name' \<noteq> name \<Longrightarrow> isApplied (forgetApplied name ap) name' s m c = isApplied ap name' s m c"
  by (simp_all add: isApplied_def noteApplied_def forgetApplied_def)

text \<open>The client's file has landed, the container writes it, and the note is read back from the layer: the
  container's file is never reported, whatever the client sent. Noted with what was sent it would be.\<close>

abbreviation one_file :: "string \<Rightarrow> int \<Rightarrow> int \<Rightarrow> int \<Rightarrow> utree" where
  "one_file n sz mt c \<equiv>
     Node \<lparr>u_kind = UDir False, u_ctime = 1, u_perm = 493\<rparr> [(n, Node \<lparr>u_kind = URegular sz mt, u_ctime = c, u_perm = 420\<rparr> [])]"

theorem container_write_noted:
  assumes "\<not> HasPrefix n whiteoutPrefix" and "sent \<noteq> mt"
  shows "changesIn carry tms (noteApplied (slash_path [n]) (inLayer (Some (sz, mt, c)) sz' sent) ap) (one_file n sz mt c) = [] \<and>
    changesIn carry tms (noteApplied (slash_path [n]) (inLayer None sz' sent) ap) (one_file n sz mt c) \<noteq> []"
proof
  have w: "walk [] (one_file n sz mt c) = [([n], Node \<lparr>u_kind = URegular sz mt, u_ctime = c, u_perm = 420\<rparr> [])]"
    using assms(1) by simp
  show "changesIn carry tms (noteApplied (slash_path [n]) (inLayer (Some (sz, mt, c)) sz' sent) ap) (one_file n sz mt c) = []"
    using assms(1) by (simp only: changesIn_def w) (simp add: visit_def isWhiteout_def isApplied_noted)
  have "\<not> isApplied (noteApplied (slash_path [n]) (inLayer None sz' sent) ap) (slash_path [n]) sz mt c"
    using assms(2) by (simp add: isApplied_def noteApplied_def inLayer_def)
  then show "changesIn carry tms (noteApplied (slash_path [n]) (inLayer None sz' sent) ap) (one_file n sz mt c) \<noteq> []"
    using assms(1) by (simp only: changesIn_def w) (simp add: visit_def isWhiteout_def)
qed

section \<open>Witnesses\<close>

text \<open>A layer with a directory replaced twice over, a file deleted in it and a file the client wrote.\<close>

definition sample_layer :: utree where
  "sample_layer =
     Node \<lparr>u_kind = UDir False, u_ctime = 1, u_perm = 493\<rparr>
       [(''a'', Node \<lparr>u_kind = UDir True, u_ctime = 2, u_perm = 493\<rparr>
           [(''.wh..wh..opq'', Node \<lparr>u_kind = URegular 0 3, u_ctime = 3, u_perm = 420\<rparr> []),
            (''.wh.gone'', Node \<lparr>u_kind = UDevice 0, u_ctime = 4, u_perm = 0\<rparr> []),
            (''kept'', Node \<lparr>u_kind = URegular 7 5, u_ctime = 5, u_perm = 420\<rparr> [])])]"

lemma sample_changes:
  "changesIn True False [] sample_layer =
     [zero_Change\<lparr>c_Path := ''/a'', c_Opaque := True\<rparr>, zero_Change\<lparr>c_Path := ''/a/gone'', c_Deleted := True\<rparr>,
      zero_Change\<lparr>c_Path := ''/a/kept'', c_Size := 7, c_ModTime := 5\<rparr>]"
  by code_simp

theorem reported_paths_are_no_marks_witness: "\<not> overlayMarker ''/a/gone''"
proof -
  have ok: "names_ok sample_layer" by code_simp
  have "zero_Change\<lparr>c_Path := ''/a/gone'', c_Deleted := True\<rparr> \<in> set (changesIn True False [] sample_layer)"
    by (simp add: sample_changes)
  from reported_paths_are_no_marks [OF ok this] show ?thesis by simp
qed


theorem container_write_noted_witness:
  "changesIn True True (noteApplied ''/f'' (inLayer (Some (5, 30, 31)) 4 20) []) (one_file ''f'' 5 30 31) = []"
  using container_write_noted [where n = "''f''" and sent = 20 and mt = 30 and carry = True and tms = True and sz = 5 and c = 31 and sz' = 4 and ap = "[]"]
  by (simp add: whiteoutPrefix_def HasPrefix_def slash_path_def)

end
