(* ===== verification/Watch_Coalescer.thy ===== *)
theory Watch_Coalescer
  imports Cache_Decide "HOL-Library.Sublist"
begin

text \<open>
  Telling a workspace which files changed on the client.

  \<^item> \<open>core/notify/notify.go\<close>: operations, events and what makes an event acceptable.
  \<^item> \<open>core-client/fswatch/coalesce.go\<close>: the coalescer, which merges the events of a path, holds them
    until the path is quiet or has waited long enough, and accounts for what it could not keep.

  An operation set is an 8-bit word. The coalescer has no clock: the time is an argument, in
  nanoseconds. Its pending map is an association list; the order of \<open>flush\<close> is that of the arrival
  numbers, which are the 64-bit counter's values.

  The lemmas show that merging keeps the net effect of the operations, that nothing observed is ever
  lost without a notice that covers it, and that the timer is armed for the moment something is due.
\<close>

unbundle bit_operations_syntax

section \<open>Operations and events\<close>

type_synonym notify_Op = "8 word"

definition op_Create :: notify_Op where "op_Create = 1"
definition op_Write :: notify_Op where "op_Write = 2"
definition op_Remove :: notify_Op where "op_Remove = 4"
definition op_Rename :: notify_Op where "op_Rename = 8"
definition op_Attrib :: notify_Op where "op_Attrib = 16"

definition opAll :: notify_Op where
  "opAll = op_Create OR op_Write OR op_Remove OR op_Rename OR op_Attrib"

text \<open>Go's \<open>&^\<close>.\<close>

definition and_not :: "notify_Op \<Rightarrow> notify_Op \<Rightarrow> notify_Op" where
  "and_not a b = a AND NOT b"

record Event =
  e_Export :: string
  e_Path :: string
  e_Op :: notify_Op
  e_Dir :: bool

record Notice =
  n_Export :: string
  n_Path :: string
  n_Dropped :: int
  n_Reason :: string

datatype event_error = BadExport id_error | BadPath path_error | NoOperation string | UnknownBits string notify_Op

definition event_Validate :: "Event \<Rightarrow> event_error option" where
  "event_Validate e =
     (case ValidExport (e_Export e) of
        Some err \<Rightarrow> Some (BadExport err)
      | None \<Rightarrow>
          (case ValidSharePath (e_Path e) of
             Some err \<Rightarrow> Some (BadPath err)
           | None \<Rightarrow>
               if e_Op e = 0 then Some (NoOperation (e_Path e))
               else if and_not (e_Op e) opAll \<noteq> 0 then Some (UnknownBits (e_Path e) (and_not (e_Op e) opAll))
               else None))"

section \<open>The coalescer\<close>

definition millisecond :: duration where "millisecond = 10 ^ 6"
definition DefaultDebounce :: duration where "DefaultDebounce = 40 * millisecond"
definition DefaultMaxDelay :: duration where "DefaultMaxDelay = 250 * millisecond"
definition DefaultPendingCap :: int where "DefaultPendingCap = 8192"

type_synonym pendingKey = "string \<times> string"

record pendingEvent =
  p_op :: notify_Op
  p_dir :: bool
  p_seq :: "64 word"
  p_first :: time
  p_last :: time

record lost =
  lo_count :: int
  lo_dir :: string

record coalescer =
  co_debounce :: duration
  co_maxDelay :: duration
  co_cap :: int
  co_pending :: "(pendingKey, pendingEvent) gomap"
  co_lost :: "(string, lost) gomap"
  co_seq :: "64 word"

definition newCoalescer :: "duration \<Rightarrow> duration \<Rightarrow> int \<Rightarrow> coalescer" where
  "newCoalescer debounce maxDelay capacity =
     \<lparr>co_debounce = (if debounce \<le> 0 then DefaultDebounce else debounce),
      co_maxDelay = (if maxDelay \<le> 0 then DefaultMaxDelay else maxDelay),
      co_cap = (if capacity \<le> 0 then DefaultPendingCap else capacity),
      co_pending = [], co_lost = [], co_seq = 0\<rparr>"

definition mergeOps :: "notify_Op \<Rightarrow> notify_Op \<Rightarrow> notify_Op" where
  "mergeOps had add =
     (let gone = op_Remove OR op_Rename; present = op_Create OR op_Write
      in if add AND gone \<noteq> 0 then and_not had present OR add
         else if add AND present \<noteq> 0 then and_not had gone OR add
         else had OR add)"

definition splitSlash :: "string \<Rightarrow> string list" where
  "splitSlash p = filter (\<lambda>part. part \<noteq> []) (Split CHR ''/'' p)"

definition commonDir :: "string \<Rightarrow> string \<Rightarrow> string" where
  "commonDir a b =
     (if a = b then a
      else let i = longest_common_prefix (splitSlash a) (splitSlash b)
           in if i = [] then ''/'' else ''/'' @ Join ''/'' i)"

definition drop_event :: "string \<Rightarrow> string \<Rightarrow> coalescer \<Rightarrow> coalescer" where
  "drop_event export p c =
     (let l = (case mget (co_lost c) export of
                 None \<Rightarrow> \<lparr>lo_count = 0, lo_dir = path_Dir p\<rparr>
               | Some l \<Rightarrow> l\<lparr>lo_dir := commonDir (lo_dir l) (path_Dir p)\<rparr>)
      in c\<lparr>co_lost := mput export (l\<lparr>lo_count := lo_count l + 1\<rparr>) (co_lost c)\<rparr>)"

definition overflow :: "string \<Rightarrow> string \<Rightarrow> int \<Rightarrow> coalescer \<Rightarrow> coalescer" where
  "overflow export dir n c =
     c\<lparr>co_lost := mput export
        (case mget (co_lost c) export of
           None \<Rightarrow> \<lparr>lo_count = n, lo_dir = dir\<rparr>
         | Some l \<Rightarrow> \<lparr>lo_count = lo_count l + n, lo_dir = commonDir (lo_dir l) dir\<rparr>) (co_lost c)\<rparr>"

definition add_event :: "time \<Rightarrow> Event \<Rightarrow> coalescer \<Rightarrow> coalescer" where
  "add_event now e c =
     (let key = (e_Export e, e_Path e)
      in case mget (co_pending c) key of
           Some p \<Rightarrow>
             c\<lparr>co_pending := mput key (p\<lparr>p_op := mergeOps (p_op p) (e_Op e), p_dir := p_dir p \<or> e_Dir e, p_last := now\<rparr>)
                  (co_pending c)\<rparr>
         | None \<Rightarrow>
             if co_cap c \<le> int (length (co_pending c)) then drop_event (e_Export e) (e_Path e) c
             else let n = co_seq c + 1
                  in c\<lparr>co_seq := n,
                       co_pending := mput key \<lparr>p_op = e_Op e, p_dir = e_Dir e, p_seq = n, p_first = now, p_last = now\<rparr>
                         (co_pending c)\<rparr>)"

definition due :: "coalescer \<Rightarrow> time \<Rightarrow> pendingEvent \<Rightarrow> bool" where
  "due c now p \<longleftrightarrow> co_debounce c \<le> time_Sub now (p_last p) \<or> co_maxDelay c \<le> time_Sub now (p_first p)"

definition due_at :: "coalescer \<Rightarrow> time \<Rightarrow> pendingEvent \<Rightarrow> time" where
  "due_at c now p =
     (let at = p_last p + co_debounce c;
          byDelay = p_first p + co_maxDelay c;
          at' = (if byDelay < at then byDelay else at)
      in if at' < now then now else at')"

definition nextDue :: "coalescer \<Rightarrow> time \<Rightarrow> time \<times> bool" where
  "nextDue c now =
     (let earliest = fold (\<lambda>(_, p) earliest. if IsZero earliest \<or> due_at c now p < earliest then due_at c now p else earliest)
            (co_pending c) zero_time
      in (earliest, \<not> IsZero earliest))"

definition notice_of :: "(string, lost) gomap \<Rightarrow> string \<Rightarrow> Notice" where
  "notice_of losses export =
     (case mget losses export of
        None \<Rightarrow> \<lparr>n_Export = export, n_Path = '''', n_Dropped = 0, n_Reason = ''overflow''\<rparr>
      | Some l \<Rightarrow> \<lparr>n_Export = export, n_Path = lo_dir l, n_Dropped = lo_count l, n_Reason = ''overflow''\<rparr>)"

definition flush :: "time \<Rightarrow> coalescer \<Rightarrow> (Event list \<times> Notice list) \<times> coalescer" where
  "flush now c =
     (let out = sort_key (\<lambda>(_, p). p_seq p) (filter (\<lambda>(_, p). due c now p) (co_pending c));
          events = map (\<lambda>((export, path), p). \<lparr>e_Export = export, e_Path = path, e_Op = p_op p, e_Dir = p_dir p\<rparr>) out;
          notices = map (notice_of (co_lost c)) (sort (map fst (co_lost c)))
      in ((events, notices),
          c\<lparr>co_pending := fold (\<lambda>(key, _) m. mdel key m) out (co_pending c), co_lost := []\<rparr>))"

definition pendingCount :: "coalescer \<Rightarrow> int" where
  "pendingCount c = int (length (co_pending c))"

section \<open>Merging\<close>

definition op_gone :: notify_Op where "op_gone = op_Remove OR op_Rename"
definition op_present :: notify_Op where "op_present = op_Create OR op_Write"

lemmas op_defs = op_gone_def op_present_def op_Create_def op_Write_def op_Remove_def op_Rename_def op_Attrib_def

lemma mergeOps_eq:
  "mergeOps h a = (if a AND op_gone \<noteq> 0 then and_not h op_present OR a
     else if a AND op_present \<noteq> 0 then and_not h op_gone OR a else h OR a)"
  by (simp add: mergeOps_def op_gone_def op_present_def)

lemma gone_present_disjoint: "op_gone AND op_present = 0"
  by (simp add: op_defs)

lemma and_or_zero: "(a OR b) AND (m :: notify_Op) = 0 \<longleftrightarrow> a AND m = 0 \<and> b AND m = 0"
  by (simp add: bit.conj_disj_distrib2) (metis or_eq_0_iff)

lemma and_not_same: "and_not h m AND m = 0"
  by (simp add: and_not_def and.assoc)

lemma and_not_other:
  assumes "m AND m' = 0"
  shows "and_not h m AND m' = h AND m'"
proof (rule bit_word_eqI)
  fix n
  have "bit (m AND m') n = bit (0 :: notify_Op) n" using assms by simp
  then show "bit (and_not h m AND m') n = bit (h AND m') n" if "n < LENGTH(8)"
    using that by (auto simp: and_not_def bit_and_iff bit_not_iff)
qed

text \<open>Whether the operations seen so far leave the path gone or there: what the last one that says either
  says.\<close>

fun last_says :: "notify_Op list \<Rightarrow> bool option \<Rightarrow> bool option" where
  "last_says [] said = said"
| "last_says (a # as) said =
     last_says as (if a AND op_gone \<noteq> 0 then Some True else if a AND op_present \<noteq> 0 then Some False else said)"

definition says :: "notify_Op \<Rightarrow> bool option \<Rightarrow> bool" where
  "says op said \<longleftrightarrow>
     (op AND op_gone \<noteq> 0) = (said = Some True) \<and> (op AND op_present \<noteq> 0) = (said = Some False)"

lemma mergeOps_says:
  assumes "says h said" and "\<not> (a AND op_gone \<noteq> 0 \<and> a AND op_present \<noteq> 0)"
  shows "says (mergeOps h a) (if a AND op_gone \<noteq> 0 then Some True else if a AND op_present \<noteq> 0 then Some False else said)"
proof -
  have d: "op_present AND op_gone = 0" using gone_present_disjoint by (simp add: and.commute)
  show ?thesis
    using assms unfolding says_def mergeOps_eq
    by (auto simp: and_or_zero and_not_same and_not_other [OF gone_present_disjoint] and_not_other [OF d])
qed

text \<open>Merging the operations of a path keeps their net effect: after any sequence of operations, none of
  which both removes and makes the path, the merged set says the path is gone exactly when the last
  operation that says anything removed or renamed it, and that it is there exactly when that operation
  made or wrote it; never both.\<close>

theorem mergeOps_net_effect:
  assumes "\<And>a. a \<in> set (first # ops) \<Longrightarrow> \<not> (a AND (op_Remove OR op_Rename) \<noteq> 0 \<and> a AND (op_Create OR op_Write) \<noteq> 0)"
  shows "(foldl mergeOps first ops AND (op_Remove OR op_Rename) \<noteq> 0) = (last_says (first # ops) None = Some True) \<and>
    (foldl mergeOps first ops AND (op_Create OR op_Write) \<noteq> 0) = (last_says (first # ops) None = Some False)"
proof -
  have "says (foldl mergeOps h ops) (last_says ops said)"
    if "says h said" "\<And>a. a \<in> set ops \<Longrightarrow> \<not> (a AND op_gone \<noteq> 0 \<and> a AND op_present \<noteq> 0)" for h said ops
    using that
  proof (induction ops arbitrary: h said)
    case (Cons a ops)
    have "says (mergeOps h a) (if a AND op_gone \<noteq> 0 then Some True else if a AND op_present \<noteq> 0 then Some False else said)"
      using Cons.prems by (intro mergeOps_says) auto
    from Cons.IH [OF this] Cons.prems(2) show ?case by simp
  qed simp
  moreover have "says first (if first AND op_gone \<noteq> 0 then Some True else if first AND op_present \<noteq> 0 then Some False else None)"
    using assms [of first] by (auto simp: says_def op_gone_def op_present_def)
  ultimately have "says (foldl mergeOps first ops) (last_says (first # ops) None)"
    using assms by (simp add: op_gone_def op_present_def)
  then show ?thesis by (simp add: says_def op_gone_def op_present_def)
qed

section \<open>Nothing is lost unnoticed\<close>

definition covers :: "string \<Rightarrow> string \<Rightarrow> bool" where
  "covers d p \<longleftrightarrow> prefix (splitSlash d) (splitSlash p)"

lemma splitSlash_root: "splitSlash ''/'' = []"
  by (simp add: splitSlash_def)

lemma splitSlash_share_path:
  assumes "\<And>p. p \<in> set ps \<Longrightarrow> p \<noteq> [] \<and> CHR ''/'' \<notin> set p"
  shows "splitSlash (''/'' @ Join ''/'' ps) = ps"
proof (cases "ps = []")
  case True
  then show ?thesis by (simp add: splitSlash_def)
next
  case False
  then have "Split CHR ''/'' (Join ''/'' ps) = ps" using assms by (intro Split_Join) auto
  then show ?thesis using assms by (simp add: splitSlash_def filter_id_conv)
qed

lemma splitSlash_parts: "p \<in> set (splitSlash s) \<Longrightarrow> p \<noteq> [] \<and> CHR ''/'' \<notin> set p"
  using Split_no_sep [of p "CHR ''/''" s] by (auto simp: splitSlash_def)

lemma splitSlash_commonDir:
  "splitSlash (commonDir a b) = longest_common_prefix (splitSlash a) (splitSlash b)"
proof (cases "a = b")
  case True
  have "longest_common_prefix xs xs = xs" for xs :: "string list" by (induction xs) auto
  with True show ?thesis by (simp add: commonDir_def)
next
  case False
  let ?i = "longest_common_prefix (splitSlash a) (splitSlash b)"
  have "set ?i \<subseteq> set (splitSlash a)"
    by (intro set_mono_prefix longest_common_prefix_prefix1)
  then have "splitSlash (''/'' @ Join ''/'' ?i) = ?i"
    using splitSlash_parts by (intro splitSlash_share_path) blast
  with False show ?thesis by (auto simp: commonDir_def Let_def splitSlash_root)
qed

lemma covers_commonDir: "covers a p \<or> covers b p \<Longrightarrow> covers (commonDir a b) p"
  unfolding covers_def splitSlash_commonDir
  using longest_common_prefix_prefix1 longest_common_prefix_prefix2 prefix_order.order_trans by blast

lemma covers_path_Dir:
  assumes "ValidSharePath p = None"
  shows "covers (path_Dir p) p"
proof (cases "p = ''/''")
  case True
  have "path_Dir ''/'' = ''/''" by (simp add: path_Dir_def path_Clean_def HasPrefix_def)
  then show ?thesis by (simp add: True covers_def)
next
  case False
  obtain ps x where p: "p = share_path (ps @ [x])" "list_all good_part (ps @ [x])"
    "\<And>q. q \<in> set (ps @ [x]) \<Longrightarrow> CHR ''/'' \<notin> set q"
    using ValidSharePath_parts [OF assms False] by blast
  have "path_Dir p = share_path ps" unfolding p(1) using p(2,3) by (rule path_Dir_share_path)
  moreover have s: "splitSlash (share_path qs) = qs" if "set qs \<subseteq> set (ps @ [x])" for qs
    unfolding share_path_def using that p(2,3) by (intro splitSlash_share_path) (auto simp: list_all_iff good_part_def)
  ultimately show ?thesis using s [of ps] s [of "ps @ [x]"] by (simp add: covers_def p(1) subset_insertI)
qed

definition noted :: "Event \<Rightarrow> coalescer \<Rightarrow> bool" where
  "noted e c \<longleftrightarrow>
     mget (co_pending c) (e_Export e, e_Path e) \<noteq> None \<or>
     (\<exists>l. mget (co_lost c) (e_Export e) = Some l \<and> covers (lo_dir l) (e_Path e))"

definition waited :: "time \<Rightarrow> coalescer \<Rightarrow> bool" where
  "waited t c \<longleftrightarrow> (\<forall>k p. mget (co_pending c) k = Some p \<longrightarrow> p_first p + co_maxDelay c \<le> t)"

lemma add_event_lost:
  "co_lost (add_event now e c) = (if mget (co_pending c) (e_Export e, e_Path e) = None \<and> co_cap c \<le> int (length (co_pending c))
     then co_lost (drop_event (e_Export e) (e_Path e) c) else co_lost c)"
  by (simp add: add_event_def Let_def split: option.splits)

lemma drop_event_pending [simp]: "co_pending (drop_event x p c) = co_pending c"
  by (simp add: drop_event_def Let_def)

lemma noted_drop: "noted e c \<Longrightarrow> noted e (drop_event x p c)"
  by (auto simp: noted_def drop_event_def Let_def covers_commonDir split: option.splits)

lemma drop_noted:
  "ValidSharePath (e_Path e) = None \<Longrightarrow> noted e (drop_event (e_Export e) (e_Path e) c)"
  by (auto simp: noted_def drop_event_def Let_def covers_path_Dir intro: covers_commonDir split: option.splits)

lemma noted_add: "noted e c \<Longrightarrow> noted e (add_event now e' c)"
  using noted_drop [of e c "e_Export e'" "e_Path e'"]
  by (auto simp: add_event_def Let_def noted_def split: option.splits)

lemma add_noted: "ValidSharePath (e_Path e) = None \<Longrightarrow> noted e (add_event now e c)"
  using drop_noted [of e c] by (auto simp: add_event_def Let_def noted_def split: option.splits)

lemma add_settings [simp]:
  "co_maxDelay (add_event now e c) = co_maxDelay c" "co_debounce (add_event now e c) = co_debounce c"
  by (simp_all add: add_event_def drop_event_def Let_def split: option.splits)

lemma waited_add: "waited t c \<Longrightarrow> now + co_maxDelay c \<le> t \<Longrightarrow> waited t (add_event now e c)"
  unfolding waited_def add_settings by (auto simp: add_event_def Let_def split: option.splits if_splits)

lemma wfm_add: "wfm (co_pending c) \<Longrightarrow> wfm (co_pending (add_event now e c))"
  by (simp add: add_event_def Let_def split: option.splits)

lemma adds_noted:
  assumes "wfm (co_pending c)" and "waited t c"
    and "list_all (\<lambda>(now, e). ValidSharePath (e_Path e) = None \<and> now + co_maxDelay c \<le> t) es"
  shows "let c' = fold (\<lambda>(now, e). add_event now e) es c in
    wfm (co_pending c') \<and> waited t c' \<and> co_maxDelay c' = co_maxDelay c \<and>
    (\<forall>e. noted e c \<or> e \<in> snd ` set es \<longrightarrow> noted e c')"
  using assms
proof (induction es arbitrary: c)
  case Nil
  then show ?case by (simp add: Let_def)
next
  case (Cons x es)
  obtain now e where x: "x = (now, e)" by (cases x)
  have "let c' = fold (\<lambda>(now, e). add_event now e) es (add_event now e c) in
      wfm (co_pending c') \<and> waited t c' \<and> co_maxDelay c' = co_maxDelay (add_event now e c) \<and>
      (\<forall>e'. noted e' (add_event now e c) \<or> e' \<in> snd ` set es \<longrightarrow> noted e' c')"
    using Cons.prems by (intro Cons.IH) (auto simp: x wfm_add waited_add)
  then show ?case
    using noted_add [of _ c now e] add_noted [of e now c] Cons.prems by (auto simp: x Let_def)
qed

lemma flush_noted:
  assumes "wfm (co_pending c)" and "waited t c" and "0 < co_maxDelay c" and "co_maxDelay c < 2 ^ 63"
    and "noted e c" and "flush t c = ((events, notices), c')"
  shows "(\<exists>ev \<in> set events. e_Export ev = e_Export e \<and> e_Path ev = e_Path e) \<or>
    (\<exists>n \<in> set notices. n_Export n = e_Export e \<and> covers (n_Path n) (e_Path e))"
proof (cases "mget (co_pending c) (e_Export e, e_Path e)")
  case (Some p)
  with assms(2) have "p_first p + co_maxDelay c \<le> t" by (auto simp: waited_def)
  with assms(3,4) have "due c t p" by (simp add: due_def time_Sub_ge)
  moreover have "((e_Export e, e_Path e), p) \<in> set (co_pending c)" using Some mget_set [OF assms(1)] by blast
  ultimately have "\<lparr>e_Export = e_Export e, e_Path = e_Path e, e_Op = p_op p, e_Dir = p_dir p\<rparr> \<in> set events"
    using assms(6) by (force simp: flush_def Let_def image_iff)
  then have "\<exists>ev \<in> set events. e_Export ev = e_Export e \<and> e_Path ev = e_Path e"
    by (rule rev_bexI) simp
  then show ?thesis ..
next
  case None
  with assms(5) obtain l where l: "mget (co_lost c) (e_Export e) = Some l" "covers (lo_dir l) (e_Path e)"
    by (auto simp: noted_def)
  then have "e_Export e \<in> set (sort (map fst (co_lost c)))" using mget_None_iff [of "co_lost c" "e_Export e"] by auto
  then have "notice_of (co_lost c) (e_Export e) \<in> set (map (notice_of (co_lost c)) (sort (map fst (co_lost c))))"
    unfolding set_map by (rule imageI)
  also have "map (notice_of (co_lost c)) (sort (map fst (co_lost c))) = notices"
    using assms(6) by (simp add: flush_def Let_def)
  finally have "\<exists>n \<in> set notices. n_Export n = e_Export e \<and> covers (n_Path n) (e_Path e)"
    by (rule rev_bexI) (simp add: l notice_of_def)
  then show ?thesis ..
qed

text \<open>Claim C7. Nothing observed is lost silently or held back for ever: of any events, a flush made when each has
  waited the longest delay reports the path, or gives a notice for its share whose directory contains
  the path.\<close>

theorem nothing_lost_unnoticed:
  assumes "wfm (co_pending c)" and "waited t c" and "0 < co_maxDelay c" and "co_maxDelay c < 2 ^ 63"
    and "list_all (\<lambda>(now, e). ValidSharePath (e_Path e) = None \<and> now + co_maxDelay c \<le> t) es"
    and "flush t (fold (\<lambda>(now, e). add_event now e) es c) = ((events, notices), c')"
    and "(now, e) \<in> set es"
  shows "(\<exists>ev \<in> set events. e_Export ev = e_Export e \<and> e_Path ev = e_Path e) \<or>
    (\<exists>n \<in> set notices. n_Export n = e_Export e \<and> prefix (splitSlash (n_Path n)) (splitSlash (e_Path e)))"
proof -
  let ?c = "fold (\<lambda>(now, e). add_event now e) es c"
  have "wfm (co_pending ?c)" "waited t ?c" "co_maxDelay ?c = co_maxDelay c" "noted e ?c"
    using adds_noted [OF assms(1,2,5)] assms(7) by (force simp: Let_def)+
  then show ?thesis using flush_noted [of ?c t e events notices c'] assms(3,4,6) by (simp add: covers_def)
qed

section \<open>The timer\<close>

lemma earliest_fold:
  assumes "\<And>k p. (k, p) \<in> set ps \<Longrightarrow> zero_time < f p" and "zero_time \<le> e0"
  shows "let e = fold (\<lambda>(_, p) e. if IsZero e \<or> f p < e then f p else e) ps e0 in
    (e = e0 \<or> (\<exists>k p. (k, p) \<in> set ps \<and> e = f p)) \<and>
    (\<forall>k p. (k, p) \<in> set ps \<longrightarrow> e \<le> f p) \<and> (e0 = zero_time \<or> e \<le> e0) \<and> (ps \<noteq> [] \<or> e0 \<noteq> zero_time \<longrightarrow> zero_time < e)"
  using assms
proof (induction ps arbitrary: e0)
  case Nil
  then show ?case by (auto simp: Let_def)
next
  case (Cons x ps)
  obtain k p where x: "x = (k, p)" by (cases x)
  have p: "zero_time < f p" using Cons.prems(1) [of k p] by (simp add: x)
  let ?e1 = "if IsZero e0 \<or> f p < e0 then f p else e0"
  have e1: "zero_time < ?e1" using Cons.prems(2) p by (auto simp: IsZero_def)
  have "let e = fold (\<lambda>(_, p) e. if IsZero e \<or> f p < e then f p else e) ps ?e1 in
    (e = ?e1 \<or> (\<exists>k p. (k, p) \<in> set ps \<and> e = f p)) \<and>
    (\<forall>k p. (k, p) \<in> set ps \<longrightarrow> e \<le> f p) \<and> (?e1 = zero_time \<or> e \<le> ?e1) \<and> (ps \<noteq> [] \<or> ?e1 \<noteq> zero_time \<longrightarrow> zero_time < e)"
    using Cons.prems e1 by (intro Cons.IH) (auto simp: less_imp_le)
  with e1 show ?case by (fastforce simp: x Let_def IsZero_def split: if_splits)
qed

text \<open>The timer is armed for exactly the moment the first pending path is due: something is flushed then,
  and nothing was due before.\<close>

theorem nextDue_exact:
  assumes "co_pending c \<noteq> []" and "zero_time < now" and "wfm (co_pending c)"
    and "0 < co_debounce c" and "co_debounce c < 2 ^ 63" and "0 < co_maxDelay c" and "co_maxDelay c < 2 ^ 63"
  shows "\<exists>t. nextDue c now = (t, True) \<and> now \<le> t \<and> (\<exists>k p. mget (co_pending c) k = Some p \<and> due c t p) \<and>
    (\<forall>k p t'. mget (co_pending c) k = Some p \<longrightarrow> now \<le> t' \<longrightarrow> t' < t \<longrightarrow> \<not> due c t' p)"
proof -
  have due: "due c t p \<longleftrightarrow> p_last p + co_debounce c \<le> t \<or> p_first p + co_maxDelay c \<le> t" for t p
    using assms(4-7) by (auto simp: due_def time_Sub_ge)
  have at: "now \<le> due_at c now p" "due c (due_at c now p) p" for p
    by (auto simp: due_at_def due Let_def)
  have before: "\<not> due c t' p" if "now \<le> t'" "t' < due_at c now p" for t' p
    using that by (auto simp: due_at_def due Let_def split: if_splits)
  let ?e = "fold (\<lambda>(_, p) e. if IsZero e \<or> due_at c now p < e then due_at c now p else e) (co_pending c) zero_time"
  have f: "(?e = zero_time \<or> (\<exists>k p. (k, p) \<in> set (co_pending c) \<and> ?e = due_at c now p)) \<and>
      (\<forall>k p. (k, p) \<in> set (co_pending c) \<longrightarrow> ?e \<le> due_at c now p) \<and> zero_time < ?e"
    using earliest_fold [of "co_pending c" "due_at c now" zero_time] assms(1,2) at(1)
    by (auto simp: Let_def intro: less_le_trans)
  then obtain k p where kp: "(k, p) \<in> set (co_pending c)" "?e = due_at c now p" by auto
  have "nextDue c now = (?e, True)" using f by (simp add: nextDue_def Let_def IsZero_def)
  moreover have "now \<le> ?e" "due c ?e p" using kp at by simp_all
  moreover have "\<not> due c t' q" if "mget (co_pending c) k' = Some q" "now \<le> t'" "t' < ?e" for k' q t'
    using that f before [of t' q] mget_set [OF assms(3), of k' q] by fastforce
  ultimately show ?thesis using kp(1) mget_set [OF assms(3)] by blast
qed

section \<open>Witnesses\<close>

theorem mergeOps_net_effect_witness:
  "foldl mergeOps op_Remove [op_Create, op_Attrib] AND (op_Remove OR op_Rename) = 0"
proof -
  have "\<not> (a AND (op_Remove OR op_Rename) \<noteq> 0 \<and> a AND (op_Create OR op_Write) \<noteq> 0)"
    if "a \<in> set [op_Remove, op_Create, op_Attrib]" for a
    using that by (auto simp: op_defs)
  from mergeOps_net_effect [of op_Remove "[op_Create, op_Attrib]", OF this]
  show ?thesis by (simp add: op_defs)
qed

definition ex_event :: Event where
  "ex_event = \<lparr>e_Export = ''/m/1'', e_Path = ''/a'', e_Op = op_Write, e_Dir = False\<rparr>"

definition ex_full :: coalescer where
  "ex_full = (newCoalescer 0 0 1)\<lparr>co_pending := [((''/m/1'', ''/b''), \<lparr>p_op = op_Write, p_dir = False, p_seq = 1, p_first = 0, p_last = 0\<rparr>)]\<rparr>"

text \<open>A full coalescer drops an event and gives a notice for its directory.\<close>

theorem nothing_lost_unnoticed_witness:
  "\<exists>n \<in> set (snd (fst (flush (10 ^ 9) (add_event 0 ex_event ex_full)))).
     n_Export n = ''/m/1'' \<and> prefix (splitSlash (n_Path n)) (splitSlash ''/a'')"
proof -
  obtain events notices c' where f: "flush (10 ^ 9) (add_event 0 ex_event ex_full) = ((events, notices), c')"
    by (metis surj_pair)
  have s: "ValidSharePath ''/a'' = None" by code_simp
  have "wfm (co_pending ex_full)" "waited (10 ^ 9) ex_full" "0 < co_maxDelay ex_full" "co_maxDelay ex_full < 2 ^ 63"
    "list_all (\<lambda>(now, e). ValidSharePath (e_Path e) = None \<and> now + co_maxDelay ex_full \<le> 10 ^ 9) [(0, ex_event)]"
    using s by (auto simp: ex_full_def wfm_def waited_def newCoalescer_def DefaultMaxDelay_def millisecond_def ex_event_def)
  from nothing_lost_unnoticed [OF this, of events notices c' 0 ex_event] f
  have "(\<exists>ev \<in> set events. e_Path ev = ''/a'') \<or>
      (\<exists>n \<in> set notices. n_Export n = ''/m/1'' \<and> prefix (splitSlash (n_Path n)) (splitSlash ''/a''))"
    by (auto simp: ex_event_def)
  moreover have "e_Path ev \<noteq> ''/a''" if "ev \<in> set events" for ev
    using that f by (auto simp: flush_def Let_def add_event_def drop_event_def ex_event_def ex_full_def newCoalescer_def split: if_splits)
  ultimately show ?thesis using f by auto
qed

theorem nextDue_exact_witness: "\<exists>t. nextDue ex_full 0 = (t, True) \<and> 0 \<le> t"
proof -
  have "co_pending ex_full \<noteq> []" "zero_time < 0" "wfm (co_pending ex_full)"
    "0 < co_debounce ex_full" "co_debounce ex_full < 2 ^ 63" "0 < co_maxDelay ex_full" "co_maxDelay ex_full < 2 ^ 63"
    by (simp_all add: ex_full_def wfm_def newCoalescer_def DefaultMaxDelay_def DefaultDebounce_def millisecond_def zero_time_def)
  from nextDue_exact [OF this] show ?thesis by blast
qed

end
