(* ===== verification/Port_Forwards.thy ===== *)
theory Port_Forwards
  imports Share_Names
begin

text \<open>
  The client's forwards of published container ports (\<open>client/internal/ports/ports.go\<close> and \<open>rule.go\<close>).

  A manager holds, per container, its open listeners, each with the port of the workspace it carries
  connections to. \<open>Reconcile\<close> is its part under the lock, on the containers the daemon listed before;
  whether this machine lets a port be opened is an argument, and a port one of the forwards already
  has cannot be opened again, as for any listener.

  The lemmas show that after a reconcile exactly ports of running containers of this account are
  open, that no port is opened twice and none that can be is left out, and that a manager that was
  closed opens nothing. A forward that stays wanted is kept as it is: it is known by its local port
  alone, so one whose container was restarted keeps carrying connections to the port the container
  had before.
\<close>

section \<open>Containers\<close>

record published_port =
  p_PublicPort :: int
  p_PrivatePort :: int
  p_Type :: string

record container =
  c_ID :: string
  c_Name :: string
  c_Ports :: "published_port list"
  c_Labels :: "(string, string) gomap"

definition Network :: "published_port \<Rightarrow> string" where
  "Network p = (if IsTCP (p_Type p) then ''tcp'' else ''udp'')"

fun published_from :: "published_port list \<Rightarrow> string list \<Rightarrow> published_port list" where
  "published_from [] seen = []"
| "published_from (p # ps) seen =
     (if p_PublicPort p = 0 then published_from ps seen
      else let key = Network p @ ''/'' @ Itoa (p_PublicPort p)
           in if key \<in> set seen then published_from ps seen else p # published_from ps (key # seen))"

definition published :: "container \<Rightarrow> published_port list" where
  "published c = sort_key p_PublicPort (sort_key Network (published_from (c_Ports c) []))"

section \<open>The rule\<close>

abbreviation OwnerLabel :: string where "OwnerLabel \<equiv> ''com.github.lhns.remote-docker.owner''"
abbreviation ClientLabel :: string where "ClientLabel \<equiv> ''com.github.lhns.remote-docker.client''"
abbreviation PortsLabel :: string where "PortsLabel \<equiv> ''com.github.lhns.remote-docker.ports''"

record rule =
  ru_User :: string
  ru_ClientID :: string

definition label :: "container \<Rightarrow> string \<Rightarrow> string" where
  "label c name = (case mget (c_Labels c) name of None \<Rightarrow> '''' | Some v \<Rightarrow> v)"

definition Owned :: "rule \<Rightarrow> container \<Rightarrow> bool" where
  "Owned r c \<longleftrightarrow> label c OwnerLabel = ru_User r"

definition LocalPorts :: "(nat \<Rightarrow> nat) \<Rightarrow> rule \<Rightarrow> container \<Rightarrow> published_port \<Rightarrow> int list" where
  "LocalPorts other r c p =
     (if label c ClientLabel \<noteq> ru_ClientID r then []
      else case mget (ParseRequestedPorts (label c PortsLabel)) (ContainerPort other (p_PrivatePort p) (p_Type p)) of
             None \<Rightarrow> []
           | Some ports \<Rightarrow> ports)"

definition orPublished :: "int list \<Rightarrow> published_port \<Rightarrow> int list" where
  "orPublished asked p = (if asked \<noteq> [] then asked else [p_PublicPort p])"

definition rule_Local :: "(nat \<Rightarrow> nat) \<Rightarrow> rule \<Rightarrow> container \<Rightarrow> published_port \<Rightarrow> int list" where
  "rule_Local other r c p = orPublished (LocalPorts other r c p) p"

definition localPorts :: "(nat \<Rightarrow> nat) \<Rightarrow> rule \<Rightarrow> container \<Rightarrow> published_port \<Rightarrow> int list" where
  "localPorts other r c p = orPublished (LocalPorts other r c p) p"

text \<open>What is opened here is what the rewritten answers of Docker show.\<close>

lemma localPorts_shown: "localPorts other r c p = rule_Local other r c p \<and> rule_Local other r c p \<noteq> []"
  by (simp add: localPorts_def rule_Local_def orPublished_def)

section \<open>The manager\<close>

type_synonym listener = "string \<times> int"

record containerForwards =
  cf_name :: string
  cf_forwards :: "(listener, int) gomap"

record Manager =
  m_active :: "(string, containerForwards) gomap"
  m_closed :: bool

definition new_manager :: Manager where
  "new_manager = \<lparr>m_active = [], m_closed = False\<rparr>"

text \<open>The listeners a container asks for, each with the workspace port it fronts, in the order they are opened.\<close>

definition asked :: "(nat \<Rightarrow> nat) \<Rightarrow> rule \<Rightarrow> container \<Rightarrow> (listener \<times> int) list" where
  "asked other r c = concat (map (\<lambda>p. map (\<lambda>local. ((Network p, local), p_PublicPort p)) (localPorts other r c p)) (published c))"

definition wanted :: "rule \<Rightarrow> container list \<Rightarrow> (string, container) gomap" where
  "wanted r containers =
     fold (\<lambda>c w. if \<not> Owned r c \<or> published c = [] then w else mput (c_ID c) c w) containers []"

definition all_listeners :: "(string, containerForwards) gomap \<Rightarrow> listener list" where
  "all_listeners active = concat (map (\<lambda>(i, cf). map fst (cf_forwards cf)) active)"

text \<open>\<open>openLocked\<close>: a port this machine does not give, or that a forward already has, is logged and skipped.\<close>

definition openLocked ::
    "(listener \<Rightarrow> bool) \<Rightarrow> (string, containerForwards) gomap \<Rightarrow> listener \<times> int \<Rightarrow> containerForwards \<Rightarrow> containerForwards" where
  "openLocked free others l cf =
     (if free (fst l) \<and> fst l \<notin> set (all_listeners others) \<and> mget (cf_forwards cf) (fst l) = None
      then cf\<lparr>cf_forwards := mput (fst l) (snd l) (cf_forwards cf)\<rparr> else cf)"

definition open_asked ::
    "(listener \<Rightarrow> bool) \<Rightarrow> (string, containerForwards) gomap \<Rightarrow> (listener \<times> int) list \<Rightarrow> containerForwards \<Rightarrow> containerForwards" where
  "open_asked free others ls cf =
     fold (\<lambda>l cf. if mget (cf_forwards cf) (fst l) \<noteq> None then cf else openLocked free others l cf) ls cf"

definition close_stale ::
    "(nat \<Rightarrow> nat) \<Rightarrow> rule \<Rightarrow> (string, container) gomap \<Rightarrow> (string, containerForwards) gomap \<Rightarrow> (string, containerForwards) gomap" where
  "close_stale other r want active =
     concat (map (\<lambda>(i, existing).
       case mget want i of
         None \<Rightarrow> []
       | Some c \<Rightarrow> [(i, existing\<lparr>cf_forwards := mdel_if (\<lambda>l _. l \<notin> fst ` set (asked other r c)) (cf_forwards existing)\<rparr>)]) active)"

definition open_new ::
    "(nat \<Rightarrow> nat) \<Rightarrow> rule \<Rightarrow> (listener \<Rightarrow> bool) \<Rightarrow> (string, container) gomap \<Rightarrow> string \<Rightarrow>
     (string, containerForwards) gomap \<Rightarrow> (string, containerForwards) gomap" where
  "open_new other r free want i active =
     (case mget want i of
        None \<Rightarrow> active
      | Some c \<Rightarrow>
          (let existing = (case mget active i of None \<Rightarrow> \<lparr>cf_name = c_Name c, cf_forwards = []\<rparr> | Some cf \<Rightarrow> cf);
               cf = open_asked free (mdel i active) (asked other r c) existing
           in if cf_forwards cf = [] then mdel i active else mput i cf active))"

definition Reconcile :: "(nat \<Rightarrow> nat) \<Rightarrow> rule \<Rightarrow> (listener \<Rightarrow> bool) \<Rightarrow> container list \<Rightarrow> Manager \<Rightarrow> Manager" where
  "Reconcile other r free containers m =
     (if m_closed m then m
      else let want = wanted r containers
           in m\<lparr>m_active := fold (open_new other r free want) (sort (map fst want)) (close_stale other r want (m_active m))\<rparr>)"

definition Close :: "Manager \<Rightarrow> Manager" where
  "Close m = m\<lparr>m_active := [], m_closed := True\<rparr>"

definition Active :: "Manager \<Rightarrow> int list" where
  "Active m = sort (map snd (all_listeners (m_active m)))"

definition Forwarding :: "int \<Rightarrow> Manager \<Rightarrow> bool" where
  "Forwarding local m = list_ex (\<lambda>(i, cf). mget (cf_forwards cf) (''tcp'', local) \<noteq> None) (m_active m)"

section \<open>What is forwarded\<close>

text \<open>The workspace port behind a listener of a container.\<close>

definition fwd :: "(string, containerForwards) gomap \<Rightarrow> string \<Rightarrow> listener \<Rightarrow> int option" where
  "fwd active i l = (case mget active i of None \<Rightarrow> None | Some cf \<Rightarrow> mget (cf_forwards cf) l)"

definition active_ok :: "(string, containerForwards) gomap \<Rightarrow> bool" where
  "active_ok active \<longleftrightarrow> wfm active \<and> (\<forall>i cf. mget active i = Some cf \<longrightarrow> wfm (cf_forwards cf)) \<and>
     (\<forall>i j l. fwd active i l \<noteq> None \<longrightarrow> fwd active j l \<noteq> None \<longrightarrow> i = j)"

lemma all_listeners_iff:
  assumes "wfm active"
  shows "l \<in> set (all_listeners active) \<longleftrightarrow> (\<exists>i. fwd active i l \<noteq> None)"
proof -
  have "l \<in> set (all_listeners active) \<longleftrightarrow> (\<exists>(i, cf) \<in> set active. l \<in> fst ` set (cf_forwards cf))"
    by (auto simp: all_listeners_def)
  also have "\<dots> \<longleftrightarrow> (\<exists>i cf. mget active i = Some cf \<and> mget (cf_forwards cf) l \<noteq> None)"
    unfolding map_of_eq_None_iff not_not Bex_def split_paired_Ex prod.case mget_set [OF assms] ..
  also have "\<dots> \<longleftrightarrow> (\<exists>i. fwd active i l \<noteq> None)" by (auto simp: fwd_def split: option.splits) blast
  finally show ?thesis .
qed

lemma wanted_from:
  "mget (fold (\<lambda>c w. if \<not> Owned r c \<or> published c = [] then w else mput (c_ID c) c w) cs w) i = Some c \<Longrightarrow>
     mget w i = Some c \<or> c \<in> set cs \<and> c_ID c = i \<and> Owned r c \<and> published c \<noteq> []"
proof (induction cs arbitrary: w)
  case (Cons d cs)
  from Cons.prems have "mget (fold (\<lambda>c w. if \<not> Owned r c \<or> published c = [] then w else mput (c_ID c) c w) cs
      (if \<not> Owned r d \<or> published d = [] then w else mput (c_ID d) d w)) i = Some c" by simp
  from Cons.IH [OF this] show ?case by (cases "\<not> Owned r d \<or> published d = []") (auto split: if_splits)
qed simp

lemma wanted_Some: "mget (wanted r cs) i = Some c \<Longrightarrow> c \<in> set cs \<and> c_ID c = i \<and> Owned r c \<and> published c \<noteq> []"
  using wanted_from [of r cs "[]" i c] by (simp add: wanted_def)

lemma mget_close_stale:
  assumes "wfm active"
  shows "mget (close_stale other r want active) i =
    (case (mget active i, mget want i) of
       (Some cf, Some c) \<Rightarrow> Some (cf\<lparr>cf_forwards := mdel_if (\<lambda>l _. l \<notin> fst ` set (asked other r c)) (cf_forwards cf)\<rparr>)
     | _ \<Rightarrow> None)"
  using assms unfolding close_stale_def
proof (induction active)
  case (Cons e active)
  obtain j cf where e: "e = (j, cf)" by (cases e)
  from Cons.prems have wf: "wfm active" and j: "mget active j = None" by (simp_all add: wfm_def e map_of_eq_None_iff)
  show ?case
  proof (cases "mget want j")
    case None
    with Cons.IH [OF wf] j show ?thesis by (cases "i = j") (auto simp: e)
  next
    case (Some c)
    with Cons.IH [OF wf] j show ?thesis by (cases "i = j") (auto simp: e)
  qed
qed simp

lemma wfm_close_stale: "wfm active \<Longrightarrow> wfm (close_stale other r want active)"
proof (induction active)
  case (Cons e active)
  obtain j cf where e: "e = (j, cf)" by (cases e)
  from Cons.prems have wf: "wfm active" and j: "j \<notin> fst ` set active" by (simp_all add: wfm_def e)
  have "fst ` set (close_stale other r want active) \<subseteq> fst ` set active"
    by (auto simp: close_stale_def split: option.splits) force
  with j have "j \<notin> fst ` set (close_stale other r want active)" by blast
  with Cons.IH [OF wf] show ?case by (cases "mget want j") (simp_all add: close_stale_def e wfm_def)
qed (simp add: close_stale_def)

lemma fwd_close_stale:
  assumes "active_ok active"
  shows "fwd (close_stale other r want active) i l =
    (case mget want i of None \<Rightarrow> None | Some c \<Rightarrow> if l \<in> fst ` set (asked other r c) then fwd active i l else None)"
  using assms by (auto simp: fwd_def mget_close_stale mget_mdel_if active_ok_def split: option.splits)

lemma close_stale_ok:
  assumes "active_ok active"
  shows "active_ok (close_stale other r want active)"
proof -
  have f: "fwd (close_stale other r want active) i l \<noteq> None \<Longrightarrow> fwd active i l \<noteq> None" for i l
    by (auto simp: fwd_close_stale [OF assms] split: option.splits if_splits)
  have wf: "wfm active" using assms by (simp add: active_ok_def)
  have "wfm (cf_forwards cf)" if "mget (close_stale other r want active) i = Some cf" for i cf
    using that assms by (auto simp: mget_close_stale [OF wf] active_ok_def split: option.splits)
  moreover have "i = j" if "fwd (close_stale other r want active) i l \<noteq> None" "fwd (close_stale other r want active) j l \<noteq> None" for i j l
    using f [OF that(1)] f [OF that(2)] assms unfolding active_ok_def by blast
  ultimately show ?thesis using wfm_close_stale [OF wf] unfolding active_ok_def by blast
qed

text \<open>What opening the listeners of one container gives.\<close>

lemma open_asked_get:
  "mget (cf_forwards (open_asked free others ls cf)) l =
     (case mget (cf_forwards cf) l of
        Some x \<Rightarrow> Some x
      | None \<Rightarrow> if free l \<and> l \<notin> set (all_listeners others) then mget ls l else None)"
proof (induction ls arbitrary: cf)
  case (Cons e ls)
  show ?case
    using Cons.IH [of cf] Cons.IH [of "openLocked free others e cf"]
    by (cases e) (auto simp: open_asked_def openLocked_def split: option.splits if_splits)
qed (simp add: open_asked_def split: option.splits)

lemma open_asked_wf: "wfm (cf_forwards cf) \<Longrightarrow> wfm (cf_forwards (open_asked free others ls cf))"
  by (induction ls arbitrary: cf) (auto simp: open_asked_def openLocked_def)

lemma fwd_del: "fwd (mdel i active) j l = (if j = i then None else fwd active j l)"
  by (simp add: fwd_def)

lemma mget_empty_iff: "m = [] \<longleftrightarrow> (\<forall>k. mget m k = None)"
  by (cases m) auto

lemma fwd_open_new:
  assumes "wfm active"
  shows "fwd (open_new other r free want i active) j l =
    (if j \<noteq> i then fwd active j l
     else case mget want i of
            None \<Rightarrow> fwd active i l
          | Some c \<Rightarrow>
              (case fwd active i l of
                 Some x \<Rightarrow> Some x
               | None \<Rightarrow> if free l \<and> (\<forall>k. k \<noteq> i \<longrightarrow> fwd active k l = None) then mget (asked other r c) l else None))"
proof (cases "j = i \<and> mget want i \<noteq> None")
  case False
  then show ?thesis by (auto simp: open_new_def fwd_def Let_def split: option.splits)
next
  case True
  then obtain c where c: "mget want i = Some c" by blast
  let ?ex = "case mget active i of None \<Rightarrow> \<lparr>cf_name = c_Name c, cf_forwards = []\<rparr> | Some cf \<Rightarrow> cf"
  let ?cf = "open_asked free (mdel i active) (asked other r c) ?ex"
  have ex: "mget (cf_forwards ?ex) l = fwd active i l" by (simp add: fwd_def split: option.splits)
  have others: "l \<notin> set (all_listeners (mdel i active)) \<longleftrightarrow> (\<forall>k. k \<noteq> i \<longrightarrow> fwd active k l = None)"
    using assms by (auto simp: all_listeners_iff fwd_del)
  have "fwd (open_new other r free want i active) i l = mget (cf_forwards ?cf) l"
    by (cases "cf_forwards ?cf = []") (simp_all add: open_new_def c Let_def fwd_def)
  then have "fwd (open_new other r free want i active) i l = (case fwd active i l of
       Some x \<Rightarrow> Some x
     | None \<Rightarrow> if free l \<and> (\<forall>k. k \<noteq> i \<longrightarrow> fwd active k l = None) then mget (asked other r c) l else None)"
    by (simp only: open_asked_get ex others)
  with True c show ?thesis by (simp only: option.case if_False simp_thms)
qed

lemma open_new_ok:
  assumes "active_ok active"
  shows "active_ok (open_new other r free want i active)"
proof -
  have wf: "wfm active" using assms by (simp add: active_ok_def)
  have "wfm (open_new other r free want i active)" using wf by (simp add: open_new_def Let_def split: option.splits)
  moreover have "wfm (cf_forwards cf)" if "mget (open_new other r free want i active) k = Some cf" for k cf
    using that assms by (auto simp: open_new_def Let_def active_ok_def intro!: open_asked_wf split: option.splits if_splits)
  moreover have "k = j" if "fwd (open_new other r free want i active) k l \<noteq> None" "fwd (open_new other r free want i active) j l \<noteq> None" for k j l
  proof -
    have apart: "fwd active a l \<noteq> None \<Longrightarrow> fwd active b l \<noteq> None \<Longrightarrow> a = b" for a b using assms unfolding active_ok_def by blast
    show ?thesis
    proof (rule ccontr)
      assume "k \<noteq> j"
      with that apart [of k j] show False unfolding fwd_open_new [OF wf]
        by (cases "k = i"; cases "j = i"; cases "fwd active i l"; cases "mget want i") (auto split: if_splits)
    qed
  qed
  ultimately show ?thesis unfolding active_ok_def by blast
qed

lemma open_new_keeps: "wfm active \<Longrightarrow> fwd active j l = Some x \<Longrightarrow> fwd (open_new other r free want i active) j l = Some x"
  by (cases "j = i") (simp_all add: fwd_open_new split: option.splits)

lemma open_new_adds:
  assumes "wfm active" and "fwd (open_new other r free want i active) j l = Some x" and "fwd active j l \<noteq> Some x"
  shows "j = i \<and> fwd active i l = None \<and> (\<exists>c. mget want i = Some c \<and> mget (asked other r c) l = Some x) \<and> free l"
  using assms by (cases "j = i"; cases "mget want i"; cases "fwd active i l") (auto simp: fwd_open_new split: if_splits)

lemma open_new_complete:
  assumes "wfm active" and "mget want i = Some c" and "l \<in> fst ` set (asked other r c)" and "free l"
  shows "\<exists>j. fwd (open_new other r free want i active) j l \<noteq> None"
proof (cases "\<exists>k. fwd active k l \<noteq> None")
  case True
  then obtain k x where "fwd active k l = Some x" by blast
  from open_new_keeps [OF assms(1) this] show ?thesis by blast
next
  case False
  then have none: "\<And>k. fwd active k l = None" by blast
  from assms(3) have "mget (asked other r c) l \<noteq> None" by (simp only: map_of_eq_None_iff not_not)
  then have "fwd (open_new other r free want i active) i l \<noteq> None"
    using assms(2,4) none by (simp only: fwd_open_new [OF assms(1)] option.case simp_thms if_True if_False)
  then show ?thesis by blast
qed

abbreviation open_all ::
    "(nat \<Rightarrow> nat) \<Rightarrow> rule \<Rightarrow> (listener \<Rightarrow> bool) \<Rightarrow> (string, container) gomap \<Rightarrow> string list \<Rightarrow>
     (string, containerForwards) gomap \<Rightarrow> (string, containerForwards) gomap" where
  "open_all other r free want ids active \<equiv> fold (open_new other r free want) ids active"

lemma open_all_ok: "active_ok active \<Longrightarrow> active_ok (open_all other r free want ids active)"
  by (induction ids arbitrary: active) (simp_all add: open_new_ok)

lemma ok_wfm: "active_ok active \<Longrightarrow> wfm active"
  by (simp add: active_ok_def)

lemma open_all_keeps: "active_ok active \<Longrightarrow> fwd active i l = Some x \<Longrightarrow> fwd (open_all other r free want ids active) i l = Some x"
  by (induction ids arbitrary: active) (simp_all add: open_new_ok open_new_keeps ok_wfm)

lemma open_all_adds:
  assumes "active_ok active" and "fwd (open_all other r free want ids active) i l = Some x"
  shows "fwd active i l = Some x \<or> fwd active i l = None \<and> (\<exists>c. mget want i = Some c \<and> mget (asked other r c) l = Some x) \<and> free l"
  using assms
proof (induction ids arbitrary: active)
  case (Cons k ids)
  let ?a = "open_new other r free want k active"
  have wf: "wfm active" using Cons.prems(1) by (rule ok_wfm)
  have "fwd (open_all other r free want ids ?a) i l = Some x" using Cons.prems(2) by simp
  from Cons.IH [OF open_new_ok [OF Cons.prems(1)] this] show ?case
  proof
    assume "fwd ?a i l = Some x"
    from open_new_adds [OF wf this] show ?thesis by (cases "fwd active i l = Some x") simp_all
  next
    assume n: "fwd ?a i l = None \<and> (\<exists>c. mget want i = Some c \<and> mget (asked other r c) l = Some x) \<and> free l"
    then have "fwd active i l = None" using open_new_keeps [OF wf, of i l] by (cases "fwd active i l") auto
    with n show ?thesis by blast
  qed
qed simp

lemma open_all_complete:
  assumes "active_ok active" and "i \<in> set ids" and "mget want i = Some c" and "l \<in> fst ` set (asked other r c)" and "free l"
  shows "\<exists>j. fwd (open_all other r free want ids active) j l \<noteq> None"
  using assms(1,2)
proof (induction ids arbitrary: active)
  case (Cons k ids)
  let ?a = "open_new other r free want k active"
  have ok: "active_ok ?a" by (rule open_new_ok [OF Cons.prems(1)])
  show ?case
  proof (cases "i = k")
    case True
    then obtain j x where "fwd ?a j l = Some x"
      using open_new_complete [where free = free, OF ok_wfm [OF Cons.prems(1)] assms(3-5)] by blast
    from open_all_keeps [OF ok this] have "fwd (open_all other r free want (k # ids) active) j l = Some x" by simp
    then show ?thesis by blast
  next
    case False
    with Cons.IH [OF ok] Cons.prems(2) show ?thesis by simp
  qed
qed simp

section \<open>A reconcile\<close>

text \<open>Claim C29. After a reconcile what is open is what it keeps and what it opened: a kept one as it was, a new one to the
  port its container publishes now; each for a running container of this account that asks for that
  port. No port is open twice, and one that a container asks for and this machine gives is open.\<close>

theorem Reconcile_exact:
  assumes "active_ok (m_active m)" and "\<not> m_closed m" and "m' = Reconcile other r free containers m"
  shows "active_ok (m_active m') \<and>
    (fwd (m_active m') i l = Some x \<longrightarrow>
       (\<exists>c \<in> set containers. c_ID c = i \<and> Owned r c \<and> l \<in> fst ` set (asked other r c) \<and>
          (fwd (m_active m) i l = Some x \<or> fwd (m_active m) i l = None \<and> mget (asked other r c) l = Some x \<and> free l))) \<and>
    (mget (wanted r containers) i = Some c \<longrightarrow> l \<in> fst ` set (asked other r c) \<longrightarrow> free l \<longrightarrow> (\<exists>j. fwd (m_active m') j l \<noteq> None))"
proof -
  let ?want = "wanted r containers"
  let ?kept = "close_stale other r ?want (m_active m)"
  have ok: "active_ok ?kept" by (rule close_stale_ok [OF assms(1)])
  have m': "m_active m' = fold (open_new other r free ?want) (sort (map fst ?want)) ?kept"
    using assms(2,3) by (simp add: Reconcile_def Let_def)
  have "\<exists>c \<in> set containers. c_ID c = i \<and> Owned r c \<and> l \<in> fst ` set (asked other r c) \<and>
      (fwd (m_active m) i l = Some x \<or> fwd (m_active m) i l = None \<and> mget (asked other r c) l = Some x \<and> free l)"
    if "fwd (m_active m') i l = Some x"
  proof -
    from open_all_adds [OF ok that [unfolded m']] consider "fwd ?kept i l = Some x"
      | c where "fwd ?kept i l = None" "mget ?want i = Some c" "mget (asked other r c) l = Some x" "free l" by blast
    then show ?thesis
    proof cases
      case 1
      then obtain c where c: "mget ?want i = Some c" "l \<in> fst ` set (asked other r c)" "fwd (m_active m) i l = Some x"
        unfolding fwd_close_stale [OF assms(1)] by (cases "mget ?want i") (simp_all split: if_splits)
      with wanted_Some [OF c(1)] show ?thesis by blast
    next
      case 2
      from 2(3) have in_asked: "l \<in> fst ` set (asked other r c)" by (metis fst_conv image_eqI map_of_SomeD)
      with 2(1,2) have "fwd (m_active m) i l = None"
        unfolding fwd_close_stale [OF assms(1)] by (simp only: option.case if_True)
      with wanted_Some [OF 2(2)] 2 in_asked show ?thesis by blast
    qed
  qed
  moreover have "\<exists>j. fwd (m_active m') j l \<noteq> None" if "mget ?want i = Some c" "l \<in> fst ` set (asked other r c)" "free l"
  proof -
    from that(1) have "i \<in> set (sort (map fst ?want))" by (metis map_of_eq_None_iff option.distinct(1) set_sort set_map)
    from open_all_complete [where free = free, OF ok this that] show ?thesis unfolding m' .
  qed
  ultimately show ?thesis using open_all_ok [OF ok, of other r free ?want "sort (map fst ?want)"] unfolding m' by blast
qed

text \<open>A forward that stays wanted stays as it is.\<close>

lemma Reconcile_keeps:
  assumes "active_ok (m_active m)" and "\<not> m_closed m" and "fwd (m_active m) i l = Some x"
    and "mget (wanted r containers) i = Some c" and "l \<in> fst ` set (asked other r c)"
  shows "fwd (m_active (Reconcile other r free containers m)) i l = Some x"
proof -
  have "fwd (close_stale other r (wanted r containers) (m_active m)) i l = Some x"
    unfolding fwd_close_stale [OF assms(1)] using assms(3-5) by (simp only: option.case if_True)
  from open_all_keeps [OF close_stale_ok [OF assms(1)] this] assms(2) show ?thesis by (simp add: Reconcile_def Let_def)
qed

lemma closed_stays_closed: "Reconcile other r free containers (Close m) = Close m \<and> m_active (Close m) = []"
  by (simp add: Reconcile_def Close_def)

section \<open>A container that was restarted\<close>

text \<open>A container that publishes one port, asked for under a number of this machine: the daemon chooses the
  port of the workspace each time it starts.\<close>

definition one_port :: "rule \<Rightarrow> string \<Rightarrow> string \<Rightarrow> int \<Rightarrow> int \<Rightarrow> container" where
  "one_port r i ports inside outside =
     \<lparr>c_ID = i, c_Name = i, c_Ports = [\<lparr>p_PublicPort = outside, p_PrivatePort = inside, p_Type = ''tcp''\<rparr>],
      c_Labels = [(OwnerLabel, ru_User r), (ClientLabel, ru_ClientID r), (PortsLabel, ports)]\<rparr>"

lemma one_port_asked:
  assumes "outside \<noteq> 0" and "mget (ParseRequestedPorts ports) (ContainerPort other inside ''tcp'') = Some [local]"
  shows "asked other r (one_port r i ports inside outside) = [((''tcp'', local), outside)]"
    and "wanted r [one_port r i ports inside outside] = [(i, one_port r i ports inside outside)]"
proof -
  have net: "Network \<lparr>p_PublicPort = outside, p_PrivatePort = inside, p_Type = ''tcp''\<rparr> = ''tcp''"
    by (simp add: Network_def IsTCP_def)
  have "published (one_port r i ports inside outside) = [\<lparr>p_PublicPort = outside, p_PrivatePort = inside, p_Type = ''tcp''\<rparr>]"
    using assms(1) by (simp add: published_def one_port_def)
  then show "asked other r (one_port r i ports inside outside) = [((''tcp'', local), outside)]"
    "wanted r [one_port r i ports inside outside] = [(i, one_port r i ports inside outside)]"
    using assms(2) net
    by (simp_all add: asked_def localPorts_def LocalPorts_def orPublished_def wanted_def Owned_def)
      (simp_all add: one_port_def label_def)
qed

text \<open>Claim C30. A container whose stop was not seen, and which started again with another port of the workspace behind the
  number it was asked for under, keeps its forward: connections to that number go to the port it had
  before, which it no longer publishes, however often the forwards are reconciled.\<close>

theorem restarted_container_keeps_old_target:
  assumes "old \<noteq> 0" and "new \<noteq> 0" and "old \<noteq> new" and "free (''tcp'', local)"
    and "mget (ParseRequestedPorts ports) (ContainerPort other inside ''tcp'') = Some [local]"
  shows "fwd (m_active ((Reconcile other r free [one_port r i ports inside new] ^^ n)
      (Reconcile other r free [one_port r i ports inside old] new_manager))) i (''tcp'', local) = Some old \<and>
    old \<notin> p_PublicPort ` set (c_Ports (one_port r i ports inside new))"
proof -
  let ?m = "Reconcile other r free [one_port r i ports inside old] new_manager"
  let ?R = "Reconcile other r free [one_port r i ports inside new]"
  have first: "m_active ?m = [(i, \<lparr>cf_name = i, cf_forwards = [((''tcp'', local), old)]\<rparr>)]" "\<not> m_closed ?m"
    using assms(4) one_port_asked [OF assms(1,5), of r i]
    by (simp_all add: Reconcile_def new_manager_def close_stale_def open_new_def open_asked_def openLocked_def all_listeners_def one_port_def)
  have ok0: "active_ok (m_active ?m)"
    unfolding first by (auto simp: active_ok_def wfm_def fwd_def split: if_splits)
  have wants: "mget (wanted r [one_port r i ports inside new]) i = Some (one_port r i ports inside new)"
    and "(''tcp'', local) \<in> fst ` set (asked other r (one_port r i ports inside new))"
    using one_port_asked [OF assms(2,5), of r i] by simp_all
  have "active_ok (m_active ((?R ^^ n) ?m)) \<and> \<not> m_closed ((?R ^^ n) ?m) \<and> fwd (m_active ((?R ^^ n) ?m)) i (''tcp'', local) = Some old"
  proof (induction n)
    case 0
    then show ?case using ok0 first by (simp add: fwd_def)
  next
    case (Suc n)
    then have IH: "active_ok (m_active ((?R ^^ n) ?m))" "\<not> m_closed ((?R ^^ n) ?m)" "fwd (m_active ((?R ^^ n) ?m)) i (''tcp'', local) = Some old"
      by blast+
    have "active_ok (m_active (?R ((?R ^^ n) ?m)))"
      using open_all_ok [OF close_stale_ok [OF IH(1)]] IH(2) by (simp add: Reconcile_def Let_def)
    moreover have "\<not> m_closed (?R ((?R ^^ n) ?m))" using IH(2) by (simp add: Reconcile_def Let_def)
    moreover have "fwd (m_active (?R ((?R ^^ n) ?m))) i (''tcp'', local) = Some old"
      by (rule Reconcile_keeps [OF IH wants]) fact
    ultimately show ?case by simp
  qed
  then show ?thesis using assms(3) by (simp add: one_port_def)
qed

section \<open>Witnesses\<close>

definition dev_rule :: rule where
  "dev_rule = \<lparr>ru_User = ''dev'', ru_ClientID = ''m''\<rparr>"

definition web :: string where
  "web = req_part (''80/tcp'', [8080])"

lemma web_label: "ParseRequestedPorts web = [(''80/tcp'', [8080])]"
  using ParseRequestedPorts_bounded_witness by (simp add: web_def)

lemma web_port: "ContainerPort (\<lambda>r. r) 80 ''tcp'' = ''80/tcp''"
proof -
  have "Itoa 80 = ''80''" by code_simp
  moreover have "ToLower (\<lambda>r. r) ''tcp'' = ''tcp''" by (rule ToLower_name) (simp add: name_char_def)
  ultimately show ?thesis by (simp add: ContainerPort_def)
qed

theorem restarted_container_keeps_old_target_witness:
  "fwd (m_active (Reconcile (\<lambda>r. r) dev_rule (\<lambda>l. True) [one_port dev_rule ''c'' web 80 32769]
     (Reconcile (\<lambda>r. r) dev_rule (\<lambda>l. True) [one_port dev_rule ''c'' web 80 32768] new_manager)))
     ''c'' (''tcp'', 8080) = Some 32768"
  using restarted_container_keeps_old_target [where old = 32768 and new = 32769 and free = "\<lambda>l. True" and local = 8080 and ports = web and other = "\<lambda>r. r"
      and inside = 80 and r = dev_rule and i = "''c''" and n = 1]
  by (simp add: web_label web_port)

theorem Reconcile_exact_witness:
  "\<exists>j. fwd (m_active (Reconcile (\<lambda>r. r) dev_rule (\<lambda>l. True) [one_port dev_rule ''c'' web 80 32768] new_manager)) j (''tcp'', 8080) \<noteq> None"
proof -
  have "active_ok (m_active new_manager)" by (simp add: new_manager_def active_ok_def fwd_def)
  moreover have "\<not> m_closed new_manager" by (simp add: new_manager_def)
  ultimately show ?thesis
    using Reconcile_exact [OF _ _ refl, of new_manager "\<lambda>r. r" dev_rule "\<lambda>l. True" "[one_port dev_rule ''c'' web 80 32768]"
        "''c''" "(''tcp'', 8080)" _ "one_port dev_rule ''c'' web 80 32768"]
      one_port_asked [of 32768 web "\<lambda>r. r" 80 8080 dev_rule "''c''"]
    by (simp add: web_label web_port)
qed

end
