(* ===== verification/Image_Pruning.thy ===== *)
theory Image_Pruning
  imports Go_Prelude
begin

text \<open>
  What the agent removes from a daemon (\<open>agent/internal/prune/prune.go\<close> and \<open>record.go\<close>): images nothing
  has used for a while and containers stopped for a while.

  The listings, the time and the record of when each image was last in use are arguments. The record's
  file is what decoding its JSON gives, or \<open>None\<close>; containers come from the daemon with their times in
  UTC.

  The lemmas show exactly which images and containers go, that a look which finds an image in use
  keeps it for the whole period whatever looks follow, and that a record that was lost removes nothing.
  An image named with a registry's port and no tag is not found by its name, so its use by a container
  that is gone by the next look is not noted.
\<close>

section \<open>Images and containers\<close>

record Image =
  i_ID :: string
  i_Tags :: "string list"
  i_Digests :: "string list"
  i_Size :: int

definition Refs :: "Image \<Rightarrow> string list" where
  "Refs i = (if i_Tags i \<noteq> [] then i_Tags i else if i_Digests i \<noteq> [] then i_Digests i else [i_ID i])"

record Container =
  n_ID :: string
  n_Name :: string
  n_ImageID :: string
  n_Status :: string
  n_Created :: time
  n_Finished :: time

definition Stopped :: "Container \<Rightarrow> bool" where
  "Stopped c \<longleftrightarrow> n_Status c = ''exited'' \<or> n_Status c = ''dead'' \<or> n_Status c = ''created''"

text \<open>The first instant of the year 2; the zero time is a year before it.\<close>

definition year_two :: time where
  "year_two = - 62104060800 * second"

definition Since :: "Container \<Rightarrow> time" where
  "Since c = (if n_Finished c < year_two then n_Created c else n_Finished c)"

definition isHex :: "string \<Rightarrow> bool" where
  "isHex s = list_all (\<lambda>c. 48 \<le> byte c \<and> byte c \<le> 57 \<or> 97 \<le> byte c \<and> byte c \<le> 102) s"

definition named :: "string \<Rightarrow> string \<Rightarrow> Image \<Rightarrow> bool" where
  "named name withLatest img \<longleftrightarrow>
     list_ex (\<lambda>t. let t = TrimPrefix t ''docker.io/library/'' in t = name \<or> t = withLatest) (i_Tags img) \<or> name \<in> set (i_Digests img)"

definition Resolve :: "Image list \<Rightarrow> string \<Rightarrow> string option" where
  "Resolve images typed =
     (let name = TrimPrefix (TrimPrefix typed ''docker.io/library/'') ''docker.io/'';
          withLatest = (if CHR '':'' \<in> set name \<or> CHR ''@'' \<in> set name then name else name @ '':latest'');
          bare = TrimPrefix name ''sha256:''
      in case find (named name withLatest) images of
           Some img \<Rightarrow> Some (i_ID img)
         | None \<Rightarrow>
             if 4 \<le> length bare \<and> isHex bare
             then map_option i_ID (find (\<lambda>img. HasPrefix (TrimPrefix (i_ID img) ''sha256:'') bare) images)
             else None)"

definition Used :: "Container list \<Rightarrow> string set" where
  "Used containers = set (map n_ImageID containers)"

section \<open>The record\<close>

record Record =
  r_Swept :: time
  r_Seen :: "(string, time) gomap"

definition NewRecord :: Record where
  "NewRecord = \<lparr>r_Swept = zero_time, r_Seen = []\<rparr>"

definition LastSeen :: "Record \<Rightarrow> string \<Rightarrow> time \<Rightarrow> time" where
  "LastSeen r i now = (case mget (r_Seen r) i of Some t \<Rightarrow> t | None \<Rightarrow> now)"

definition Observe :: "time \<Rightarrow> Image list \<Rightarrow> Container list \<Rightarrow> string list \<Rightarrow> Record \<Rightarrow> Record" where
  "Observe now images containers created r =
     (let met = fold (\<lambda>img seen. mput (i_ID img) (LastSeen r (i_ID img) now) seen) images [];
          held = fold (\<lambda>c seen. if mget seen (n_ImageID c) \<noteq> None then mput (n_ImageID c) now seen else seen) containers met;
          noted = fold (\<lambda>name seen. case Resolve images name of None \<Rightarrow> seen | Some i \<Rightarrow> mput i now seen) created held
      in r\<lparr>r_Seen := noted\<rparr>)"

definition recordVersion :: int where
  "recordVersion = 1"

record record_file =
  rf_Version :: int
  rf_Swept :: time
  rf_Seen :: "(string, time) gomap option"

definition Marshal :: "Record \<Rightarrow> record_file" where
  "Marshal r = \<lparr>rf_Version = recordVersion, rf_Swept = r_Swept r, rf_Seen = Some (r_Seen r)\<rparr>"

datatype record_error = NotDecoded | WrongVersion int | NotRead

definition Parse :: "record_file option \<Rightarrow> record_error + Record" where
  "Parse data =
     (case data of
        None \<Rightarrow> Inl NotDecoded
      | Some f \<Rightarrow>
          if rf_Version f \<noteq> recordVersion then Inl (WrongVersion (rf_Version f))
          else Inr \<lparr>r_Swept = rf_Swept f, r_Seen = (case rf_Seen f of None \<Rightarrow> [] | Some seen \<Rightarrow> seen)\<rparr>)"

datatype stored = NoRecord | Unreadable | Stored "record_file option"

definition Load :: "stored \<Rightarrow> Record \<times> record_error option" where
  "Load st =
     (case st of
        NoRecord \<Rightarrow> (NewRecord, None)
      | Unreadable \<Rightarrow> (NewRecord, Some NotRead)
      | Stored data \<Rightarrow> (case Parse data of Inl e \<Rightarrow> (NewRecord, Some e) | Inr r \<Rightarrow> (r, None)))"

section \<open>What goes\<close>

record Candidate =
  ca_Image :: Image
  ca_Seen :: time

definition unused :: "Record \<Rightarrow> Image list \<Rightarrow> Container list \<Rightarrow> string set \<Rightarrow> time \<Rightarrow> Candidate list" where
  "unused r images containers protect now =
     sort_key ca_Seen (map (\<lambda>img. \<lparr>ca_Image = img, ca_Seen = LastSeen r (i_ID img) now\<rparr>)
       (filter (\<lambda>img. \<not> (i_ID img \<in> Used containers \<or> i_ID img \<in> protect)) images))"

definition AgeImages :: "Record \<Rightarrow> Image list \<Rightarrow> Container list \<Rightarrow> string set \<Rightarrow> duration \<Rightarrow> time \<Rightarrow> Candidate list" where
  "AgeImages r images containers protect after now =
     filter (\<lambda>c. \<not> time_Sub now (ca_Seen c) \<le> after) (unused r images containers protect now)"

definition PressureImages :: "Record \<Rightarrow> Image list \<Rightarrow> Container list \<Rightarrow> string set \<Rightarrow> duration \<Rightarrow> time \<Rightarrow> Candidate list" where
  "PressureImages r images containers protect floor now =
     filter (\<lambda>c. \<not> time_Sub now (ca_Seen c) < floor) (unused r images containers protect now)"

definition AgeContainers :: "Container list \<Rightarrow> duration \<Rightarrow> time \<Rightarrow> Container list" where
  "AgeContainers containers after now =
     filter (\<lambda>c. Stopped c \<and> \<not> HasPrefix (TrimPrefix (n_Name c) ''/'') ''rd-'' \<and> time_Sub now (Since c) > after) containers"

section \<open>The record over looks\<close>

lemma met_get:
  "mget (fold (\<lambda>img seen. mput (i_ID img) (f (i_ID img)) seen) images m) i =
     (if i \<in> i_ID ` set images then Some (f i) else mget m i)"
  by (induction images arbitrary: m) auto

lemma held_get:
  "mget (fold (\<lambda>c seen. if mget seen (n_ImageID c) \<noteq> None then mput (n_ImageID c) now seen else seen) cs m) i =
     (if i \<in> Used cs \<and> mget m i \<noteq> None then Some now else mget m i)"
  by (induction cs arbitrary: m) (auto simp: Used_def)

lemma noted_get:
  "mget (fold (\<lambda>name seen. case Resolve images name of None \<Rightarrow> seen | Some i \<Rightarrow> mput i now seen) names m) i =
     (if Some i \<in> Resolve images ` set names then Some now else mget m i)"
  by (induction names arbitrary: m) (auto split: option.splits)

lemma find_mem: "find P xs = Some x \<Longrightarrow> x \<in> set xs \<and> P x"
  by (induction xs) (auto split: if_splits)

lemma Resolve_listed: "Resolve images name = Some i \<Longrightarrow> i \<in> i_ID ` set images"
  by (auto simp: Resolve_def Let_def split: option.splits if_splits dest!: find_mem)

text \<open>A look in one equation.\<close>

definition in_use :: "Image list \<Rightarrow> Container list \<Rightarrow> string list \<Rightarrow> string \<Rightarrow> bool" where
  "in_use images containers created i \<longleftrightarrow> i \<in> Used containers \<or> Some i \<in> Resolve images ` set created"

lemma Observe_seen:
  "mget (r_Seen (Observe now images containers created r)) i =
     (if i \<in> i_ID ` set images then Some (if in_use images containers created i then now else LastSeen r i now) else None)"
proof -
  have "i \<in> i_ID ` set images" if "Some i \<in> Resolve images ` set created"
    using that Resolve_listed by force
  then show ?thesis
    by (simp add: Observe_def noted_get held_get met_get [of "\<lambda>i. LastSeen r i now"] in_use_def del: not_None_eq)
qed

section \<open>The properties\<close>

lemma not_used: "i \<in> Used containers \<longleftrightarrow> \<not> (\<forall>n \<in> set containers. n_ImageID n \<noteq> i)"
  by (auto simp: Used_def)

text \<open>The images that go by age are exactly the listed ones no container has, that are not protected and were
  last in use longer ago than the period, the longest unused first.\<close>

theorem AgeImages_exact:
  "(c \<in> set (AgeImages r images containers protect after now) \<longleftrightarrow>
     ca_Image c \<in> set images \<and> ca_Seen c = LastSeen r (i_ID (ca_Image c)) now \<and>
     (\<forall>n \<in> set containers. n_ImageID n \<noteq> i_ID (ca_Image c)) \<and> i_ID (ca_Image c) \<notin> protect \<and> time_Sub now (ca_Seen c) > after) \<and>
   sorted (map ca_Seen (AgeImages r images containers protect after now))"
proof -
  have "sorted (map ca_Seen (filter P (sort_key ca_Seen xs)))" for P and xs :: "Candidate list"
    by (metis filter_sort sorted_sort_key)
  moreover have "c \<in> set (AgeImages r images containers protect after now) \<longleftrightarrow>
      (\<exists>img \<in> set images. c = \<lparr>ca_Image = img, ca_Seen = LastSeen r (i_ID img) now\<rparr> \<and>
         (\<forall>n \<in> set containers. n_ImageID n \<noteq> i_ID img) \<and> i_ID img \<notin> protect \<and> time_Sub now (ca_Seen c) > after)"
    by (auto simp: AgeImages_def unused_def not_used not_le image_iff)
  ultimately show ?thesis by (cases c) (auto simp: AgeImages_def unused_def)
qed

text \<open>A look at the daemon: the time, the images and containers it lists, and the names created since the last.\<close>

record look =
  l_now :: time
  l_images :: "Image list"
  l_containers :: "Container list"
  l_created :: "string list"

definition look_at :: "look \<Rightarrow> Record \<Rightarrow> Record" where
  "look_at l = Observe (l_now l) (l_images l) (l_containers l) (l_created l)"

lemma looks_keep:
  assumes "\<forall>l \<in> set ls. t \<le> l_now l \<and> i \<in> i_ID ` set (l_images l)" and "mget (r_Seen r) i = Some s" and "t \<le> s"
  shows "\<exists>s'. mget (r_Seen (fold look_at ls r)) i = Some s' \<and> t \<le> s'"
  using assms
proof (induction ls arbitrary: r s)
  case (Cons l ls)
  let ?s = "if in_use (l_images l) (l_containers l) (l_created l) i then l_now l else s"
  have "mget (r_Seen (look_at l r)) i = Some ?s"
    using Cons.prems by (simp add: look_at_def Observe_seen LastSeen_def)
  moreover have "t \<le> ?s" using Cons.prems by simp
  ultimately show ?case using Cons.IH [of "look_at l r" ?s] Cons.prems(1) by simp
qed auto

text \<open>Claim C33. An image that a look found in use stays for the whole period from then, whatever the looks after it find, as
  long as the daemon lists it.\<close>

theorem use_keeps_image:
  assumes "i \<in> i_ID ` set (l_images l)" and "in_use (l_images l) (l_containers l) (l_created l) i"
    and "\<forall>l' \<in> set ls. l_now l \<le> l_now l' \<and> i \<in> i_ID ` set (l_images l')"
    and "now - l_now l \<le> after" and "0 \<le> after" and "r' = fold look_at ls (look_at l r)"
  shows "i \<notin> (\<lambda>c. i_ID (ca_Image c)) ` set (AgeImages r' images containers protect after now)"
proof -
  have "mget (r_Seen (look_at l r)) i = Some (l_now l)" using assms(1,2) by (simp add: look_at_def Observe_seen)
  from looks_keep [OF assms(3) this] obtain s where s: "mget (r_Seen r') i = Some s" "l_now l \<le> s"
    unfolding assms(6) by auto
  then have "time_Sub now (LastSeen r' i now) \<le> after"
    using assms(4,5) by (simp add: LastSeen_def time_Sub_def)
  then show ?thesis by (auto simp: AgeImages_def unused_def)
qed

text \<open>A record that could not be read removes nothing.\<close>

lemma lost_record_removes_nothing: "0 \<le> after \<Longrightarrow> AgeImages NewRecord images containers protect after now = []"
  by (auto simp: AgeImages_def unused_def NewRecord_def LastSeen_def time_Sub_def filter_empty_conv)

lemma Parse_Marshal: "Load (Stored (Some (Marshal r))) = (r, None)"
  by (simp add: Load_def Parse_def Marshal_def)

text \<open>Only containers that run nothing go, never one of the agent's own, and only once they stopped longer ago
  than the period.\<close>

lemma AgeContainers_exact:
  "c \<in> set (AgeContainers containers after now) \<longleftrightarrow>
     c \<in> set containers \<and> Stopped c \<and> \<not> HasPrefix (TrimPrefix (n_Name c) ''/'') ''rd-'' \<and> after < time_Sub now (Since c)"
  by (auto simp: AgeContainers_def)

text \<open>A name with a registry's port in it has a colon, so it is taken to name a tag. An image run by such a name
  without one is not found, its use is not noted, and it is removed in the same look.\<close>

theorem port_registry_use_missed:
  assumes "CHR '':'' \<in> set typed" and "\<not> HasPrefix (typed @ '':latest'') ''docker.io/''" and "\<not> HasPrefix typed ''sha256:''"
    and "i_Tags img = [typed @ '':latest'']" and "i_Digests img = []"
    and "mget (r_Seen r) (i_ID img) = Some s" and "after < time_Sub now s"
  shows "Resolve [img] typed = None \<and>
    AgeImages (Observe now [img] [] [typed] r) [img] [] {} after now = [\<lparr>ca_Image = img, ca_Seen = s\<rparr>]"
proof -
  have pre: "HasPrefix typed p \<Longrightarrow> HasPrefix (typed @ '':latest'') p" for p by (auto simp: HasPrefix_iff)
  have lib: "HasPrefix x ''docker.io/library/'' \<Longrightarrow> HasPrefix x ''docker.io/''" for x
    by (auto simp: HasPrefix_iff)
  have trims: "TrimPrefix typed ''docker.io/library/'' = typed" "TrimPrefix typed ''docker.io/'' = typed"
    "TrimPrefix (typed @ '':latest'') ''docker.io/library/'' = typed @ '':latest''" "TrimPrefix typed ''sha256:'' = typed"
    using assms(2,3) pre lib by (auto simp: TrimPrefix_def)
  have "\<not> isHex typed" using assms(1) by (auto simp: isHex_def list_all_iff intro!: bexI [of _ "CHR '':''"])
  with assms(1,4,5) have none: "Resolve [img] typed = None"
    by (simp add: Resolve_def Let_def trims named_def)
  then have "mget (r_Seen (Observe now [img] [] [typed] r)) (i_ID img) = Some s"
    using assms(6) by (simp add: Observe_seen in_use_def Used_def LastSeen_def)
  with none assms(7) show ?thesis by (simp add: AgeImages_def unused_def Used_def LastSeen_def)
qed

section \<open>Witnesses\<close>

definition app :: Image where
  "app = \<lparr>i_ID = ''sha256:aa'', i_Tags = [''localhost:5000/app:latest''], i_Digests = [], i_Size = 1\<rparr>"

theorem port_registry_use_missed_witness:
  "AgeImages (Observe 100 [app] [] [''localhost:5000/app''] \<lparr>r_Swept = 0, r_Seen = [(''sha256:aa'', 0)]\<rparr>) [app] [] {} 50 100 =
     [\<lparr>ca_Image = app, ca_Seen = 0\<rparr>]"
  using port_registry_use_missed [of "''localhost:5000/app''" app "\<lparr>r_Swept = 0, r_Seen = [(''sha256:aa'', 0)]\<rparr>" 0 50 100]
  by (simp add: app_def HasPrefix_def time_Sub_def)

theorem use_keeps_image_witness:
  "''sha256:aa'' \<notin> (\<lambda>c. i_ID (ca_Image c)) ` set (AgeImages
     (look_at \<lparr>l_now = 10, l_images = [app], l_containers = [\<lparr>n_ID = ''c'', n_Name = ''c'', n_ImageID = ''sha256:aa'', n_Status = ''running'',
        n_Created = 0, n_Finished = 0\<rparr>], l_created = []\<rparr> NewRecord) [app] [] {} 100 60)"
proof -
  let ?l = "\<lparr>l_now = 10, l_images = [app], l_containers = [\<lparr>n_ID = ''c'', n_Name = ''c'', n_ImageID = ''sha256:aa'', n_Status = ''running'',
        n_Created = 0, n_Finished = 0\<rparr>], l_created = []\<rparr>"
  have "''sha256:aa'' \<in> i_ID ` set (l_images ?l)" "in_use (l_images ?l) (l_containers ?l) (l_created ?l) ''sha256:aa''"
    by (simp_all add: app_def in_use_def Used_def)
  from use_keeps_image [OF this, of "[]" 60 100] show ?thesis by simp
qed

theorem AgeImages_exact_witness:
  "\<lparr>ca_Image = app, ca_Seen = 0\<rparr> \<in> set (AgeImages \<lparr>r_Swept = 0, r_Seen = [(''sha256:aa'', 0)]\<rparr> [app] [] {} 50 100)"
  unfolding AgeImages_exact [THEN conjunct1] by (simp add: app_def LastSeen_def time_Sub_def)

end
