(* ===== verification/Spec2Isabelle.thy ===== *)
theory Spec2Isabelle
  imports Ephemeral_Properties Account_Edits Redeem_Removal Cache_Memory Union_Changes Watch_Coalescer
    Port_Forwards Conn_Gate Image_Pruning
begin

text \<open>
  A verification library for remote-docker, which runs containers on a remote workspace as if they ran
  on the client's machine.

  \<^bold>\<open>The program.\<close> The client (under \<open>src/client\<close>, \<open>src/core-client\<close> and \<open>src/dircache\<close>) exports
  directories to the workspace over NFS through an SSH tunnel, watches them for changes, keeps a cache
  of them in the workspace and carries the containers' writes back. The agent (under \<open>src/agent\<close> and
  \<open>src/core-agent\<close>) authenticates accounts, gives each machine of an account a port for its tunnel,
  keeps short-lived runs apart from machines, and enrols new accounts by tokens. What both sides must
  agree on is under \<open>src/core\<close>.

  \<^bold>\<open>The theories.\<close>

  \<^item> \<open>Go_Prelude\<close>: what the sources use of Go: maps with distinct keys, 64-bit integers, times and
    durations, strings as bytes, number and UTF-8 conversion, trimming and splitting.
  \<^item> \<open>Digest\<close>: SHA-256 and hexadecimal encoding, computed.
  \<^item> \<open>State_Records\<close>: the record files of the agent (\<open>core-agent/accounts/record.go\<close>). The locale
    \<open>line_record\<close> is the contract of a line format, interpreted by the port record, the run record
    and the record of uids.
  \<^item> \<open>Port_Assignments\<close>: \<open>core/workspace/mapping.go\<close> and \<open>core-agent/accounts/ports.go\<close>. \<open>Ports\<close> is the
    struct, one definition per method; \<open>ports_run\<close> interleaves the locked steps. The locale \<open>run_ports\<close> is
    what the registry of runs relies on, interpreted on these definitions.
  \<^item> \<open>Ephemeral_Runs\<close>, \<open>Ephemeral_Safety\<close>, \<open>Ephemeral_Properties\<close>: \<open>agent/internal/ephemeral/registry.go\<close>.
    \<open>reg_step\<close> interleaves connections, port requests, allocator answers, sweeps and drops.
  \<^item> \<open>Mount_Words\<close>: \<open>core/workspace/mode.go\<close> and \<open>mountwords.go\<close>. The locale \<open>ranked_words\<close> is the
    contract of words with a strength, interpreted by the watch and the prefetch levels.
  \<^item> \<open>Share_Names\<close>: \<open>export.go\<close>, \<open>sharepath.go\<close>, \<open>account.go\<close>, \<open>client.go\<close> and \<open>ports.go\<close> of
    \<open>core/workspace\<close>: the names both sides derive.
  \<^item> \<open>Workspace_Info\<close>: \<open>core/workspace/info.go\<close>, the agent's answer about an account.
  \<^item> \<open>Cache_Decide\<close>: \<open>decide.go\<close>, \<open>replace.go\<close> and \<open>types.go\<close> of \<open>dircache\<close>: what a container's changes mean
    for the files here.
  \<^item> \<open>Cache_Memory\<close>: \<open>dircache/wbstate.go\<close>, what write-back remembers between rounds.
  \<^item> \<open>Watch_Coalescer\<close>: \<open>core-client/fswatch/coalesce.go\<close> and \<open>core/notify/notify.go\<close>.
  \<^item> \<open>Enrol_Tokens\<close>: \<open>core-agent/tokens/tokens.go\<close> and the token codec of \<open>core/enrol/enrol.go\<close>.
    \<open>token_step\<close> interleaves the operations of agents sharing a directory.
  \<^item> \<open>Enrol_Policy\<close>: \<open>enrolpolicy.go\<close> of \<open>agent/internal/sshd\<close>, with \<open>checkFor\<close> of \<open>manage.go\<close> and
    \<open>redeemName\<close> of \<open>redeem.go\<close>.
  \<^item> \<open>Account_Keys\<close>, \<open>Account_Store\<close>, \<open>Account_Uids\<close>: \<open>accounts.go\<close>, \<open>keyfile_write.go\<close>, \<open>unixname.go\<close> and
    \<open>purge.go\<close> of \<open>core-agent/accounts\<close>: the key files, the sync of the accounts with them, and the uids.
    \<open>store_step\<close> is any locked step of the store; the record of uids interprets \<open>line_record\<close>.
  \<^item> \<open>Account_Edits\<close>: the writers of \<open>keyfile_write.go\<close> (\<open>AppendKey\<close>, \<open>CreateAccount\<close>, \<open>RemoveKey\<close>,
    \<open>RemoveAccountFile\<close>) as one change of the enrolled directory followed by a sync, and \<open>userRemove\<close> of
    \<open>agent/internal/sshd/manage.go\<close> over them. \<open>create_step\<close> interleaves creations of one name.
  \<^item> \<open>Redeem_Removal\<close>: a redemption (\<open>redeem\<close> and \<open>enrolKey\<close> of \<open>redeem.go\<close>, from the claim on) against the
    removal of its account (\<open>userRemove\<close>, with \<open>List\<close> and \<open>Revoke\<close> of \<open>tokens.go\<close>), by their file operations.
  \<^item> \<open>Union_Changes\<close>: \<open>agent/internal/unions/changes.go\<close> and the notes of what the client wrote: what the
    agent reports to the write-back of \<open>Cache_Decide\<close>.
  \<^item> \<open>Port_Forwards\<close>: \<open>client/internal/ports\<close>, the local listeners for published ports.
  \<^item> \<open>Conn_Gate\<close>: \<open>client/internal/session/gate.go\<close>. \<open>gate_step\<close> interleaves requests, sweeps and the close.
  \<^item> \<open>Image_Pruning\<close>: \<open>agent/internal/prune\<close>, which images and containers go.

  \<^bold>\<open>State and operations.\<close> A struct is a record with the same fields, a map an association list with
  distinct keys, a method a function from the old state to the result and the new state. A method
  that holds its lock throughout is one step; one that releases it is a step per locked part, and
  step relations interleave them. Errors are values. What comes from outside the sources (the disk, the
  clock, random bytes, Docker, the SSH library, unix accounts, the lower case of runes that are not ASCII) is an argument.

  \<^bold>\<open>What is shown.\<close> No two clients, and no two live runs, share a port, under every interleaving in which
  an allocation returns before its run expires; without that proviso they can. Records read back, the newest snapshot wins, counts are exact and
  limits hold. Names and labels read back and determine what they name. A file here is overwritten or
  deleted only for a change made to it last, and write-back settles, retries and gives up as it says.
  No observed change is lost without a notice that covers it. A token is redeemed at most once per
  minting. An allowed removal leaves an admin with a key. After a sync exactly the keys the directories
  enrol may log in, no uid is ever given to two names, and revocation takes two reads of a broken file.
  Of creations of one name at once at most one wins, and an account that was removed cannot log in. A
  removal that listed a token wins over its redemption. Reconciling the forwards leaves exactly those
  asked for that this machine gives; no request has its connection closed under it; an image seen in
  use stays for its whole period; no mark of the overlay reaches a client as a file, and a file is
  reported exactly when it is not as the client left it.

  \<^bold>\<open>Faults.\<close> Some theorems show a schedule or an input on which the code does not do what its comments say:
  a slow allocation shares a port, the last two admins remove each other, a redemption or its token
  outlives a removal, a forward keeps the target a container had before it was restarted, a sweep
  forgets a connection it did not ask about, the use of an image named with a registry's port is
  missed, and a container's write is taken for the client's.

  \<^bold>\<open>Bounds.\<close> Nothing runs on fuel. \<open>mint_loop\<close> takes its random draws as a list and answers \<open>None\<close> if all
  of them collide. Loops up a path and through a range end by a measure. Times are unbounded integers of
  nanoseconds with the saturation of \<open>Time.Sub\<close> written out; counters wrap where the code's do.

  \<^bold>\<open>Not modelled.\<close> Everything whose substance is input and output: SSH channels and sessions, the NFS
  server, the Docker API proxy, sockets and tunnels, kernel namespaces and mounts, virtual machines, the
  command lines, the handlers of the other account requests, and the goroutines that drive the cache. JSON is used only through its round trip. The
  limiter of failed redemptions counts in floating point.
\<close>

end
